(* ===== verification/Prelude.thy ===== *)
theory Prelude
  imports Main "HOL-Library.Word" "HOL-Library.Sublist" "HOL-Library.Multiset"
begin

text \<open>
  Shared material of the development: the names of the machine types of the C++ sources, the
  \<^verbatim>\<open>errno\<close> values they set, results of functions that return \<open>-1\<close> and set \<open>errno\<close>, and the
  generic facts on lists, options and words that the component theories use.

  Conventions. A C++ function that can fail with an \<open>errno\<close> is a function into
  \<open>errno + 'a\<close>, with \<open>Inl e\<close> for "\<open>errno = e; return -1\<close>". A function whose C++ body can
  hit a failing \<^verbatim>\<open>slk_assert\<close> (which aborts the process) is a function into an \<open>option\<close> type,
  with \<open>None\<close> for the abort. State is passed explicitly.
\<close>

unbundle bit_operations_syntax

type_synonym byte = "8 word"
type_synonym u16 = "16 word"
type_synonym u32 = "32 word"
type_synonym u64 = "64 word"
type_synonym bytes = "byte list"

datatype errno =
    EAGAIN | EEXIST | EFAULT | EHOSTUNREACH | EINVAL | EMSGSIZE | ENOENT | ENOMEM
  | ENOTSUP | EPROTO | ETIMEDOUT | ETERM

text \<open>The assertion macro \<^verbatim>\<open>slk_assert\<close>: a false condition ends the computation.\<close>

abbreviation slk_assert :: "bool \<Rightarrow> 'a option \<Rightarrow> 'a option" where
  "slk_assert b k \<equiv> (if b then k else None)"

section \<open>Lists\<close>

text \<open>\<open>std::swap\<close> of two positions of a vector.\<close>

definition swap_at :: "nat \<Rightarrow> nat \<Rightarrow> 'a list \<Rightarrow> 'a list" where
  "swap_at i j xs = xs[i := xs ! j, j := xs ! i]"

lemma length_swap_at [simp]: "length (swap_at i j xs) = length xs"
  by (simp add: swap_at_def)

lemma nth_swap_at:
  assumes "i < length xs" and "j < length xs" and "k < length xs"
  shows "swap_at i j xs ! k = (if k = j then xs ! i else if k = i then xs ! j else xs ! k)"
  using assms by (simp add: swap_at_def nth_list_update)

lemma swap_at_same [simp]: "swap_at i i xs = xs"
  by (simp add: swap_at_def)

lemma mset_swap_at [simp]:
  "i < length xs \<Longrightarrow> j < length xs \<Longrightarrow> mset (swap_at i j xs) = mset xs"
  by (auto simp: swap_at_def intro!: mset_swap)

lemma set_swap_at [simp]:
  assumes "i < length xs" and "j < length xs"
  shows "set (swap_at i j xs) = set xs"
  using mset_swap_at [OF assms] mset_eq_setD by blast

lemma distinct_swap_at [simp]:
  assumes "i < length xs" and "j < length xs"
  shows "distinct (swap_at i j xs) = distinct xs"
  using mset_swap_at [OF assms] mset_eq_imp_distinct_iff by blast

lemma take_drop_append [simp]: "take n w @ drop n w @ x = w @ x"
  by (metis append.assoc append_take_drop_id)

lemma copy_progress [simp]: "n < bs \<Longrightarrow> w \<noteq> [] \<Longrightarrow> bs - (n + length w) < bs - n"
  by (cases w) auto

section \<open>Words\<close>

lemma ff_mask: "(0xff :: 'a::len word) = mask 8"
  by (simp add: mask_eq_exp_minus_1)

text \<open>A byte cut out of a word at bit \<open>k\<close> and moved back to its place.\<close>

lemma bit_byte_of:
  "bit (push_bit k (ucast (ucast (drop_bit k v AND 0xff) :: byte) :: 'a::len word)) n
     \<longleftrightarrow> n < LENGTH('a) \<and> k \<le> n \<and> n < k + 8 \<and> bit (v :: 'a word) n"
  unfolding ff_mask by (auto simp add: bit_simps)

lemma bit_byte_of0:
  "bit (ucast (ucast (v AND 0xff) :: byte) :: 'a::len word) n
     \<longleftrightarrow> n < LENGTH('a) \<and> n < 8 \<and> bit (v :: 'a word) n"
  using bit_byte_of [of 0 v n] by simp

lemma unat_byte_less [simp]: "unat (c :: byte) < 256"
  using unsigned_less [of c] by simp

lemma unat_of_nat_u64: "n < 2 ^ 64 \<Longrightarrow> unat (of_nat n :: u64) = n"
  by (simp add: unsigned_of_nat take_bit_nat_eq_self)

lemma unat_of_nat_byte: "n < 256 \<Longrightarrow> unat (of_nat n :: byte) = n"
  by (simp add: unsigned_of_nat take_bit_nat_eq_self)

lemma unat_ucast_byte: "unat (ucast (b :: byte) :: u64) = unat b"
proof -
  have "unat b < 2 ^ 64" by (rule order.strict_trans [OF unat_byte_less]) simp
  then have "take_bit 64 (unat b) = unat b" by (rule take_bit_nat_eq_self)
  then show ?thesis by (simp add: unsigned_ucast_eq)
qed

lemma distinct_concat_map:
  assumes "distinct xs" "\<And>x. x \<in> set xs \<Longrightarrow> distinct (f x)"
    and "\<And>x y z. x \<in> set xs \<Longrightarrow> y \<in> set xs \<Longrightarrow> z \<in> set (f x) \<Longrightarrow> z \<in> set (f y) \<Longrightarrow> x = y"
  shows "distinct (concat (map f xs))"
  using assms
proof (induction xs)
  case Nil
  then show ?case by simp
next
  case (Cons a xs)
  have "distinct (concat (map f xs))" using Cons.prems by (intro Cons.IH) auto
  moreover have "set (f a) \<inter> set (concat (map f xs)) = {}"
  proof (rule ccontr)
    assume "set (f a) \<inter> set (concat (map f xs)) \<noteq> {}"
    then obtain z y where "z \<in> set (f a)" "y \<in> set xs" "z \<in> set (f y)" by auto
    then have "a = y" using Cons.prems(3) [of a y z] by simp
    then show False using \<open>y \<in> set xs\<close> Cons.prems(1) by simp
  qed
  ultimately show ?case using Cons.prems(2) [of a] by simp
qed

section \<open>Histories of operations\<close>

text \<open>The results of a sequence of operations and the state after it.\<close>

fun run_ops :: "('o \<Rightarrow> 's \<Rightarrow> 'r \<times> 's) \<Rightarrow> 'o list \<Rightarrow> 's \<Rightarrow> 'r list \<times> 's" where
  "run_ops f [] s = ([], s)"
| "run_ops f (x # xs) s = (let (r, s') = f x s; (rs, s'') = run_ops f xs s' in (r # rs, s''))"

lemma run_ops_append:
  "run_ops f (xs @ ys) s = (let (rs, s') = run_ops f xs s; (rs', s'') = run_ops f ys s' in (rs @ rs', s''))"
  by (induction xs arbitrary: s) (simp_all add: split_beta Let_def)

lemma run_inv:
  assumes "\<And>x s. I s \<Longrightarrow> I (snd (f x s)) \<and> fst (f x s) \<noteq> bad" "I s"
  shows "I (snd (run_ops f xs s)) \<and> bad \<notin> set (fst (run_ops f xs s))"
  using assms(2)
proof (induction xs arbitrary: s)
  case (Cons x xs)
  then show ?case using assms(1) [of s x] Cons.IH [of "snd (f x s)"] by (auto simp: split_beta Let_def)
qed simp

text \<open>A simulation between two step functions carries over to histories.\<close>

locale op_simulation =
  fixes conc :: "'o \<Rightarrow> 's \<Rightarrow> 'r \<times> 's" and spec :: "'o \<Rightarrow> 'a \<Rightarrow> 'r \<times> 'a"
    and rel :: "nat \<Rightarrow> 's \<Rightarrow> 'a \<Rightarrow> bool"
  assumes sim: "rel (Suc k) s a \<Longrightarrow> fst (conc x s) = fst (spec x a) \<and> rel k (snd (conc x s)) (snd (spec x a))"
begin

lemma run_sim:
  "rel (length xs + k) s a \<Longrightarrow>
   fst (run_ops conc xs s) = fst (run_ops spec xs a) \<and> rel k (snd (run_ops conc xs s)) (snd (run_ops spec xs a))"
proof (induction xs arbitrary: s a)
  case (Cons x xs)
  obtain r s' a' where "conc x s = (r, s')" "spec x a = (r, a')" and "rel (length xs + k) s' a'"
    using sim [of "length xs + k" s a x] Cons.prems by (cases "conc x s"; cases "spec x a") auto
  then show ?case using Cons.IH [of s' a'] by (simp add: split_beta)
qed simp

end

end
