(* ===== verification/Wire.thy ===== *)
theory Wire
  imports Prelude
begin

text \<open>
  The big-endian integer accessors of \<^verbatim>\<open>src/src/protocol/wire.hpp\<close>. A buffer that a
  \<^verbatim>\<open>put\<close> function writes is the list of the bytes written; a \<^verbatim>\<open>get\<close> function reads the bytes
  \<open>buffer[0]\<close>, \<open>buffer[1]\<close>, ... of the list it is given.
\<close>

definition put_uint8 :: "byte \<Rightarrow> bytes" where
  "put_uint8 v = [v]"

definition get_uint8 :: "bytes \<Rightarrow> byte" where
  "get_uint8 b = b ! 0"

definition put_uint16 :: "u16 \<Rightarrow> bytes" where
  "put_uint16 v = [ucast (drop_bit 8 v AND 0xff), ucast (v AND 0xff)]"

definition get_uint16 :: "bytes \<Rightarrow> u16" where
  "get_uint16 b = push_bit 8 (ucast (b ! 0)) OR ucast (b ! 1)"

definition put_uint32 :: "u32 \<Rightarrow> bytes" where
  "put_uint32 v =
     [ucast (drop_bit 24 v AND 0xff), ucast (drop_bit 16 v AND 0xff),
      ucast (drop_bit 8 v AND 0xff), ucast (v AND 0xff)]"

definition get_uint32 :: "bytes \<Rightarrow> u32" where
  "get_uint32 b =
     push_bit 24 (ucast (b ! 0)) OR push_bit 16 (ucast (b ! 1)) OR
     push_bit 8 (ucast (b ! 2)) OR ucast (b ! 3)"

definition put_uint64 :: "u64 \<Rightarrow> bytes" where
  "put_uint64 v =
     [ucast (drop_bit 56 v AND 0xff), ucast (drop_bit 48 v AND 0xff),
      ucast (drop_bit 40 v AND 0xff), ucast (drop_bit 32 v AND 0xff),
      ucast (drop_bit 24 v AND 0xff), ucast (drop_bit 16 v AND 0xff),
      ucast (drop_bit 8 v AND 0xff), ucast (v AND 0xff)]"

definition get_uint64 :: "bytes \<Rightarrow> u64" where
  "get_uint64 b =
     push_bit 56 (ucast (b ! 0)) OR push_bit 48 (ucast (b ! 1)) OR
     push_bit 40 (ucast (b ! 2)) OR push_bit 32 (ucast (b ! 3)) OR
     push_bit 24 (ucast (b ! 4)) OR push_bit 16 (ucast (b ! 5)) OR
     push_bit 8 (ucast (b ! 6)) OR ucast (b ! 7)"

lemma length_put [simp]:
  "length (put_uint8 x) = 1" "length (put_uint16 v) = 2"
  "length (put_uint32 w) = 4" "length (put_uint64 u) = 8"
  by (simp_all add: put_uint8_def put_uint16_def put_uint32_def put_uint64_def)

lemma get_put_uint8: "get_uint8 (put_uint8 v @ r) = v"
  by (simp add: get_uint8_def put_uint8_def)

lemma get_put_uint16: "get_uint16 (put_uint16 v @ r) = v"
  unfolding get_uint16_def put_uint16_def
  by (rule bit_word_eqI) (auto simp: bit_or_iff bit_byte_of bit_byte_of0)

lemma get_put_uint32: "get_uint32 (put_uint32 v @ r) = v"
  unfolding get_uint32_def put_uint32_def
  by (rule bit_word_eqI) (auto simp: bit_or_iff bit_byte_of bit_byte_of0)

lemma get_put_uint64: "get_uint64 (put_uint64 v @ r) = v"
  unfolding get_uint64_def put_uint64_def
  by (rule bit_word_eqI) (auto simp: bit_or_iff bit_byte_of bit_byte_of0)

text \<open>The accessors are also the inverse of each other the other way round.\<close>

lemma get_byte_bit:
  "bit (ucast (drop_bit k (w :: 'a::len word) AND 0xff) :: byte) n \<longleftrightarrow> n < 8 \<and> k + n < LENGTH('a) \<and> bit w (k + n)"
  unfolding ff_mask by (auto simp: bit_simps dest: bit_imp_le_length)

lemma byte_bit_high: "8 \<le> n \<Longrightarrow> \<not> bit (x :: byte) n"
  using bit_imp_le_length [of x n] by auto

lemma bit_get_uint32:
  "bit (get_uint32 [b0, b1, b2, b3]) n \<longleftrightarrow>
    (n < 8 \<and> bit b3 n) \<or> (8 \<le> n \<and> n < 16 \<and> bit b2 (n - 8)) \<or> (16 \<le> n \<and> n < 24 \<and> bit b1 (n - 16)) \<or> (24 \<le> n \<and> n < 32 \<and> bit b0 (n - 24))"
  unfolding get_uint32_def
  by (auto simp: bit_or_iff bit_push_bit_iff bit_unsigned_iff dest: bit_imp_le_length)

lemma put_get_uint32:
  assumes "length b = 4"
  shows "put_uint32 (get_uint32 b) = b"
proof -
  obtain b0 b1 b2 b3 where b: "b = [b0, b1, b2, b3]" using assms by (auto simp: length_Suc_conv numeral_eq_Suc)
  have e: "bit (ucast (drop_bit k (get_uint32 [b0, b1, b2, b3]) AND 0xff) :: byte) n \<longleftrightarrow> n < 8 \<and> k + n < 32 \<and> bit (get_uint32 [b0, b1, b2, b3]) (k + n)" for k n
    using get_byte_bit [of k "get_uint32 [b0, b1, b2, b3]" n] by simp
  have "ucast (drop_bit 24 (get_uint32 [b0, b1, b2, b3]) AND 0xff) = b0" "ucast (drop_bit 16 (get_uint32 [b0, b1, b2, b3]) AND 0xff) = b1"
    "ucast (drop_bit 8 (get_uint32 [b0, b1, b2, b3]) AND 0xff) = b2" "ucast (drop_bit 0 (get_uint32 [b0, b1, b2, b3]) AND 0xff) = b3"
    by (rule bit_word_eqI, simp add: e e [of 0, simplified] bit_get_uint32)+
  then show ?thesis by (simp add: put_uint32_def b)
qed

lemma bit_get_uint64:
  "bit (get_uint64 [b0, b1, b2, b3, b4, b5, b6, b7]) n \<longleftrightarrow>
    (n < 8 \<and> bit b7 n) \<or> (8 \<le> n \<and> n < 16 \<and> bit b6 (n - 8)) \<or> (16 \<le> n \<and> n < 24 \<and> bit b5 (n - 16)) \<or> (24 \<le> n \<and> n < 32 \<and> bit b4 (n - 24)) \<or>
    (32 \<le> n \<and> n < 40 \<and> bit b3 (n - 32)) \<or> (40 \<le> n \<and> n < 48 \<and> bit b2 (n - 40)) \<or> (48 \<le> n \<and> n < 56 \<and> bit b1 (n - 48)) \<or> (56 \<le> n \<and> n < 64 \<and> bit b0 (n - 56))"
proof -
  have "n < 8 \<or> (8 \<le> n \<and> n < 16) \<or> (16 \<le> n \<and> n < 24) \<or> (24 \<le> n \<and> n < 32) \<or> (32 \<le> n \<and> n < 40) \<or> (40 \<le> n \<and> n < 48) \<or> (48 \<le> n \<and> n < 56) \<or> (56 \<le> n \<and> n < 64) \<or> 64 \<le> n"
    by linarith
  then show ?thesis unfolding get_uint64_def
    by (elim disjE conjE) (simp_all add: bit_or_iff bit_push_bit_iff bit_unsigned_iff byte_bit_high less_imp_diff_less)
qed

lemma put_get_uint64:
  assumes "length b = 8"
  shows "put_uint64 (get_uint64 b) = b"
proof -
  obtain b0 b1 b2 b3 b4 b5 b6 b7 where b: "b = [b0, b1, b2, b3, b4, b5, b6, b7]"
    using assms by (auto simp: length_Suc_conv numeral_eq_Suc)
  have e: "bit (ucast (drop_bit k (get_uint64 [b0, b1, b2, b3, b4, b5, b6, b7]) AND 0xff) :: byte) n \<longleftrightarrow> n < 8 \<and> k + n < 64 \<and> bit (get_uint64 [b0, b1, b2, b3, b4, b5, b6, b7]) (k + n)" for k n
    using get_byte_bit [of k "get_uint64 [b0, b1, b2, b3, b4, b5, b6, b7]" n] by simp
  have "ucast (drop_bit 56 (get_uint64 [b0, b1, b2, b3, b4, b5, b6, b7]) AND 0xff) = b0" "ucast (drop_bit 48 (get_uint64 [b0, b1, b2, b3, b4, b5, b6, b7]) AND 0xff) = b1"
    "ucast (drop_bit 40 (get_uint64 [b0, b1, b2, b3, b4, b5, b6, b7]) AND 0xff) = b2" "ucast (drop_bit 32 (get_uint64 [b0, b1, b2, b3, b4, b5, b6, b7]) AND 0xff) = b3"
    "ucast (drop_bit 24 (get_uint64 [b0, b1, b2, b3, b4, b5, b6, b7]) AND 0xff) = b4" "ucast (drop_bit 16 (get_uint64 [b0, b1, b2, b3, b4, b5, b6, b7]) AND 0xff) = b5"
    "ucast (drop_bit 8 (get_uint64 [b0, b1, b2, b3, b4, b5, b6, b7]) AND 0xff) = b6" "ucast (drop_bit 0 (get_uint64 [b0, b1, b2, b3, b4, b5, b6, b7]) AND 0xff) = b7"
    by (rule bit_word_eqI, simp add: e e [of 0, simplified] bit_get_uint64)+
  then show ?thesis by (simp add: put_uint64_def b)
qed

text \<open>C10. Every accessor pair is a round trip: reading what was written gives the value back,
  whatever follows it in the buffer, for each of the four widths.\<close>

theorem wire_roundtrip:
  "get_uint8 (put_uint8 v8 @ r) = v8 \<and> get_uint16 (put_uint16 v16 @ r) = v16 \<and>
   get_uint32 (put_uint32 v32 @ r) = v32 \<and> get_uint64 (put_uint64 v64 @ r) = v64"
  by (simp add: get_put_uint8 get_put_uint16 get_put_uint32 get_put_uint64)

end
