(* ===== verification/Msg.thy ===== *)
theory Msg
  imports Prelude
begin

text \<open>
  Messages (\<^verbatim>\<open>src/src/msg/msg.hpp\<close>, \<^verbatim>\<open>src/src/msg/msg.cpp\<close>), as values: the type tag, the flag
  byte and the payload. Where the payload bytes live (inside the \<^verbatim>\<open>msg_t\<close>, in a heap block
  shared by reference counting, in the buffer of a decoder) is the subject of a model of its
  own; the codecs, the pipes and the sockets only look at what is modelled here.
  \<^verbatim>\<open>malloc\<close> is a parameter \<open>alloc\<close> that says whether a request of a given size succeeds.
\<close>

datatype msg_type = Type_vsm | Type_lmsg | Type_delimiter | Type_cmsg | Type_zclmsg | Type_join | Type_leave

record msg =
  m_type :: msg_type
  m_flags :: byte
  m_data :: bytes

text \<open>Flag bits, and the command type held in the bits of \<^verbatim>\<open>CMD_TYPE_MASK\<close>.\<close>

definition flag_more :: byte where "flag_more = 1"
definition flag_command :: byte where "flag_command = 2"
definition cmd_ping :: byte where "cmd_ping = 4"
definition cmd_pong :: byte where "cmd_pong = 8"
definition cmd_subscribe :: byte where "cmd_subscribe = 12"
definition cmd_cancel :: byte where "cmd_cancel = 16"
definition cmd_close_cmd :: byte where "cmd_close_cmd = 20"
definition flag_credential :: byte where "flag_credential = 32"
definition flag_routing_id :: byte where "flag_routing_id = 64"
definition flag_shared :: byte where "flag_shared = 128"
definition CMD_TYPE_MASK :: byte where "CMD_TYPE_MASK = 0x1c"

lemmas flag_defs =
  flag_more_def flag_command_def cmd_ping_def cmd_pong_def cmd_subscribe_def cmd_cancel_def
  cmd_close_cmd_def flag_credential_def flag_routing_id_def flag_shared_def CMD_TYPE_MASK_def

text \<open>The largest payload stored inside the message: a \<^verbatim>\<open>msg_t\<close> has 64 bytes, of which the
  metadata pointer takes 8, size, type and flags 3, the group 16 and the routing id 4.\<close>

definition max_vsm_size :: nat where
  "max_vsm_size = 64 - (8 + 3 + 16 + 4)"

definition sizeof_content_t :: nat where
  "sizeof_content_t = 40"

definition ping_cmd_name_size :: nat where "ping_cmd_name_size = 5"
definition cancel_cmd_name_size :: nat where "cancel_cmd_name_size = 7"
definition sub_cmd_name_size :: nat where "sub_cmd_name_size = 10"

definition ascii :: "string \<Rightarrow> bytes" where
  "ascii s = map (\<lambda>c. of_nat (of_char c)) s"

definition cancel_cmd_name :: bytes where
  "cancel_cmd_name = 6 # ascii ''CANCEL''"

definition sub_cmd_name :: bytes where
  "sub_cmd_name = 9 # ascii ''SUBSCRIBE''"

definition msg_init :: msg where
  "msg_init = \<lparr>m_type = Type_vsm, m_flags = 0, m_data = []\<rparr>"

text \<open>\<^verbatim>\<open>init_size\<close> leaves the payload uninitialised; the callers fill it, so the model takes the
  bytes they fill it with.\<close>

definition init_size :: "(nat \<Rightarrow> bool) \<Rightarrow> bytes \<Rightarrow> errno + msg" where
  "init_size alloc fill =
     (let n = length fill in
      if n \<le> max_vsm_size then Inr \<lparr>m_type = Type_vsm, m_flags = 0, m_data = fill\<rparr>
      else if sizeof_content_t + n < 2 ^ 64 \<and> alloc (sizeof_content_t + n)
      then Inr \<lparr>m_type = Type_lmsg, m_flags = 0, m_data = fill\<rparr>
      else Inl ENOMEM)"

definition init_buffer :: "(nat \<Rightarrow> bool) \<Rightarrow> bytes \<Rightarrow> errno + msg" where
  "init_buffer alloc buf = init_size alloc buf"

definition init_delimiter :: msg where
  "init_delimiter = \<lparr>m_type = Type_delimiter, m_flags = 0, m_data = []\<rparr>"

definition set_flags :: "byte \<Rightarrow> msg \<Rightarrow> msg" where
  "set_flags f m = m\<lparr>m_flags := m_flags m OR f\<rparr>"

definition reset_flags :: "byte \<Rightarrow> msg \<Rightarrow> msg" where
  "reset_flags f m = m\<lparr>m_flags := m_flags m AND NOT f\<rparr>"

definition init_subscribe :: "(nat \<Rightarrow> bool) \<Rightarrow> bytes \<Rightarrow> errno + msg" where
  "init_subscribe alloc topic =
     (case init_size alloc topic of Inl e \<Rightarrow> Inl e | Inr m \<Rightarrow> Inr (set_flags cmd_subscribe m))"

definition init_cancel :: "(nat \<Rightarrow> bool) \<Rightarrow> bytes \<Rightarrow> errno + msg" where
  "init_cancel alloc topic =
     (case init_size alloc topic of Inl e \<Rightarrow> Inl e | Inr m \<Rightarrow> Inr (set_flags cmd_cancel m))"

definition has_flag :: "byte \<Rightarrow> msg \<Rightarrow> bool" where
  "has_flag f m \<longleftrightarrow> m_flags m AND f \<noteq> 0"

definition is_more :: "msg \<Rightarrow> bool" where
  "is_more m \<longleftrightarrow> has_flag flag_more m"

definition is_routing_id :: "msg \<Rightarrow> bool" where
  "is_routing_id m \<longleftrightarrow> m_flags m AND flag_routing_id = flag_routing_id"

definition is_credential :: "msg \<Rightarrow> bool" where
  "is_credential m \<longleftrightarrow> m_flags m AND flag_credential = flag_credential"

definition is_delimiter :: "msg \<Rightarrow> bool" where
  "is_delimiter m \<longleftrightarrow> m_type m = Type_delimiter"

definition is_vsm :: "msg \<Rightarrow> bool" where
  "is_vsm m \<longleftrightarrow> m_type m = Type_vsm"

definition is_ping :: "msg \<Rightarrow> bool" where
  "is_ping m \<longleftrightarrow> m_flags m AND CMD_TYPE_MASK = cmd_ping"

definition is_pong :: "msg \<Rightarrow> bool" where
  "is_pong m \<longleftrightarrow> m_flags m AND CMD_TYPE_MASK = cmd_pong"

definition is_subscribe :: "msg \<Rightarrow> bool" where
  "is_subscribe m \<longleftrightarrow> m_flags m AND CMD_TYPE_MASK = cmd_subscribe"

definition is_cancel :: "msg \<Rightarrow> bool" where
  "is_cancel m \<longleftrightarrow> m_flags m AND CMD_TYPE_MASK = cmd_cancel"

text \<open>\<^verbatim>\<open>size\<close> and \<^verbatim>\<open>data\<close> abort on a message type that has no payload.\<close>

definition has_payload :: "msg_type \<Rightarrow> bool" where
  "has_payload t \<longleftrightarrow> t \<in> {Type_vsm, Type_lmsg, Type_cmsg, Type_zclmsg}"

definition msg_size :: "msg \<Rightarrow> nat option" where
  "msg_size m = slk_assert (has_payload (m_type m)) (Some (length (m_data m)))"

text \<open>\<^verbatim>\<open>command_body\<close> and \<^verbatim>\<open>command_body_size\<close>: the payload after the command name. The size is
  computed in \<^verbatim>\<open>size_t\<close> arithmetic; \<open>drop\<close> is what the pair of functions delimits when the name
  is there.\<close>

definition command_body_offset :: "msg \<Rightarrow> nat option" where
  "command_body_offset m =
     (if is_ping m \<or> is_pong m then Some ping_cmd_name_size
      else if \<not> has_flag flag_command m \<and> (is_subscribe m \<or> is_cancel m) then Some 0
      else if is_subscribe m then Some sub_cmd_name_size
      else if is_cancel m then Some cancel_cmd_name_size
      else None)"

definition command_body :: "msg \<Rightarrow> bytes option" where
  "command_body m = map_option (\<lambda>k. drop k (m_data m)) (command_body_offset m)"

definition command_body_size :: "msg \<Rightarrow> u64" where
  "command_body_size m =
     (case command_body_offset m of
        None \<Rightarrow> 0
      | Some k \<Rightarrow> of_nat (length (m_data m)) - of_nat k)"

lemma init_size_Inr:
  "init_size alloc fill = Inr m \<Longrightarrow>
     m_data m = fill \<and> m_flags m = 0 \<and> has_payload (m_type m)"
  by (auto simp: init_size_def Let_def has_payload_def split: if_splits)

lemma init_size_small:
  "length fill \<le> max_vsm_size \<Longrightarrow>
     init_size alloc fill = Inr \<lparr>m_type = Type_vsm, m_flags = 0, m_data = fill\<rparr>"
  by (simp add: init_size_def)

text \<open>A command is never of two kinds, and neither kind is the empty one.\<close>

lemma subscribe_not_cancel: "is_subscribe m \<Longrightarrow> \<not> is_cancel m"
  by (simp add: is_subscribe_def is_cancel_def flag_defs)

lemma init_subscribe_props:
  assumes "init_subscribe alloc topic = Inr m"
  shows "is_subscribe m" and "\<not> is_cancel m" and "\<not> has_flag flag_command m"
    and "\<not> is_more m" and "m_data m = topic" and "has_payload (m_type m)"
    and "m_flags m = cmd_subscribe"
  using assms
  by (auto simp: init_subscribe_def set_flags_def is_subscribe_def is_cancel_def has_flag_def
      is_more_def flag_defs split: sum.splits dest!: init_size_Inr)

lemma init_cancel_props:
  assumes "init_cancel alloc topic = Inr m"
  shows "is_cancel m" and "\<not> is_subscribe m" and "\<not> has_flag flag_command m"
    and "\<not> is_more m" and "m_data m = topic" and "has_payload (m_type m)"
    and "m_flags m = cmd_cancel"
  using assms
  by (auto simp: init_cancel_def set_flags_def is_subscribe_def is_cancel_def has_flag_def
      is_more_def flag_defs split: sum.splits dest!: init_size_Inr)

lemma length_cmd_names [simp]:
  "length sub_cmd_name = sub_cmd_name_size" "length cancel_cmd_name = cancel_cmd_name_size"
  by (simp_all add: sub_cmd_name_def cancel_cmd_name_def sub_cmd_name_size_def
      cancel_cmd_name_size_def ascii_def)

end
