(* ===== verification/Encoder.thy ===== *)
theory Encoder
  imports Wire Msg
begin

text \<open>
  The ZMTP frame encoders: the batching state machine of \<^verbatim>\<open>src/src/protocol/encoder.hpp\<close> and the
  state machine actions of \<^verbatim>\<open>v2_encoder.cpp\<close>, \<^verbatim>\<open>v3_1_encoder.cpp\<close> and \<^verbatim>\<open>raw_encoder.cpp\<close>.
  \<^verbatim>\<open>encoder_base_t\<close> is a template over the class that provides the actions; \<open>enc_kind\<close> names the
  three classes that instantiate it. The pointer \<^verbatim>\<open>m_write_pos\<close> together with \<^verbatim>\<open>m_to_write\<close> is the
  list of the bytes still to be written.
\<close>

datatype enc_kind = V2_encoder | V3_1_encoder | Raw_encoder

datatype enc_step = Message_ready | Size_ready

record encoder =
  e_write :: bytes
  e_next :: enc_step
  e_new_msg_flag :: bool
  e_in_progress :: "msg option"

text \<open>Frame flags of \<^verbatim>\<open>v2_protocol.hpp\<close>.\<close>

definition more_flag :: byte where "more_flag = 1"
definition large_flag :: byte where "large_flag = 2"
definition command_flag :: byte where "command_flag = 4"

definition UCHAR_MAX :: nat where "UCHAR_MAX = 255"

text \<open>\<^verbatim>\<open>v2_encoder_t::message_ready\<close>: the large flag looks at the payload, the choice of the
  length field at the payload plus the subscribe or cancel byte.\<close>

definition v2_header :: "msg \<Rightarrow> bytes" where
  "v2_header m =
     (let len0 = length (m_data m);
          protocol_flags =
            (if is_more m then more_flag else 0) OR
            (if len0 > UCHAR_MAX then large_flag else 0) OR
            (if has_flag flag_command m then command_flag else 0);
          sz = (if is_subscribe m \<or> is_cancel m then len0 + 1 else len0);
          len = (if sz > UCHAR_MAX then put_uint64 (of_nat sz) else [of_nat sz]);
          cmd = (if is_subscribe m then [1] else if is_cancel m then [0] else [])
      in protocol_flags # len @ cmd)"

definition v3_1_header :: "msg \<Rightarrow> bytes" where
  "v3_1_header m =
     (let len0 = length (m_data m);
          is_cmd = (has_flag flag_command m \<or> is_subscribe m \<or> is_cancel m);
          sz = (if is_cmd \<and> is_subscribe m then len0 + sub_cmd_name_size
                  else if is_cmd \<and> is_cancel m then len0 + cancel_cmd_name_size else len0);
          protocol_flags =
            (if is_more m then more_flag else 0) OR
            (if is_cmd then command_flag else 0) OR
            (if sz > UCHAR_MAX then large_flag else 0);
          len = (if sz > UCHAR_MAX then put_uint64 (of_nat sz) else [of_nat sz]);
          cmd = (if is_subscribe m then sub_cmd_name
                 else if is_cancel m then cancel_cmd_name else [])
      in protocol_flags # len @ cmd)"

text \<open>The action a state machine step runs, as the arguments of its call of \<^verbatim>\<open>next_step\<close>: the
  bytes to write, the next action and the new-message flag.\<close>

fun enc_action :: "enc_kind \<Rightarrow> enc_step \<Rightarrow> msg \<Rightarrow> bytes \<times> enc_step \<times> bool" where
  "enc_action V2_encoder Message_ready m = (v2_header m, Size_ready, False)"
| "enc_action V3_1_encoder Message_ready m = (v3_1_header m, Size_ready, False)"
| "enc_action Raw_encoder Message_ready m = (m_data m, Message_ready, True)"
| "enc_action _ Size_ready m = (m_data m, Message_ready, True)"

definition next_step :: "bytes \<times> enc_step \<times> bool \<Rightarrow> encoder \<Rightarrow> encoder" where
  "next_step a e = (case a of (w, n, f) \<Rightarrow>
     e\<lparr>e_write := w, e_next := n, e_new_msg_flag := f\<rparr>)"

text \<open>The constructors of the three encoders.\<close>

definition new_encoder :: encoder where
  "new_encoder = \<lparr>e_write = [], e_next = Message_ready, e_new_msg_flag = True, e_in_progress = None\<rparr>"

definition is_empty :: "encoder \<Rightarrow> bool" where
  "is_empty e \<longleftrightarrow> e_in_progress e = None"

definition load_msg :: "enc_kind \<Rightarrow> msg \<Rightarrow> encoder \<Rightarrow> encoder option" where
  "load_msg k m e =
     slk_assert (e_in_progress e = None)
       (Some (next_step (enc_action k (e_next e) m) (e\<lparr>e_in_progress := Some m\<rparr>)))"

text \<open>The loop of \<^verbatim>\<open>encode\<close>. \<open>own\<close> says that no buffer was supplied (\<^verbatim>\<open>*data == nullptr\<close>), \<open>bs\<close> is the
  size of the buffer in use, \<open>out\<close> what is in it so far (\<^verbatim>\<open>pos\<close> is its length).\<close>

function enc_loop :: "enc_kind \<Rightarrow> bool \<Rightarrow> nat \<Rightarrow> msg \<Rightarrow> bytes \<Rightarrow> encoder \<Rightarrow> bytes \<times> encoder" where
  "enc_loop k own bs m out e =
     (if \<not> length out < bs then (out, e)
      else if e_write e = [] \<and> e_new_msg_flag e then (out, e\<lparr>e_in_progress := None\<rparr>)
      else
        let e1 = (if e_write e = [] then next_step (enc_action k (e_next e) m) e else e) in
        if out = [] \<and> own \<and> length (e_write e1) \<ge> bs
        then (e_write e1, e1\<lparr>e_write := []\<rparr>)
        else
          let to_copy = min (length (e_write e1)) (bs - length out) in
          enc_loop k own bs m (out @ take to_copy (e_write e1))
            (e1\<lparr>e_write := drop to_copy (e_write e1)\<rparr>))"
  by pat_completeness auto

lemma header_nonempty [simp]: "v2_header m \<noteq> []" "v3_1_header m \<noteq> []"
  by (simp_all add: v2_header_def v3_1_header_def Let_def)

lemma enc_action_nonempty:
  "enc_action k s m = (w, s', f) \<Longrightarrow> w \<noteq> [] \<or> f"
  by (cases "(k, s, m)" rule: enc_action.cases) auto

termination enc_loop
proof (relation "measures [\<lambda>(k, own, bs, m, out, e). bs - length out,
    \<lambda>(k, own, bs, m, out, e). if e_new_msg_flag e then 0 else 1]", simp, goal_cases)
  case (1 k own bs m out e e1 to_copy)
  then show ?case
    using enc_action_nonempty [of k "e_next e" m]
    by (cases "enc_action k (e_next e) m") (auto simp: next_step_def min_def split: if_splits)
qed

declare enc_loop.simps [simp del]

definition encode :: "enc_kind \<Rightarrow> nat \<Rightarrow> nat option \<Rightarrow> encoder \<Rightarrow> bytes \<times> encoder" where
  "encode k buf_size supplied e =
     (let own = (supplied = None);
          buffersize = (case supplied of None \<Rightarrow> buf_size | Some n \<Rightarrow> n)
      in case e_in_progress e of
           None \<Rightarrow> ([], e)
         | Some m \<Rightarrow> enc_loop k own buffersize m [] e)"

section \<open>What an encoder puts on the wire\<close>

text \<open>The frame of a message: its header and its payload.\<close>

fun frame :: "enc_kind \<Rightarrow> msg \<Rightarrow> bytes" where
  "frame V2_encoder m = v2_header m @ m_data m"
| "frame V3_1_encoder m = v3_1_header m @ m_data m"
| "frame Raw_encoder m = m_data m"

text \<open>The bytes of the current message that \<^verbatim>\<open>encode\<close> has still to hand out.\<close>

definition pending :: "encoder \<Rightarrow> bytes" where
  "pending e =
     (case e_in_progress e of
        None \<Rightarrow> []
      | Some m \<Rightarrow> e_write e @ (if e_new_msg_flag e then [] else m_data m))"

text \<open>Between two calls the flag is set exactly when the last part of the frame was scheduled.\<close>

definition enc_inv :: "encoder \<Rightarrow> bool" where
  "enc_inv e \<longleftrightarrow> (e_new_msg_flag e \<longleftrightarrow> e_next e = Message_ready)
     \<and> (e_in_progress e = None \<longrightarrow> e_write e = [] \<and> e_new_msg_flag e)"

lemma enc_inv_new: "enc_inv new_encoder"
  by (simp add: enc_inv_def new_encoder_def)

lemma load_msg_pending:
  assumes "enc_inv e" and "load_msg k m e = Some e'"
  shows "enc_inv e' \<and> e_in_progress e' = Some m \<and> pending e' = frame k m"
  using assms
  by (cases k) (auto simp: load_msg_def enc_inv_def pending_def next_step_def split: if_splits)

lemma enc_loop_spec:
  assumes "enc_inv e" and "e_in_progress e = Some m" and "enc_loop k own bs m out e = (out', e')"
  shows "enc_inv e' \<and> out' @ pending e' = out @ pending e
    \<and> (e_in_progress e' = None \<or> e_in_progress e' = Some m)"
  using assms
proof (induction k own bs m out e arbitrary: out' e' rule: enc_loop.induct)
  case (1 k own bs m out e)
  define e1 where "e1 = (if e_write e = [] then next_step (enc_action k (e_next e) m) e else e)"
  define n where "n = min (length (e_write e1)) (bs - length out)"
  have e1: "enc_inv e1" "e_in_progress e1 = Some m" "pending e1 = pending e"
    if "\<not> (e_write e = [] \<and> e_new_msg_flag e)"
    using 1(2,3) that unfolding e1_def
    by (cases "e_next e"; cases k; auto simp: enc_inv_def pending_def next_step_def)+
  show ?case
  proof (cases "length out < bs \<and> \<not> (e_write e = [] \<and> e_new_msg_flag e)
      \<and> \<not> (out = [] \<and> own \<and> length (e_write e1) \<ge> bs)")
    case True
    let ?e2 = "e1\<lparr>e_write := drop n (e_write e1)\<rparr>"
    have eq: "enc_loop k own bs m (out @ take n (e_write e1)) ?e2 = (out', e')"
      using True 1(4) by (subst (asm) enc_loop.simps) (auto simp: Let_def e1_def n_def)
    have inv2: "enc_inv ?e2" "e_in_progress ?e2 = Some m"
      using e1 True by (auto simp: enc_inv_def)
    have "out @ take n (e_write e1) @ pending ?e2 = out @ pending e"
      using e1 True by (auto simp: pending_def)
    then show ?thesis
      using "1.IH"(1) [OF _ _ e1_def _ n_def inv2 eq] True
      by (metis append.assoc not_le)
  next
    case False
    then show ?thesis
      using 1(2-4) e1
      by (subst (asm) enc_loop.simps)
        (auto simp: Let_def e1_def [symmetric] enc_inv_def pending_def split: if_splits)
  qed
qed

lemma encode_spec:
  assumes "enc_inv e" and "encode k buf_size supplied e = (out, e')"
  shows "enc_inv e' \<and> out @ pending e' = pending e"
proof (cases "e_in_progress e")
  case None
  then show ?thesis using assms by (simp add: encode_def)
next
  case (Some m)
  then have "enc_loop k (supplied = None) (case supplied of None \<Rightarrow> buf_size | Some n \<Rightarrow> n) m [] e
      = (out, e')"
    using assms(2) by (simp add: encode_def Let_def)
  then show ?thesis
    using enc_loop_spec [OF assms(1) Some] by fastforce
qed

text \<open>Each pass of the loop either ends the call or makes progress: a call with room for at least
  one byte returns bytes or completes the message.\<close>

lemma enc_loop_out_prefix:
  "enc_loop k own bs m out e = (out', e') \<Longrightarrow> out \<noteq> [] \<Longrightarrow> prefix out out'"
proof (induction k own bs m out e arbitrary: out' e' rule: enc_loop.induct)
  case (1 k own bs m out e)
  define e1 where "e1 = (if e_write e = [] then next_step (enc_action k (e_next e) m) e else e)"
  define n where "n = min (length (e_write e1)) (bs - length out)"
  show ?case
  proof (cases "length out < bs \<and> \<not> (e_write e = [] \<and> e_new_msg_flag e)")
    case True
    then have "enc_loop k own bs m (out @ take n (e_write e1)) (e1\<lparr>e_write := drop n (e_write e1)\<rparr>)
        = (out', e')"
      using 1(2,3) by (subst (asm) enc_loop.simps) (auto simp: Let_def e1_def n_def)
    then have "prefix (out @ take n (e_write e1)) out'"
      using 1(1) [OF _ _ e1_def _ n_def] True 1(3) by auto
    then show ?thesis by (rule append_prefixD)
  next
    case False
    then show ?thesis
      using 1(2,3) by (subst (asm) enc_loop.simps) (auto split: if_splits)
  qed
qed

lemma enc_loop_progress:
  assumes "0 < bs" and "enc_loop k own bs m [] e = (out', e')"
  shows "out' \<noteq> [] \<or> e_in_progress e' = None"
proof -
  have two: "out' \<noteq> [] \<or> e_in_progress e' = None"
    if "e_new_msg_flag e" and "enc_loop k own bs m [] e = (out', e')" for e
    using that assms(1)
    by (subst (asm) enc_loop.simps)
      (auto simp: Let_def min_def split: if_splits dest!: enc_loop_out_prefix)
  obtain w s f where a: "enc_action k (e_next e) m = (w, s, f)"
    using prod_cases3 by blast
  show ?thesis
  proof (cases "e_new_msg_flag e \<or> e_write e \<noteq> [] \<or> w \<noteq> []")
    case True
    then show ?thesis
      using assms two [OF _ assms(2)] a
      by (subst (asm) enc_loop.simps)
        (auto simp: Let_def min_def next_step_def split: if_splits dest!: enc_loop_out_prefix)
  next
    case False
    then have f by (metis a enc_action_nonempty)
    with False show ?thesis
      using assms a two [of "e\<lparr>e_next := s, e_new_msg_flag := f, e_write := []\<rparr>"]
      by (subst (asm) enc_loop.simps) (auto simp: Let_def next_step_def split: if_splits)
  qed
qed

lemma encode_progress:
  assumes "e_in_progress e \<noteq> None" and "0 < (case supplied of None \<Rightarrow> buf_size | Some n \<Rightarrow> n)"
    and "encode k buf_size supplied e = (out, e')"
  shows "out \<noteq> [] \<or> e_in_progress e' = None"
  using assms by (auto simp: encode_def Let_def split: option.splits dest: enc_loop_progress)

text \<open>A client that keeps calling \<^verbatim>\<open>encode\<close> with the buffers it has, \<open>n\<close> times.\<close>

fun drain :: "enc_kind \<Rightarrow> nat \<Rightarrow> (nat \<Rightarrow> nat option) \<Rightarrow> nat \<Rightarrow> encoder \<Rightarrow> bytes \<times> encoder" where
  "drain k buf_size supp 0 e = ([], e)"
| "drain k buf_size supp (Suc n) e =
     (let (o1, e1) = encode k buf_size (supp n) e; (o2, e2) = drain k buf_size supp n e1
      in (o1 @ o2, e2))"

lemma encode_idle: "e_in_progress e = None \<Longrightarrow> encode k buf_size supplied e = ([], e)"
  by (simp add: encode_def)

lemma drain_idle: "e_in_progress e = None \<Longrightarrow> drain k buf_size supp n e = ([], e)"
  by (induction n) (simp_all add: encode_idle)

lemma drain_complete:
  assumes "enc_inv e" and "0 < buf_size" and "\<And>i. supp i \<noteq> Some 0" and "length (pending e) < n"
  shows "\<exists>e'. drain k buf_size supp n e = (pending e, e') \<and> e_in_progress e' = None \<and> enc_inv e'"
  using assms(1,4)
proof (induction n arbitrary: e)
  case 0
  then show ?case by simp
next
  case (Suc n)
  obtain o1 e1 where enc: "encode k buf_size (supp n) e = (o1, e1)" by fastforce
  note ex = encode_spec [OF Suc.prems(1) enc]
  show ?case
  proof (cases "e_in_progress e1 = None")
    case True
    then have "pending e1 = []" by (simp add: pending_def)
    then show ?thesis using enc ex True by (auto simp: drain_idle)
  next
    case False
    have "e_in_progress e \<noteq> None" using False enc encode_idle by fastforce
    moreover have "0 < (case supp n of None \<Rightarrow> buf_size | Some m \<Rightarrow> m)"
      using assms(2) assms(3) [of n] by (cases "supp n") auto
    ultimately have "o1 \<noteq> []" using encode_progress [OF _ _ enc] False by blast
    then have "length (pending e1) < length (pending e)" using ex by (metis length_append
          length_greater_0_conv less_add_same_cancel2)
    then have "length (pending e1) < n" using Suc.prems(2) by simp
    then obtain e2 where "drain k buf_size supp n e1 = (pending e1, e2)"
        "e_in_progress e2 = None" "enc_inv e2"
      using Suc.IH ex by blast
    then show ?thesis using enc ex by auto
  qed
qed

lemma drain_spec:
  "enc_inv e \<Longrightarrow> drain k buf_size supp n e = (out, e') \<Longrightarrow> enc_inv e' \<and> out @ pending e' = pending e"
proof (induction n arbitrary: e out e')
  case 0
  then show ?case by simp
next
  case (Suc n)
  obtain o1 e1 where enc: "encode k buf_size (supp n) e = (o1, e1)" by fastforce
  obtain o2 e2 where dr: "drain k buf_size supp n e1 = (o2, e2)" by fastforce
  show ?case
    using Suc.prems enc dr encode_spec [OF Suc.prems(1) enc] Suc.IH [OF _ dr] by (metis append_assoc drain.simps(2)
      old.prod.case prod.inject)
qed

text \<open>C5. Encoding loses, adds and reorders nothing: after a message is loaded and \<^verbatim>\<open>encode\<close> is called
  any number of times, with its own buffer or with buffers of any sizes, the bytes handed out so far
  followed by the bytes still pending are exactly the frame of the message.\<close>

theorem encode_exact:
  assumes "enc_inv e" and "load_msg k m e = Some e1" and "drain k buf_size supp n e1 = (out, e')"
  shows "enc_inv e' \<and> out @ pending e' = frame k m"
  using load_msg_pending [OF assms(1,2)] drain_spec [OF _ assms(3)] by simp

text \<open>A three-byte message with the more flag, in a four-byte buffer.\<close>

definition sample_msg :: msg where
  "sample_msg = \<lparr>m_type = Type_vsm, m_flags = 1, m_data = [7, 8, 9]\<rparr>"

definition sample_loaded :: encoder where
  "sample_loaded = \<lparr>e_write = [1, 3], e_next = Size_ready, e_new_msg_flag = False,
     e_in_progress = Some sample_msg\<rparr>"

lemma sample_load: "load_msg V2_encoder sample_msg new_encoder = Some sample_loaded"
  by code_simp

theorem encode_exact_witness:
  "\<exists>e'. drain V2_encoder 4 (\<lambda>_. None) 1 sample_loaded = ([1, 3, 7, 8], e') \<and>
     [1, 3, 7, 8] @ pending e' = frame V2_encoder sample_msg"
proof -
  have dr: "drain V2_encoder 4 (\<lambda>_. None) 1 sample_loaded =
      ([1, 3, 7, 8], \<lparr>e_write = [9], e_next = Message_ready, e_new_msg_flag = True,
        e_in_progress = Some sample_msg\<rparr>)"
    by code_simp
  show ?thesis using encode_exact [OF enc_inv_new sample_load dr] dr by blast
qed

text \<open>C6. A loaded message is written completely: with buffers of at least one byte (own buffer
  or supplied, of sizes that may change from call to call), one call more than the frame has bytes
  is enough to obtain the whole frame, byte for byte, and leaves the encoder ready for the next
  message.\<close>

theorem encode_drains_frame:
  assumes "enc_inv e" and "load_msg k m e = Some e1" and "0 < buf_size" and "\<And>i. supp i \<noteq> Some 0"
  shows "\<exists>e'. drain k buf_size supp (Suc (length (frame k m))) e1 = (frame k m, e') \<and> is_empty e' \<and> enc_inv e'"
  using load_msg_pending [OF assms(1,2)] drain_complete [of e1 buf_size supp _ k] assms(3,4)
  by (metis is_empty_def lessI)

theorem encode_drains_frame_witness:
  "\<exists>e'. drain V2_encoder 4 (\<lambda>_. None) (Suc (length (frame V2_encoder sample_msg))) sample_loaded =
      (frame V2_encoder sample_msg, e') \<and> is_empty e' \<and> enc_inv e'"
  by (rule encode_drains_frame [OF enc_inv_new sample_load]) simp_all

text \<open>The header fits the scratch buffers: 10 bytes in \<^verbatim>\<open>v2_encoder_t\<close>, 9 bytes plus the longest
  command name in \<^verbatim>\<open>v3_1_encoder_t\<close>.\<close>

text \<open>C9. The header an encoder assembles never overruns its \<^verbatim>\<open>m_tmp_buf\<close>: 10 bytes for ZMTP 3.0,
  19 bytes for ZMTP 3.1.\<close>

theorem header_fits_tmp_buf:
  "length (v2_header m) \<le> 10 \<and> length (v3_1_header m) \<le> 9 + sub_cmd_name_size"
  by (auto simp: v2_header_def v3_1_header_def Let_def sub_cmd_name_size_def
      cancel_cmd_name_size_def)

end
