(* ===== verification/Decoder.thy ===== *)
theory Decoder
  imports Encoder
begin

text \<open>
  The ZMTP frame decoder: the buffer loop of \<^verbatim>\<open>src/src/protocol/decoder.hpp\<close> and the state machine
  actions of \<^verbatim>\<open>v2_decoder.cpp\<close>, and the receive loop of \<^verbatim>\<open>stream_engine_base.cpp\<close> that drives it.
  The destination \<^verbatim>\<open>m_read_pos\<close> of the bytes being read (the scratch buffer \<^verbatim>\<open>m_tmpbuf\<close> or the
  payload of \<^verbatim>\<open>m_in_progress\<close>) is the list \<open>d_got\<close> of the bytes stored there since the last
  \<^verbatim>\<open>next_step\<close>. The position of the input in the receive arena matters for the storage of the
  payload only; it appears as \<open>room\<close>, the bytes left in the arena after the current position.
\<close>

datatype dec_step = Flags_ready | One_byte_size_ready | Eight_byte_size_ready | Msg_ready

datatype dec_rc = Need_data | Have_msg | Dec_error errno

record dec_cfg =
  max_msg_size :: int
  zero_copy :: bool
  malloc_ok :: "nat \<Rightarrow> bool"

record decoder =
  d_next :: dec_step
  d_to_read :: nat
  d_got :: bytes
  d_msg_flags :: byte
  d_msg :: msg

definition new_decoder :: decoder where
  "new_decoder = \<lparr>d_next = Flags_ready, d_to_read = 1, d_got = [], d_msg_flags = 0, d_msg = msg_init\<rparr>"

definition dec_next_step :: "nat \<Rightarrow> dec_step \<Rightarrow> decoder \<Rightarrow> decoder" where
  "dec_next_step n s d = d\<lparr>d_next := s, d_to_read := n, d_got := []\<rparr>"

definition flags_ready :: "decoder \<Rightarrow> decoder" where
  "flags_ready d =
     (let b = d_got d ! 0;
          fl = (if b AND more_flag \<noteq> 0 then flag_more else 0) OR
               (if b AND command_flag \<noteq> 0 then flag_command else 0);
          d1 = d\<lparr>d_msg_flags := fl\<rparr>
      in if b AND large_flag \<noteq> 0 then dec_next_step 8 Eight_byte_size_ready d1
         else dec_next_step 1 One_byte_size_ready d1)"

text \<open>Storage of a new payload of \<open>n\<close> bytes: a block of its own when it does not fit what is left of
  the arena (or zero copy is off), otherwise the arena itself (small payloads are copied).\<close>

definition payload_type :: "dec_cfg \<Rightarrow> nat \<Rightarrow> nat \<Rightarrow> errno + msg_type" where
  "payload_type cfg room n =
     (if \<not> zero_copy cfg \<or> n > room
      then if n \<le> max_vsm_size then Inr Type_vsm
           else if sizeof_content_t + n < 2 ^ 64 \<and> malloc_ok cfg (sizeof_content_t + n)
           then Inr Type_lmsg else Inl ENOMEM
      else if n < max_vsm_size then Inr Type_vsm else Inr Type_zclmsg)"

definition size_ready :: "dec_cfg \<Rightarrow> nat \<Rightarrow> u64 \<Rightarrow> decoder \<Rightarrow> decoder \<times> dec_rc" where
  "size_ready cfg room sz d =
     (if max_msg_size cfg \<ge> 0 \<and> int (unat sz) > max_msg_size cfg then (d, Dec_error EMSGSIZE)
      else if (ucast (ucast sz :: u64) :: u64) \<noteq> sz then (d, Dec_error EMSGSIZE)
      else case payload_type cfg room (unat sz) of
             Inl e \<Rightarrow> (d\<lparr>d_msg := msg_init\<rparr>, Dec_error e)
           | Inr t \<Rightarrow>
               (dec_next_step (unat sz) Msg_ready
                  (d\<lparr>d_msg := \<lparr>m_type = t, m_flags = d_msg_flags d, m_data = []\<rparr>\<rparr>), Need_data))"

definition message_ready :: "decoder \<Rightarrow> decoder" where
  "message_ready d =
     dec_next_step 1 Flags_ready (d\<lparr>d_msg := (d_msg d)\<lparr>m_data := d_got d\<rparr>\<rparr>)"

fun dec_action :: "dec_cfg \<Rightarrow> nat \<Rightarrow> dec_step \<Rightarrow> decoder \<Rightarrow> decoder \<times> dec_rc" where
  "dec_action cfg room Flags_ready d = (flags_ready d, Need_data)"
| "dec_action cfg room One_byte_size_ready d = size_ready cfg room (ucast (d_got d ! 0)) d"
| "dec_action cfg room Eight_byte_size_ready d = size_ready cfg room (get_uint64 (d_got d)) d"
| "dec_action cfg room Msg_ready d = (message_ready d, Have_msg)"

text \<open>The inner loop: run actions while nothing is left to read for the current one.\<close>

function dec_steps :: "dec_cfg \<Rightarrow> nat \<Rightarrow> decoder \<Rightarrow> decoder \<times> dec_rc" where
  "dec_steps cfg room d =
     (if d_to_read d \<noteq> 0 then (d, Need_data)
      else case dec_action cfg room (d_next d) d of
             (d', Need_data) \<Rightarrow> dec_steps cfg room d'
           | (d', rc) \<Rightarrow> (d', rc))"
  by pat_completeness auto

fun dec_rank :: "dec_step \<Rightarrow> nat" where
  "dec_rank Flags_ready = 1"
| "dec_rank One_byte_size_ready = 2"
| "dec_rank Eight_byte_size_ready = 2"
| "dec_rank Msg_ready = 1"

lemma dec_action_rank:
  "d_to_read d = 0 \<Longrightarrow> (d', Need_data) = dec_action cfg room (d_next d) d \<Longrightarrow> d_to_read d' = 0
    \<Longrightarrow> dec_rank (d_next d') < dec_rank (d_next d)"
  by (cases "d_next d")
    (auto simp: flags_ready_def size_ready_def dec_next_step_def Let_def split: if_splits sum.splits)

lemma dec_rank_pos: "0 < dec_rank s"
  by (cases s) auto

termination dec_steps
  by (relation "measure (\<lambda>(cfg, room, d). if d_to_read d \<noteq> 0 then 0 else dec_rank (d_next d))")
    (auto simp: dec_action_rank dec_rank_pos)

declare dec_steps.simps [simp del]

text \<open>The copying loop of \<^verbatim>\<open>decode\<close>; \<open>used\<close> is \<^verbatim>\<open>bytes_used\<close> and \<open>inp\<close> what is left of the input.\<close>

definition dec_store :: "nat \<Rightarrow> bytes \<Rightarrow> decoder \<Rightarrow> decoder" where
  "dec_store n inp d = d\<lparr>d_got := d_got d @ take n inp, d_to_read := d_to_read d - n\<rparr>"

function dec_loop :: "dec_cfg \<Rightarrow> nat \<Rightarrow> bytes \<Rightarrow> nat \<Rightarrow> decoder \<Rightarrow> decoder \<times> dec_rc \<times> nat" where
  "dec_loop cfg room inp used d =
     (if inp = [] then (d, Need_data, used)
      else let to_copy = min (d_to_read d) (length inp) in
        case dec_steps cfg (room - to_copy) (dec_store to_copy inp d) of
          (d', Need_data) \<Rightarrow> dec_loop cfg (room - to_copy) (drop to_copy inp) (used + to_copy) d'
        | (d', rc) \<Rightarrow> (d', rc, used + to_copy))"
  by pat_completeness auto

lemma dec_steps_Need_data: "dec_steps cfg room d = (d', Need_data) \<Longrightarrow> d_to_read d' \<noteq> 0"
proof (induction cfg room d rule: dec_steps.induct)
  case (1 cfg room d)
  then show ?case
    by (subst (asm) dec_steps.simps) (auto split: if_splits prod.splits dec_rc.splits)
qed

termination dec_loop
  by (relation "measures [\<lambda>(cfg, room, inp, used, d). length inp,
      \<lambda>(cfg, room, inp, used, d). if d_to_read d = 0 then 1 else 0]")
    (auto dest!: sym [of _ "dec_steps _ _ _"] sym [of "(_, _)" "dec_steps _ _ _"] dec_steps_Need_data)

declare dec_loop.simps [simp del]

text \<open>\<^verbatim>\<open>decode\<close>: when the caller read straight into the destination (\<^verbatim>\<open>data == m_read_pos\<close>, here
  \<open>direct\<close>) only the counters move.\<close>

definition decode :: "dec_cfg \<Rightarrow> bool \<Rightarrow> nat \<Rightarrow> bytes \<Rightarrow> decoder \<Rightarrow> (decoder \<times> dec_rc \<times> nat) option" where
  "decode cfg direct room inp d =
     (if direct
      then slk_assert (length inp \<le> d_to_read d)
        (let (d', rc) = dec_steps cfg (room - length inp) (dec_store (length inp) inp d)
         in Some (d', rc, length inp))
      else Some (dec_loop cfg room inp 0 d))"

text \<open>\<^verbatim>\<open>get_buffer\<close>: where and how much to read next; \<open>asz\<close> is the size of the receive arena.\<close>

definition get_buffer :: "nat \<Rightarrow> decoder \<Rightarrow> bool \<times> nat" where
  "get_buffer asz d = (if d_to_read d \<ge> asz then (True, d_to_read d) else (False, asz))"

section \<open>The decoding loop one byte at a time\<close>

definition dec_byte :: "dec_cfg \<Rightarrow> nat \<Rightarrow> byte \<Rightarrow> decoder \<Rightarrow> decoder \<times> dec_rc" where
  "dec_byte cfg room b d = dec_steps cfg room (dec_store 1 [b] d)"

lemma dec_steps_idle [simp]: "d_to_read d \<noteq> 0 \<Longrightarrow> dec_steps cfg room d = (d, Need_data)"
  by (subst dec_steps.simps) simp

lemma dec_store_simps [simp]:
  "d_to_read (dec_store n inp d) = d_to_read d - n"
  "d_next (dec_store n inp d) = d_next d"
  "d_got (dec_store n inp d) = d_got d @ take n inp"
  by (simp_all add: dec_store_def)

lemma dec_store_Cons: "dec_store (Suc n) (b # bs) d = dec_store n bs (dec_store 1 [b] d)"
  by (simp add: dec_store_def)

lemma dec_loop_Nil [simp]: "dec_loop cfg room [] used d = (d, Need_data, used)"
  by (subst dec_loop.simps) simp

lemma dec_loop_Cons:
  assumes "d_to_read d \<noteq> 0"
  shows "dec_loop cfg room (b # bs) used d =
    (case dec_byte cfg (room - 1) b d of
       (d', Need_data) \<Rightarrow> dec_loop cfg (room - 1) bs (used + 1) d'
     | (d', rc) \<Rightarrow> (d', rc, used + 1))"
proof (cases "d_to_read d = 1 \<or> bs = []")
  case True
  then have "min (d_to_read d) (length (b # bs)) = 1" using assms by auto
  moreover have "dec_store 1 (b # bs) d = dec_store 1 [b] d" by (simp add: dec_store_def)
  ultimately show ?thesis
    unfolding dec_byte_def by (subst dec_loop.simps) (simp only: Let_def list.simps if_False drop_Suc_Cons One_nat_def drop_0)
next
  case False
  define n where "n = min (d_to_read d - 1) (length bs)"
  have n: "min (d_to_read d) (Suc (length bs)) = Suc n" "min (d_to_read d - Suc 0) (length bs) = n"
    and nz: "d_to_read d - 1 \<noteq> 0"
    using assms False by (auto simp: n_def)
  define d1 where "d1 = dec_store 1 [b] d"
  have byte: "dec_byte cfg (room - 1) b d = (d1, Need_data)" and d1: "d_to_read d1 = d_to_read d - 1"
    using nz by (simp_all add: dec_byte_def d1_def)
  have store: "dec_store (Suc n) (b # bs) d = dec_store n bs d1"
    unfolding d1_def by (rule dec_store_Cons)
  have "dec_loop cfg room (b # bs) used d = dec_loop cfg (room - 1) bs (used + 1) d1"
    using False unfolding dec_loop.simps [of cfg room "b # bs"] dec_loop.simps [of cfg "room - 1" bs]
    by (simp add: n store d1 Let_def)
  then show ?thesis using byte by simp
qed

lemma dec_byte_Need_data: "dec_byte cfg room b d = (d', Need_data) \<Longrightarrow> d_to_read d' \<noteq> 0"
  unfolding dec_byte_def by (rule dec_steps_Need_data)

text \<open>Splitting the input changes nothing: decoding \<open>a @ b\<close> is decoding \<open>a\<close>, then \<open>b\<close>.\<close>

lemma dec_loop_append:
  "d_to_read d \<noteq> 0 \<Longrightarrow> dec_loop cfg room (a @ b) used d =
    (case dec_loop cfg room a used d of
       (d', Need_data, u) \<Rightarrow> dec_loop cfg (room - length a) b u d'
     | r \<Rightarrow> r)"
proof (induction a arbitrary: room used d)
  case Nil
  then show ?case by simp
next
  case (Cons x a)
  obtain d' rc where step: "dec_byte cfg (room - 1) x d = (d', rc)" by fastforce
  have room: "room - 1 - length a = room - length (x # a)" by simp
  show ?case
    using Cons.prems step dec_byte_Need_data [of cfg "room - 1" x d d'] Cons.IH [of d' "room - 1" "used + 1", unfolded room]
    by (cases rc) (simp_all add: dec_loop_Cons)
qed

lemma dec_loop_used:
  "dec_loop cfg room inp used d = (d', rc, u) \<Longrightarrow>
    used \<le> u \<and> u \<le> used + length inp \<and> (rc = Need_data \<longrightarrow> u = used + length inp)"
proof (induction cfg room inp used d rule: dec_loop.induct)
  case (1 cfg room inp used d)
  define n where "n = min (d_to_read d) (length inp)"
  obtain d1 rc1 where st: "dec_steps cfg (room - n) (dec_store n inp d) = (d1, rc1)" by fastforce
  have n: "n \<le> length inp" by (simp add: n_def)
  show ?case
  proof (cases "inp = []")
    case True
    then show ?thesis using "1.prems" by simp
  next
    case False
    have "dec_loop cfg room inp used d =
        (if rc1 = Need_data then dec_loop cfg (room - n) (drop n inp) (used + n) d1
         else (d1, rc1, used + n))"
      using False st by (subst dec_loop.simps) (cases rc1; simp add: Let_def n_def [symmetric])
    then show ?thesis
      using "1.prems" n "1.IH" [OF False n_def st [symmetric]] by (cases rc1) auto
  qed
qed

lemma dec_steps_Have_msg:
  "dec_steps cfg room d = (d', Have_msg) \<Longrightarrow> d_next d' = Flags_ready \<and> d_to_read d' = 1 \<and> d_got d' = []"
proof (induction cfg room d rule: dec_steps.induct)
  case (1 cfg room d)
  have "dec_action cfg room s d = (d', Have_msg) \<Longrightarrow>
      d_next d' = Flags_ready \<and> d_to_read d' = 1 \<and> d_got d' = []" for s
    by (cases s) (auto simp: message_ready_def dec_next_step_def size_ready_def
        split: if_splits sum.splits)
  moreover obtain d1 rc1 where act: "dec_action cfg room (d_next d) d = (d1, rc1)" by fastforce
  moreover have zero: "d_to_read d = 0"
    using "1.prems" by (cases "d_to_read d = 0") simp_all
  moreover have "dec_steps cfg room d = (if rc1 = Need_data then dec_steps cfg room d1 else (d1, rc1))"
    using act zero by (subst dec_steps.simps) (cases rc1; simp)
  ultimately show ?case
    using "1.prems" "1.IH" [of d1 rc1] by (cases rc1) simp_all
qed

end
