(* ===== verification/Codec.thy ===== *)
theory Codec
  imports Decoder
begin

text \<open>
  The receive loop of \<^verbatim>\<open>stream_engine_base_t::handle_read\<close> over the decoder, and what the encoders and
  the decoder promise together: a stream of frames, cut anywhere by the transport, comes out as the
  messages that were sent. The interface is the locale \<open>frame_format\<close>; the ZMTP 2.0 and 3.1 encoders
  are its two instances.
\<close>

section \<open>The receive loop\<close>

text \<open>\<open>process\<close> stands for \<^verbatim>\<open>*_process_msg\<close>: it may fail with an error. The result is the decoder, the
  state of \<open>process\<close>, the error that ended the loop and the unprocessed input.\<close>

function read_loop :: "dec_cfg \<Rightarrow> (msg \<Rightarrow> 's \<Rightarrow> errno option \<times> 's) \<Rightarrow> bool \<Rightarrow> nat \<Rightarrow> bytes \<Rightarrow> decoder \<Rightarrow> 's
    \<Rightarrow> (decoder \<times> 's \<times> errno option \<times> bytes) option" where
  "read_loop cfg process direct room inp d s =
     (if inp = [] then Some (d, s, None, [])
      else case decode cfg direct room inp d of
        None \<Rightarrow> None
      | Some (d', Need_data, processed) \<Rightarrow> Some (d', s, None, drop processed inp)
      | Some (d', Dec_error e, processed) \<Rightarrow> Some (d', s, Some e, drop processed inp)
      | Some (d', Have_msg, processed) \<Rightarrow>
          slk_assert (processed \<le> length inp)
            (case process (d_msg d') s of
               (Some e, s') \<Rightarrow> Some (d', s', Some e, drop processed inp)
             | (None, s') \<Rightarrow> read_loop cfg process False (room - processed) (drop processed inp) d' s'))"
  by pat_completeness auto

lemma dec_loop_Have_msg:
  "dec_loop cfg room inp used d = (d', Have_msg, u) \<Longrightarrow>
    d_next d' = Flags_ready \<and> d_to_read d' = 1 \<and> d_got d' = [] \<and> (d_to_read d \<noteq> 0 \<longrightarrow> used < u)"
proof (induction cfg room inp used d rule: dec_loop.induct)
  case (1 cfg room inp used d)
  define n where "n = min (d_to_read d) (length inp)"
  obtain d1 rc1 where st: "dec_steps cfg (room - n) (dec_store n inp d) = (d1, rc1)" by fastforce
  have ne: "inp \<noteq> []" using "1.prems" by auto
  then have npos: "d_to_read d \<noteq> 0 \<longrightarrow> 0 < n" by (auto simp: n_def)
  have "dec_loop cfg room inp used d =
      (if rc1 = Need_data then dec_loop cfg (room - n) (drop n inp) (used + n) d1
       else (d1, rc1, used + n))"
    using ne st by (subst dec_loop.simps) (cases rc1; simp add: Let_def n_def [symmetric])
  then show ?case
    using "1.prems" npos st dec_steps_Have_msg [of cfg "room - n" "dec_store n inp d" d1]
      dec_steps_Need_data [of cfg "room - n" "dec_store n inp d" d1] "1.IH" [OF ne n_def st [symmetric]] by (cases rc1) auto
qed

lemma decode_Have_msg:
  assumes "decode cfg direct room inp d = Some (d', Have_msg, u)"
  shows "d_next d' = Flags_ready \<and> d_to_read d' = 1 \<and> d_got d' = [] \<and>
    (inp \<noteq> [] \<longrightarrow> d_to_read d \<noteq> 0 \<longrightarrow> 0 < u) \<and> u \<le> length inp"
proof (cases direct)
  case True
  then show ?thesis
    using assms dec_steps_Have_msg [of cfg "room - length inp" "dec_store (length inp) inp d" d']
    by (auto simp: decode_def split: if_splits prod.splits)
next
  case False
  then show ?thesis
    using assms dec_loop_Have_msg [of cfg room inp 0 d d' u] dec_loop_used [of cfg room inp 0 d d' Have_msg u]
    by (auto simp: decode_def)
qed

termination read_loop
  by (relation "measures [\<lambda>(cfg, process, direct, room, inp, d, s). length inp,
      \<lambda>(cfg, process, direct, room, inp, d, s). if d_to_read d = 0 then 1 else 0]")
    (auto dest!: decode_Have_msg)

declare read_loop.simps [simp del]

text \<open>A connection's input: the transport delivers the stream \<open>inp\<close> in pieces, the \<open>i\<close>-th read of at
  most \<open>ks ! i + 1\<close> bytes, into the buffer \<^verbatim>\<open>get_buffer\<close> hands out (\<open>asz\<close> is the arena size).\<close>

fun recv_stream :: "dec_cfg \<Rightarrow> nat \<Rightarrow> (msg \<Rightarrow> 's \<Rightarrow> errno option \<times> 's) \<Rightarrow> nat list \<Rightarrow> bytes \<Rightarrow> decoder \<Rightarrow> 's
    \<Rightarrow> (decoder \<times> 's \<times> errno option \<times> bytes) option" where
  "recv_stream cfg asz process [] inp d s = Some (d, s, None, inp)"
| "recv_stream cfg asz process (k # ks) inp d s =
     (let (direct, sz) = get_buffer asz d; n = min (Suc k) (min sz (length inp)) in
      case read_loop cfg process direct asz (take n inp) d s of
        None \<Rightarrow> None
      | Some (d', s', Some e, rest) \<Rightarrow> Some (d', s', Some e, rest @ drop n inp)
      | Some (d', s', None, rest) \<Rightarrow> recv_stream cfg asz process ks (drop n inp) d' s')"

section \<open>Reading one frame\<close>

text \<open>\<open>reads cfg d bs p\<close>: from the state \<open>d\<close> the bytes \<open>bs\<close>, however they are cut and wherever they lie
  in the arena, complete exactly one message, at the last byte, with the flags and payload \<open>p\<close>, and
  leave the decoder ready for the next frame.\<close>

definition dec_ready :: "decoder \<Rightarrow> bool" where
  "dec_ready d \<longleftrightarrow> d_next d = Flags_ready \<and> d_to_read d = 1 \<and> d_got d = []"

definition content :: "msg \<Rightarrow> byte \<times> bytes" where
  "content m = (m_flags m, m_data m)"

fun reads :: "dec_cfg \<Rightarrow> decoder \<Rightarrow> bytes \<Rightarrow> byte \<times> bytes \<Rightarrow> bool" where
  "reads cfg d [] p = False"
| "reads cfg d (b # bs) p \<longleftrightarrow> d_to_read d \<noteq> 0 \<and>
     (\<forall>room. case dec_byte cfg room b d of
        (d', Need_data) \<Rightarrow> reads cfg d' bs p
      | (d', Have_msg) \<Rightarrow> bs = [] \<and> content (d_msg d') = p
      | (d', Dec_error e) \<Rightarrow> False)"

lemma reads_to_read: "reads cfg d bs p \<Longrightarrow> d_to_read d \<noteq> 0"
  by (cases bs) auto

lemma reads_ConsD:
  "reads cfg d (b # bs) p \<Longrightarrow> dec_byte cfg room b d = (d', rc) \<Longrightarrow>
    rc = Need_data \<and> reads cfg d' bs p \<or> rc = Have_msg \<and> bs = [] \<and> content (d_msg d') = p"
  by (cases rc) (auto dest!: spec [of _ room])

lemma reads_prefix:
  "reads cfg d (a @ b) p \<Longrightarrow> b \<noteq> [] \<Longrightarrow>
    \<exists>d'. dec_loop cfg room a used d = (d', Need_data, used + length a) \<and> reads cfg d' b p"
proof (induction a arbitrary: d room used)
  case Nil
  then show ?case by simp
next
  case (Cons x a)
  obtain d' rc where step: "dec_byte cfg (room - 1) x d = (d', rc)" by fastforce
  have nz: "d_to_read d \<noteq> 0" using Cons.prems(1) by (rule reads_to_read)
  have "rc = Need_data" "reads cfg d' (a @ b) p"
    using reads_ConsD [OF Cons.prems(1) [unfolded append_Cons] step] Cons.prems(2) by auto
  then show ?case
    using Cons.IH [of d' "room - 1" "used + 1"] Cons.prems(2) nz step by (simp add: dec_loop_Cons)
qed

lemma reads_complete:
  "reads cfg d a p \<Longrightarrow> \<exists>d'. dec_loop cfg room (a @ c) used d = (d', Have_msg, used + length a) \<and>
    dec_ready d' \<and> content (d_msg d') = p"
proof (induction a arbitrary: d room used)
  case Nil
  then show ?case by simp
next
  case (Cons x a)
  obtain d' rc where step: "dec_byte cfg (room - 1) x d = (d', rc)" by fastforce
  have nz: "d_to_read d \<noteq> 0" using Cons.prems by (rule reads_to_read)
  note spec = reads_ConsD [OF Cons.prems step]
  show ?case
  proof (cases rc)
    case Need_data
    then show ?thesis
      using spec nz step Cons.IH [of d' "room - 1" "used + 1"] by (simp add: dec_loop_Cons)
  next
    case Have_msg
    then have "dec_ready d'"
      using step dec_steps_Have_msg unfolding dec_byte_def dec_ready_def by blast
    then show ?thesis
      using Have_msg spec nz step by (simp add: dec_loop_Cons)
  next
    case (Dec_error e)
    then show ?thesis using spec by simp
  qed
qed

text \<open>A block of bytes that fills the current destination.\<close>

definition dec_filled :: "bytes \<Rightarrow> decoder \<Rightarrow> decoder" where
  "dec_filled xs d = d\<lparr>d_got := d_got d @ xs, d_to_read := 0\<rparr>"

lemma reads_fill:
  assumes "xs \<noteq> []" "d_to_read d = length xs"
    and "\<And>room. case dec_steps cfg room (dec_filled xs d) of
        (d', Need_data) \<Rightarrow> reads cfg d' ys p
      | (d', Have_msg) \<Rightarrow> ys = [] \<and> content (d_msg d') = p
      | (d', Dec_error e) \<Rightarrow> False"
  shows "reads cfg d (xs @ ys) p"
  using assms
proof (induction xs arbitrary: d)
  case Nil
  then show ?case by simp
next
  case (Cons x xs)
  show ?case
  proof (cases "xs = []")
    case True
    then have "dec_store 1 [x] d = dec_filled (x # xs) d"
      using Cons.prems(2) by (simp add: dec_store_def dec_filled_def)
    then have "dec_byte cfg room x d = dec_steps cfg room (dec_filled (x # xs) d)" for room
      by (simp add: dec_byte_def)
    then show ?thesis using True Cons.prems(2,3) by simp
  next
    case False
    define d1 where "d1 = dec_store 1 [x] d"
    have byte: "dec_byte cfg room x d = (d1, Need_data)" for room
      using False Cons.prems(2) by (simp add: dec_byte_def d1_def)
    have "dec_filled xs d1 = dec_filled (x # xs) d"
      by (simp add: dec_filled_def d1_def dec_store_def)
    then have "reads cfg d1 (xs @ ys) p"
      using Cons.IH [of d1] Cons.prems False by (simp add: d1_def)
    then show ?thesis using byte Cons.prems(2) by simp
  qed
qed

text \<open>The configuration takes a payload of \<open>n\<close> bytes.\<close>

definition accepts :: "dec_cfg \<Rightarrow> nat \<Rightarrow> bool" where
  "accepts cfg n \<longleftrightarrow> (max_msg_size cfg < 0 \<or> int n \<le> max_msg_size cfg) \<and>
     sizeof_content_t + n < 2 ^ 64 \<and> malloc_ok cfg (sizeof_content_t + n)"

definition flags_of :: "byte \<Rightarrow> byte" where
  "flags_of b = (if b AND more_flag \<noteq> 0 then flag_more else 0) OR
     (if b AND command_flag \<noteq> 0 then flag_command else 0)"

lemma size_ready_accepts:
  assumes "accepts cfg (unat sz)"
  shows "\<exists>t. size_ready cfg room sz d =
    (dec_next_step (unat sz) Msg_ready (d\<lparr>d_msg := \<lparr>m_type = t, m_flags = d_msg_flags d, m_data = []\<rparr>\<rparr>), Need_data)"
  using assms by (auto simp: size_ready_def accepts_def payload_type_def)

lemma reads_msg:
  assumes "data \<noteq> []" "d_next d = Msg_ready" "d_to_read d = length data" "d_got d = []"
  shows "reads cfg d data (m_flags (d_msg d), data)"
proof -
  have "dec_steps cfg room (dec_filled data d) = (message_ready (dec_filled data d), Have_msg)" for room
    using assms(2) by (subst dec_steps.simps) (simp add: dec_filled_def)
  then show ?thesis
    using reads_fill [of data d cfg "[]"] assms
    by (simp add: message_ready_def dec_next_step_def dec_filled_def content_def)
qed

lemma steps_size:
  assumes "accepts cfg (unat sz)" "length data = unat sz" "d_to_read d = 0"
    and "dec_action cfg room (d_next d) d = size_ready cfg room sz d"
  shows "case dec_steps cfg room d of
      (d', Need_data) \<Rightarrow> reads cfg d' data (d_msg_flags d, data)
    | (d', Have_msg) \<Rightarrow> data = [] \<and> content (d_msg d') = (d_msg_flags d, data)
    | (d', Dec_error e) \<Rightarrow> False"
proof -
  obtain t where t: "size_ready cfg room sz d = (dec_next_step (unat sz) Msg_ready
      (d\<lparr>d_msg := \<lparr>m_type = t, m_flags = d_msg_flags d, m_data = []\<rparr>\<rparr>), Need_data)" (is "_ = (?d1, _)")
    using size_ready_accepts [OF assms(1)] by blast
  have steps: "dec_steps cfg room d = dec_steps cfg room ?d1"
    using assms(3,4) t by (subst dec_steps.simps) simp
  show ?thesis
  proof (cases "data = []")
    case True
    then have "dec_steps cfg room ?d1 = (message_ready ?d1, Have_msg)"
      using assms(2) by (subst dec_steps.simps) (simp add: dec_next_step_def)
    then show ?thesis
      using True steps by (simp add: message_ready_def dec_next_step_def content_def)
  next
    case False
    then have "reads cfg ?d1 data (m_flags (d_msg ?d1), data)"
      using assms(2) by (intro reads_msg) (simp_all add: dec_next_step_def)
    then show ?thesis
      using steps length_0_conv [of data] False assms(2) by (simp add: dec_next_step_def)
  qed
qed

definition length_field :: "byte \<Rightarrow> nat \<Rightarrow> bytes" where
  "length_field b n = (if b AND large_flag \<noteq> 0 then put_uint64 (of_nat n) else [of_nat n])"

text \<open>Every frame whose large flag agrees with the length field is read back.\<close>

lemma reads_frame:
  assumes d: "dec_ready d" and acc: "accepts cfg (length data)"
    and fits: "b AND large_flag \<noteq> 0 \<or> length data \<le> UCHAR_MAX"
  shows "reads cfg d (b # length_field b (length data) @ data) (flags_of b, data)"
proof -
  define d1 where "d1 = flags_ready (dec_filled [b] d)"
  define sz :: u64 where "sz = of_nat (length data)"
  have sz: "unat sz = length data"
    using acc by (simp add: sz_def accepts_def unat_of_nat_u64)
  have d1: "d_msg_flags d1 = flags_of b" "d_got d1 = []" "d_to_read d1 = length (length_field b (length data))"
    "d_next d1 = (if b AND large_flag \<noteq> 0 then Eight_byte_size_ready else One_byte_size_ready)"
    using d by (auto simp: d1_def flags_ready_def dec_filled_def dec_ready_def dec_next_step_def
        flags_of_def length_field_def Let_def length_put)
  have steps1: "dec_steps cfg room (dec_filled [b] d) = (d1, Need_data)" for room
  proof -
    have "d_to_read d1 \<noteq> 0" by (simp add: d1(3) length_field_def put_uint64_def)
    then show ?thesis
      using d by (subst dec_steps.simps) (simp add: dec_filled_def dec_ready_def d1_def)
  qed
  let ?d2 = "dec_filled (length_field b (length data)) d1"
  have small: "(ucast (of_nat (length data) :: byte) :: u64) = sz" if "\<not> b AND large_flag \<noteq> 0"
    using that fits sz by (simp add: word_unat_eq_iff unat_ucast_byte unat_of_nat_byte UCHAR_MAX_def)
  have act: "dec_action cfg room (d_next ?d2) ?d2 = size_ready cfg room sz ?d2" for room
    using small d1 by (simp add: dec_filled_def length_field_def get_put_uint64 [where r = "[]", simplified] sz_def)
  have d2: "d_to_read ?d2 = 0" "d_msg_flags ?d2 = flags_of b"
    by (simp_all add: dec_filled_def d1)
  have acc': "accepts cfg (unat sz)" using acc sz by simp
  have "reads cfg d1 (length_field b (length data) @ data) (flags_of b, data)"
    using steps_size [OF acc' sz [symmetric] d2(1) act, unfolded d2(2)] d1(3)
    by (intro reads_fill) (simp_all add: length_field_def put_uint64_def)
  then show ?thesis
    using reads_fill [of "[b]" d cfg "length_field b (length data) @ data"] steps1 d
    by (simp add: dec_ready_def)
qed

section \<open>Streams of frames\<close>

text \<open>The receiving side keeps what it is given.\<close>

definition collect :: "msg \<Rightarrow> (byte \<times> bytes) list \<Rightarrow> errno option \<times> (byte \<times> bytes) list" where
  "collect m acc = (None, acc @ [content m])"

text \<open>\<open>stream_reads cfg d bs ps\<close>: the bytes \<open>bs\<close> are the rest of a frame and further frames, and carry
  the contents \<open>ps\<close>.\<close>

inductive stream_reads :: "dec_cfg \<Rightarrow> decoder \<Rightarrow> bytes \<Rightarrow> (byte \<times> bytes) list \<Rightarrow> bool" for cfg where
  stream_done: "dec_ready d \<Longrightarrow> stream_reads cfg d [] []"
| stream_more: "reads cfg d a p \<Longrightarrow> (\<And>d'. dec_ready d' \<Longrightarrow> stream_reads cfg d' bs ps) \<Longrightarrow>
    stream_reads cfg d (a @ bs) (p # ps)"

inductive_cases stream_readsE: "stream_reads cfg d bs ps"

lemma stream_reads_to_read: "stream_reads cfg d bs ps \<Longrightarrow> d_to_read d \<noteq> 0"
  by (erule stream_readsE) (auto simp: dec_ready_def dest: reads_to_read)

lemma decode_direct:
  assumes "inp \<noteq> []" "length inp \<le> d_to_read d"
  shows "decode cfg direct room inp d = Some (dec_loop cfg room inp 0 d)"
proof -
  obtain d' rc where st: "dec_steps cfg (room - length inp) (dec_store (length inp) inp d) = (d', rc)"
    by fastforce
  have "min (d_to_read d) (length inp) = length inp" using assms(2) by simp
  then have "dec_loop cfg room inp 0 d = (d', rc, length inp)"
    using assms(1) st by (subst dec_loop.simps) (cases rc; simp)
  then show ?thesis using assms(2) st by (simp add: decode_def)
qed

lemma read_loop_stream:
  "stream_reads cfg d (a @ b) ps \<Longrightarrow> (direct \<Longrightarrow> length a \<le> d_to_read d) \<Longrightarrow>
    \<exists>d' qs rs. read_loop cfg collect direct room a d acc = Some (d', acc @ qs, None, []) \<and>
      ps = qs @ rs \<and> stream_reads cfg d' b rs"
proof (induction "length a" arbitrary: a d ps room acc direct rule: less_induct)
  case less
  show ?case
  proof (cases "a = []")
    case True
    then show ?thesis using less.prems(1) by (subst read_loop.simps) auto
  next
    case False
    have dec: "decode cfg direct room a d = Some (dec_loop cfg room a 0 d)"
      using less.prems(2) False decode_direct [of a d cfg direct room]
      by (cases direct) (simp_all add: decode_def)
    obtain f p bs ps' where split: "a @ b = f @ bs" "ps = p # ps'" and f: "reads cfg d f p"
      and more: "\<And>d'. dec_ready d' \<Longrightarrow> stream_reads cfg d' bs ps'"
      using less.prems(1) False by (auto elim: stream_readsE)
    have fne: "f \<noteq> []" using f by (cases f) auto
    show ?thesis
    proof (cases "length a < length f")
      case True
      then obtain f2 where f2: "f = a @ f2" "b = f2 @ bs" "f2 \<noteq> []"
        using split(1) by (auto simp: append_eq_append_conv2)
      then obtain d' where "dec_loop cfg room a 0 d = (d', Need_data, length a)" "reads cfg d' f2 p"
        using reads_prefix [of cfg d a f2 p room 0] f by auto
      then show ?thesis
        using False dec more f2 split(2) by (subst read_loop.simps) (auto intro: stream_more)
    next
      case notlt: False
      then obtain a2 where a2: "a = f @ a2" "bs = a2 @ b"
        using split(1) by (auto simp: append_eq_append_conv2)
      then obtain d' where d': "dec_loop cfg room a 0 d = (d', Have_msg, length f)"
        "dec_ready d'" "content (d_msg d') = p"
        using reads_complete [OF f, of room a2 0] by auto
      then obtain d2 qs rs where
        "read_loop cfg collect False (room - length f) a2 d' (acc @ [p]) = Some (d2, (acc @ [p]) @ qs, None, [])"
        "ps' = qs @ rs" "stream_reads cfg d2 b rs"
        using less.hyps [of a2 d' ps' False "room - length f" "acc @ [p]"] a2 fne more [OF d'(2)] by auto
      then show ?thesis
        using False dec d' a2 split(2) by (subst read_loop.simps) (auto simp: collect_def)
    qed
  qed
qed

lemma recv_stream_ok:
  "stream_reads cfg d bs ps \<Longrightarrow> 0 < asz \<Longrightarrow> length bs \<le> length ks \<Longrightarrow>
    \<exists>d'. recv_stream cfg asz collect ks bs d acc = Some (d', acc @ ps, None, []) \<and> dec_ready d'"
proof (induction ks arbitrary: bs d ps acc)
  case Nil
  then show ?case by (auto elim: stream_readsE)
next
  case (Cons k ks)
  obtain direct sz where buf: "get_buffer asz d = (direct, sz)" by fastforce
  have sz: "0 < sz" "direct \<Longrightarrow> sz = d_to_read d"
    using buf Cons.prems(2) by (auto simp: get_buffer_def split: if_splits)
  define n where "n = min (Suc k) (min sz (length bs))"
  have n: "direct \<Longrightarrow> length (take n bs) \<le> d_to_read d" using sz(2) by (simp add: n_def)
  obtain d' qs rs where
    "read_loop cfg collect direct asz (take n bs) d acc = Some (d', acc @ qs, None, [])"
    "ps = qs @ rs" "stream_reads cfg d' (drop n bs) rs"
    using read_loop_stream [of cfg d "take n bs" "drop n bs" ps direct asz acc] Cons.prems(1) n by auto
  moreover have "length (drop n bs) \<le> length ks"
    using Cons.prems(3) sz(1) by (auto simp: n_def)
  ultimately show ?case
    using Cons.IH [of d' "drop n bs" rs "acc @ qs"] Cons.prems(2) buf
    by (simp add: n_def [symmetric] Let_def)
qed

section \<open>The interface of a frame format\<close>

locale frame_format =
  fixes fr :: "msg \<Rightarrow> bytes"
    and seen :: "msg \<Rightarrow> byte \<times> bytes"
    and ok :: "dec_cfg \<Rightarrow> msg \<Rightarrow> bool"
  assumes frame_reads: "ok cfg m \<Longrightarrow> dec_ready d \<Longrightarrow> reads cfg d (fr m) (seen m)"
begin

lemma stream:
  "\<forall>m\<in>set ms. ok cfg m \<Longrightarrow> dec_ready d \<Longrightarrow> stream_reads cfg d (concat (map fr ms)) (map seen ms)"
  by (induction ms arbitrary: d) (auto intro: stream_reads.intros frame_reads)

lemma recv:
  assumes "\<forall>m\<in>set ms. ok cfg m" "dec_ready d" "0 < asz" "length (concat (map fr ms)) \<le> length ks"
  shows "\<exists>d'. recv_stream cfg asz collect ks (concat (map fr ms)) d [] =
    Some (d', map seen ms, None, []) \<and> dec_ready d'"
  using recv_stream_ok [OF stream [OF assms(1,2)] assms(3,4), of "[]"] by simp

end

text \<open>What the peer sees of a message sent in a ZMTP 2.0/3.0 frame: the subscribe or cancel byte is
  part of the payload.\<close>

definition wire_flags :: "bool \<Rightarrow> bool \<Rightarrow> byte" where
  "wire_flags mo cmd = (if mo then flag_more else 0) OR (if cmd then flag_command else 0)"

definition v2_seen :: "msg \<Rightarrow> byte \<times> bytes" where
  "v2_seen m = (wire_flags (is_more m) (has_flag flag_command m),
     (if is_subscribe m then [1] else if is_cancel m then [0] else []) @ m_data m)"

definition v3_1_seen :: "msg \<Rightarrow> byte \<times> bytes" where
  "v3_1_seen m =
     (wire_flags (is_more m) (has_flag flag_command m \<or> is_subscribe m \<or> is_cancel m),
      (if is_subscribe m then sub_cmd_name else if is_cancel m then cancel_cmd_name else []) @ m_data m)"

definition v2_ok :: "dec_cfg \<Rightarrow> msg \<Rightarrow> bool" where
  "v2_ok cfg m \<longleftrightarrow> accepts cfg (length (snd (v2_seen m))) \<and>
     \<not> ((is_subscribe m \<or> is_cancel m) \<and> length (m_data m) = UCHAR_MAX)"

definition v3_1_ok :: "dec_cfg \<Rightarrow> msg \<Rightarrow> bool" where
  "v3_1_ok cfg m \<longleftrightarrow> accepts cfg (length (snd (v3_1_seen m)))"

lemma flag_bits:
  "flags_of ((if a then more_flag else 0) OR (if l then large_flag else 0) OR (if c then command_flag else 0))
    = wire_flags a c"
  "((if a then more_flag else 0) OR (if l then large_flag else 0) OR (if c then command_flag else 0))
    AND large_flag \<noteq> 0 \<longleftrightarrow> l"
  by (cases a; cases l; cases c;
      simp add: flags_of_def wire_flags_def more_flag_def large_flag_def command_flag_def flag_defs)+

lemma v2_frame_eq:
  assumes "\<not> ((is_subscribe m \<or> is_cancel m) \<and> length (m_data m) = UCHAR_MAX)"
  shows "\<exists>b. frame V2_encoder m = b # length_field b (length (snd (v2_seen m))) @ snd (v2_seen m) \<and>
    flags_of b = fst (v2_seen m) \<and> (b AND large_flag \<noteq> 0 \<or> length (snd (v2_seen m)) \<le> UCHAR_MAX)"
proof -
  let ?l = "length (m_data m) > UCHAR_MAX"
  define b where "b = (if is_more m then more_flag else 0) OR (if ?l then large_flag else 0) OR
    (if has_flag flag_command m then command_flag else 0)"
  have b: "flags_of b = fst (v2_seen m)" "b AND large_flag \<noteq> 0 \<longleftrightarrow> ?l"
    unfolding b_def flag_bits by (simp_all add: v2_seen_def)
  then show ?thesis
    using assms subscribe_not_cancel [of m]
    by (intro exI [of _ b]) (auto simp: v2_header_def Let_def b_def [symmetric] length_field_def v2_seen_def)
qed

lemma v3_1_frame_eq:
  "\<exists>b. frame V3_1_encoder m = b # length_field b (length (snd (v3_1_seen m))) @ snd (v3_1_seen m) \<and>
    flags_of b = fst (v3_1_seen m) \<and> (b AND large_flag \<noteq> 0 \<or> length (snd (v3_1_seen m)) \<le> UCHAR_MAX)"
proof -
  let ?n = "length (snd (v3_1_seen m))"
  define b where "b = (if is_more m then more_flag else 0) OR
    (if ?n > UCHAR_MAX then large_flag else 0) OR
    (if has_flag flag_command m \<or> is_subscribe m \<or> is_cancel m then command_flag else 0)"
  have b: "flags_of b = fst (v3_1_seen m)" "b AND large_flag \<noteq> 0 \<longleftrightarrow> ?n > UCHAR_MAX"
    unfolding b_def flag_bits by (simp_all add: v3_1_seen_def)
  have sz: "(if (has_flag flag_command m \<or> is_subscribe m \<or> is_cancel m) \<and> is_subscribe m
        then length (m_data m) + sub_cmd_name_size
      else if (has_flag flag_command m \<or> is_subscribe m \<or> is_cancel m) \<and> is_cancel m
        then length (m_data m) + cancel_cmd_name_size else length (m_data m)) = ?n"
    by (simp add: v3_1_seen_def length_cmd_names)
  have "frame V3_1_encoder m = b # length_field b ?n @ snd (v3_1_seen m)"
    unfolding frame.simps v3_1_header_def Let_def sz length_field_def b(2)
    by (simp add: b_def v3_1_seen_def or.left_commute or.commute)
  then show ?thesis using b by (metis not_le)
qed

interpretation v2_format: frame_format "frame V2_encoder" v2_seen v2_ok
  by unfold_locales (metis reads_frame v2_frame_eq v2_ok_def prod.collapse)

interpretation v3_1_format: frame_format "frame V3_1_encoder" v3_1_seen v3_1_ok
  by unfold_locales (metis reads_frame v3_1_frame_eq v3_1_ok_def prod.collapse)

end
