(* ===== verification/Engine_IO.thy ===== *)
theory Engine_IO
  imports Codec
begin

text \<open>
  The output side of \<^verbatim>\<open>stream_engine_base_t\<close> (\<^verbatim>\<open>handle_write\<close>, \<^verbatim>\<open>restart_output\<close>): messages pulled from the
  session are batched through the encoder into write buffers. With the receive loop of the theory
  of codecs this gives the end-to-end statement for one connection.
\<close>

section \<open>Batched output\<close>

text \<open>The batching loop. \<open>out\<close> is the batch so far (\<^verbatim>\<open>_outsize\<close> is its length), \<open>null\<close> says that \<^verbatim>\<open>_outpos\<close>
  is still null, \<open>q\<close> the messages \<^verbatim>\<open>_next_msg\<close> will return before it returns -1.\<close>

function batch_loop :: "enc_kind \<Rightarrow> nat \<Rightarrow> bytes \<Rightarrow> bool \<Rightarrow> msg list \<Rightarrow> encoder \<Rightarrow> (bytes \<times> msg list \<times> encoder) option" where
  "batch_loop k batch out null q e =
     (if \<not> length out < batch then Some (out, q, e)
      else if is_empty e \<and> q = [] then Some (out, q, e)
      else case (if is_empty e then map_option (Pair (tl q)) (load_msg k (hd q) e) else Some (q, e)) of
        None \<Rightarrow> None
      | Some (q', e1) \<Rightarrow>
          let (bs, e2) = encode k batch (if null then None else Some (batch - length out)) e1 in
          if \<not> is_empty e2 then Some (out @ bs, q', e2)
          else batch_loop k batch (out @ bs) False q' e2)"
  by pat_completeness auto
termination
  by (relation "measures [\<lambda>(k, batch, out, null, q, e). length q,
      \<lambda>(k, batch, out, null, q, e). if is_empty e then 0 else 1]")
    (auto split: if_splits simp: neq_Nil_conv)

declare batch_loop.simps [simp del]

text \<open>Completed writes: each completion hands the next batch to the transport, until a batch is empty
  and output stops.\<close>

fun write_all :: "enc_kind \<Rightarrow> nat \<Rightarrow> nat \<Rightarrow> msg list \<Rightarrow> encoder \<Rightarrow> (bytes \<times> bool \<times> msg list \<times> encoder) option" where
  "write_all k batch 0 q e = Some ([], False, q, e)"
| "write_all k batch (Suc n) q e =
     (case batch_loop k batch [] True q e of
        None \<Rightarrow> None
      | Some (out, q', e') \<Rightarrow>
          if out = [] then Some ([], True, q', e')
          else map_option (\<lambda>(rest, r). (out @ rest, r)) (write_all k batch n q' e'))"

text \<open>All that a connection has still to send.\<close>

definition unsent :: "enc_kind \<Rightarrow> msg list \<Rightarrow> encoder \<Rightarrow> bytes" where
  "unsent k q e = pending e @ concat (map (frame k) q)"

lemma is_empty_pending: "is_empty e \<Longrightarrow> pending e = []"
  by (simp add: is_empty_def pending_def)

lemma load_msg_empty: "is_empty e \<Longrightarrow> \<exists>e1. load_msg k m e = Some e1"
  by (simp add: load_msg_def is_empty_def)

text \<open>One batch keeps the byte stream, and is empty only when there is nothing left to send.\<close>

lemma batch_loop_spec:
  "enc_inv e \<Longrightarrow> 0 < batch \<Longrightarrow>
    \<exists>out' q' e'. batch_loop k batch out null q e = Some (out', q', e') \<and> enc_inv e' \<and>
      out' @ unsent k q' e' = out @ unsent k q e \<and> (out' = [] \<longrightarrow> q' = [] \<and> is_empty e')"
proof (induction k batch out null q e rule: batch_loop.induct)
  case (1 k batch out null q e)
  show ?case
  proof (cases "length out < batch \<and> \<not> (is_empty e \<and> q = [])")
    case False
    then show ?thesis
      using "1.prems" by (subst batch_loop.simps) auto
  next
    case True
    obtain q1 e1 where pull:
      "(if is_empty e then map_option (Pair (tl q)) (load_msg k (hd q) e) else Some (q, e)) = Some (q1, e1)"
      "enc_inv e1" "\<not> is_empty e1" "unsent k q1 e1 = unsent k q e"
    proof (cases "is_empty e")
      case True
      obtain e1 where "load_msg k (hd q) e = Some e1" using load_msg_empty [OF True] by blast
      then show ?thesis
        using that [of "tl q" e1] load_msg_pending [OF "1.prems"(1)] True is_empty_pending [OF True]
          \<open>length out < batch \<and> \<not> (is_empty e \<and> q = [])\<close>
        by (cases q) (auto simp: unsent_def is_empty_def)
    qed (use that "1.prems" in auto)
    let ?supp = "if null then None else Some (batch - length out)"
    obtain bs e2 where enc: "encode k batch ?supp e1 = (bs, e2)" by fastforce
    have inv2: "enc_inv e2" and str: "bs @ pending e2 = pending e1"
      using encode_spec [OF pull(2) enc] by auto
    have "0 < (case ?supp of None \<Rightarrow> batch | Some n \<Rightarrow> n)" using True "1.prems"(2) by simp
    then have prog: "bs \<noteq> [] \<or> is_empty e2"
      using encode_progress [OF _ _ enc] pull(3) by (simp add: is_empty_def)
    have step: "batch_loop k batch out null q e =
        (if \<not> is_empty e2 then Some (out @ bs, q1, e2) else batch_loop k batch (out @ bs) False q1 e2)"
      using True pull(1) enc by (subst batch_loop.simps) auto
    have uns: "bs @ unsent k q1 e2 = unsent k q e"
      using str pull(4) by (simp add: unsent_def flip: append_assoc)
    show ?thesis
    proof (cases "is_empty e2")
      case False
      then show ?thesis using step inv2 uns prog by auto
    next
      case e2: True
      have "\<exists>out' q' e'. batch_loop k batch (out @ bs) False q1 e2 = Some (out', q', e') \<and> enc_inv e' \<and>
          out' @ unsent k q' e' = (out @ bs) @ unsent k q1 e2 \<and> (out' = [] \<longrightarrow> q' = [] \<and> is_empty e')"
        by (rule "1.IH" [OF _ _ pull(1) refl enc [symmetric] refl]) (use True e2 inv2 "1.prems"(2) in simp_all)
      then show ?thesis
        unfolding step append_assoc uns using e2 by simp
    qed
  qed
qed

lemma write_all_spec:
  "enc_inv e \<Longrightarrow> 0 < batch \<Longrightarrow> length (unsent k q e) < n \<Longrightarrow>
    \<exists>e'. write_all k batch n q e = Some (unsent k q e, True, [], e') \<and> enc_inv e' \<and> is_empty e'"
proof (induction n arbitrary: q e)
  case 0
  then show ?case by simp
next
  case (Suc n)
  obtain out q' e' where b: "batch_loop k batch [] True q e = Some (out, q', e')" "enc_inv e'"
    "out @ unsent k q' e' = unsent k q e" "out = [] \<longrightarrow> q' = [] \<and> is_empty e'"
    using batch_loop_spec [OF Suc.prems(1,2), of k "[]" True q] by auto
  show ?case
  proof (cases "out = []")
    case True
    then have "unsent k q e = []"
      using b(3,4) by (metis append.left_neutral concat.simps(1) is_empty_pending list.map(1) unsent_def)
    then show ?thesis using True b by auto
  next
    case False
    then have "length (unsent k q' e') < length (unsent k q e)"
      using b(3) by (metis length_append length_greater_0_conv less_add_same_cancel2)
    then have "length (unsent k q' e') < n" using Suc.prems(3) by simp
    then obtain e2 where "write_all k batch n q' e' = Some (unsent k q' e', True, [], e2)"
      "enc_inv e2" "is_empty e2"
      using Suc.IH [OF b(2) Suc.prems(2)] by blast
    then show ?thesis using False b by auto
  qed
qed

section \<open>From sender to receiver\<close>

definition fresh_cfg :: dec_cfg where
  "fresh_cfg = \<lparr>max_msg_size = -1, zero_copy = True, malloc_ok = (\<lambda>_. True)\<rparr>"

definition sample_sub :: "bytes \<Rightarrow> msg" where
  "sample_sub topic = projr (init_subscribe (\<lambda>_. True) topic)"

lemma accepts_fresh: "n < 2 ^ 60 \<Longrightarrow> accepts fresh_cfg n"
  by (simp add: accepts_def fresh_cfg_def sizeof_content_t_def)

lemma dec_ready_new: "dec_ready new_decoder"
  by (simp add: dec_ready_def new_decoder_def)

lemma unsent_new: "unsent k ms new_encoder = concat (map (frame k) ms)"
  by (simp add: unsent_def pending_def new_encoder_def)

text \<open>C1. A ZMTP 3.1 connection delivers what is sent: however the sender's batches are cut and
  however the transport splits the byte stream over the receiver's reads (of at least one byte each),
  the receiver hands over exactly the sent messages, in order, each once, with the more and command
  flags and the payload (a subscription or cancellation as its command), and both sides end idle.
  The messages must be acceptable to the receiver (size limit, memory).\<close>

theorem v3_1_connection_delivers:
  assumes "\<forall>m\<in>set ms. v3_1_ok cfg m" and "0 < batch" and "0 < asz"
    and "length (concat (map (frame V3_1_encoder) ms)) < n"
    and "length (concat (map (frame V3_1_encoder) ms)) \<le> length ks"
  shows "\<exists>stream e d. write_all V3_1_encoder batch n ms new_encoder = Some (stream, True, [], e) \<and> is_empty e \<and>
    recv_stream cfg asz collect ks stream new_decoder [] = Some (d, map v3_1_seen ms, None, []) \<and> dec_ready d"
  using write_all_spec [OF enc_inv_new assms(2), of V3_1_encoder ms n] assms(4)
    v3_1_format.recv [OF assms(1) dec_ready_new assms(3,5)]
  unfolding unsent_new by blast

theorem v3_1_connection_delivers_witness:
  "\<exists>stream e d. write_all V3_1_encoder 4 50 [sample_msg, sample_sub [5, 6]] new_encoder
      = Some (stream, True, [], e) \<and> is_empty e \<and>
    recv_stream fresh_cfg 8 collect (replicate 50 2) stream new_decoder [] =
      Some (d, [(1, [7, 8, 9]), (2, sub_cmd_name @ [5, 6])], None, []) \<and> dec_ready d"
proof -
  have "length (snd (v3_1_seen sample_msg)) = 3" "length (snd (v3_1_seen (sample_sub [5, 6]))) = 12"
    by code_simp+
  then have "\<forall>m\<in>set [sample_msg, sample_sub [5, 6]]. v3_1_ok fresh_cfg m"
    by (simp add: v3_1_ok_def accepts_fresh)
  moreover have "length (concat (map (frame V3_1_encoder) [sample_msg, sample_sub [5, 6]])) < 50"
    by code_simp
  moreover have "map v3_1_seen [sample_msg, sample_sub [5, 6]] = [(1, [7, 8, 9]), (2, sub_cmd_name @ [5, 6])]"
    by code_simp
  ultimately show ?thesis
    using v3_1_connection_delivers [of "[sample_msg, sample_sub [5, 6]]" fresh_cfg 4 8 50 "replicate 50 2"]
    by simp
qed

text \<open>C2. A ZMTP 2.0/3.0 connection delivers what is sent in the same sense, a subscription or
  cancellation as a message whose first byte is 1 or 0, except for a subscription or cancellation of
  a topic of exactly 255 bytes.\<close>

theorem v2_connection_delivers:
  assumes "\<forall>m\<in>set ms. v2_ok cfg m" and "0 < batch" and "0 < asz"
    and "length (concat (map (frame V2_encoder) ms)) < n"
    and "length (concat (map (frame V2_encoder) ms)) \<le> length ks"
  shows "\<exists>stream e d. write_all V2_encoder batch n ms new_encoder = Some (stream, True, [], e) \<and> is_empty e \<and>
    recv_stream cfg asz collect ks stream new_decoder [] = Some (d, map v2_seen ms, None, []) \<and> dec_ready d"
  using write_all_spec [OF enc_inv_new assms(2), of V2_encoder ms n] assms(4)
    v2_format.recv [OF assms(1) dec_ready_new assms(3,5)]
  unfolding unsent_new by blast

theorem v2_connection_delivers_witness:
  "\<exists>stream e d. write_all V2_encoder 4 50 [sample_msg, sample_sub [5, 6]] new_encoder
      = Some (stream, True, [], e) \<and> is_empty e \<and>
    recv_stream fresh_cfg 8 collect (replicate 50 2) stream new_decoder [] =
      Some (d, [(1, [7, 8, 9]), (0, [1, 5, 6])], None, []) \<and> dec_ready d"
proof -
  have "length (snd (v2_seen sample_msg)) = 3" "length (snd (v2_seen (sample_sub [5, 6]))) = 3"
    "length (m_data sample_msg) = 3" "length (m_data (sample_sub [5, 6])) = 2"
    by code_simp+
  then have "\<forall>m\<in>set [sample_msg, sample_sub [5, 6]]. v2_ok fresh_cfg m"
    by (simp add: v2_ok_def accepts_fresh UCHAR_MAX_def)
  moreover have "length (concat (map (frame V2_encoder) [sample_msg, sample_sub [5, 6]])) < 50"
    by code_simp
  moreover have "map v2_seen [sample_msg, sample_sub [5, 6]] = [(1, [7, 8, 9]), (0, [1, 5, 6])]"
    by code_simp
  ultimately show ?thesis
    using v2_connection_delivers [of "[sample_msg, sample_sub [5, 6]]" fresh_cfg 4 8 50 "replicate 50 2"]
    by simp
qed

text \<open>C4. The excluded case is a defect of the encoder: for a subscription or cancellation of a
  255-byte topic \<^verbatim>\<open>v2_encoder_t\<close> writes an eight-byte length without the large flag, and the peer's
  decoder takes the first of these bytes, zero, for the length: it delivers an empty message after two
  bytes and reads the rest of the frame as further frames.\<close>

theorem v2_subscribe_255_misframed:
  assumes "is_subscribe m \<or> is_cancel m" and "length (m_data m) = 255" and "accepts cfg 0"
  shows "\<exists>d. dec_loop cfg room (frame V2_encoder m) 0 new_decoder = (d, Have_msg, 2) \<and> m_data (d_msg d) = []"
proof -
  define b where "b = (if is_more m then more_flag else 0) OR (if False then large_flag else 0) OR
    (if has_flag flag_command m then command_flag else 0)"
  have b: "b AND large_flag = 0" using flag_bits(2) [of "is_more m" False] unfolding b_def by blast
  have "frame V2_encoder m = (b # length_field b 0 @ []) @ drop 2 (frame V2_encoder m)"
    using assms(1,2) b by (auto simp: v2_header_def Let_def b_def UCHAR_MAX_def length_field_def put_uint64_def)
  moreover have "reads cfg new_decoder (b # length_field b 0 @ []) (flags_of b, [])"
    using reads_frame [OF dec_ready_new, of cfg "[]" b] assms(3) by (simp add: UCHAR_MAX_def)
  moreover have "length (b # length_field b 0 @ []) = 2" by (simp add: length_field_def b)
  ultimately show ?thesis
    using reads_complete [of cfg new_decoder "b # length_field b 0 @ []" "(flags_of b, [])" room
        "drop 2 (frame V2_encoder m)" 0]
    by (auto simp: content_def)
qed

theorem v2_subscribe_255_misframed_witness:
  "\<exists>d. dec_loop fresh_cfg 8192 (frame V2_encoder (sample_sub (replicate 255 97))) 0 new_decoder = (d, Have_msg, 2)
     \<and> m_data (d_msg d) = []"
proof -
  have "is_subscribe (sample_sub (replicate 255 97))" "length (m_data (sample_sub (replicate 255 97))) = 255"
    using init_subscribe_props [of "\<lambda>_. True" "replicate 255 97"]
    by (auto simp: sample_sub_def init_subscribe_def init_size_def sizeof_content_t_def set_flags_def
        split: sum.splits)
  moreover have "accepts fresh_cfg 0" by (rule accepts_fresh) simp
  ultimately show ?thesis
    using v2_subscribe_255_misframed [of "sample_sub (replicate 255 97)" fresh_cfg 8192] by simp
qed

text \<open>C7. Reading straight into the message changes nothing: when the input was read into the
  decoder's own destination (it then is at most what the destination still takes), \<^verbatim>\<open>decode\<close> gives the
  same state, return code and byte count as the copying loop.\<close>

theorem decode_zero_copy_equiv:
  assumes "inp \<noteq> []" and "length inp \<le> d_to_read d"
  shows "decode cfg True room inp d = decode cfg False room inp d"
  using decode_direct [OF assms] by metis

theorem decode_zero_copy_equiv_witness:
  "decode fresh_cfg True 64 [3] new_decoder = decode fresh_cfg False 64 [3] new_decoder"
  by (rule decode_zero_copy_equiv) (simp_all add: new_decoder_def)

end
