(* ===== verification/Node_Table.thy ===== *)
theory Node_Table
  imports Prelude
begin

text \<open>
  The child table shared by \<^verbatim>\<open>trie_t\<close> and \<^verbatim>\<open>mtrie_t\<close> (\<^verbatim>\<open>src/src/pipe/trie.cpp\<close>, \<^verbatim>\<open>mtrie_impl.hpp\<close>): the members
  \<^verbatim>\<open>_min\<close>, \<^verbatim>\<open>_count\<close>, \<^verbatim>\<open>_live_nodes\<close> and the union \<^verbatim>\<open>_next\<close> (a single child or an array of children indexed by
  character minus \<^verbatim>\<open>_min\<close>), how the array grows when a child is added and how it is compacted when one
  is pruned. The table denotes a finite map from characters to children, \<open>tbl_child\<close>; every operation
  is shown to keep the table well formed and to act on that map, with none of the code's assertions
  failing. Results of \<^verbatim>\<open>unsigned char\<close> and \<^verbatim>\<open>unsigned short\<close> arithmetic are reduced where the code
  stores them.
\<close>

datatype 'n next_t = Node "'n option" | Table "'n option list"

datatype 'n tbl = Tbl (t_min: nat) (t_count: nat) (t_live: nat) (t_next: "'n next_t")

definition uchar :: "nat \<Rightarrow> nat" where "uchar n = n mod 256"
definition ushort :: "nat \<Rightarrow> nat" where "ushort n = n mod 65536"

lemma uchar_id [simp]: "n < 256 \<Longrightarrow> uchar n = n"
  by (simp add: uchar_def)

lemma ushort_id [simp]: "n < 65536 \<Longrightarrow> ushort n = n"
  by (simp add: ushort_def)

fun node_of :: "'n next_t \<Rightarrow> 'n option" where
  "node_of (Node x) = x"
| "node_of (Table xs) = None"

fun table_of :: "'n next_t \<Rightarrow> 'n option list" where
  "table_of (Node x) = []"
| "table_of (Table xs) = xs"

definition empty_tbl :: "'n tbl" where
  "empty_tbl = Tbl 0 0 0 (Node None)"

definition in_range :: "nat \<Rightarrow> 'n tbl \<Rightarrow> bool" where
  "in_range c t \<longleftrightarrow> \<not> (c < t_min t \<or> c \<ge> t_min t + t_count t)"

text \<open>The slot of a character that is in range.\<close>

definition tbl_slot :: "nat \<Rightarrow> 'n tbl \<Rightarrow> 'n option" where
  "tbl_slot c t =
     (if t_count t = 1 then node_of (t_next t) else table_of (t_next t) ! (c - t_min t))"

definition tbl_set :: "nat \<Rightarrow> 'n option \<Rightarrow> 'n tbl \<Rightarrow> 'n tbl" where
  "tbl_set c x t = Tbl (t_min t) (t_count t) (t_live t)
     (if t_count t = 1 then Node x else Table ((table_of (t_next t))[c - t_min t := x]))"

section \<open>Growing\<close>

definition tbl_extend :: "nat \<Rightarrow> 'n tbl \<Rightarrow> 'n tbl" where
  "tbl_extend c t =
     (let mn = t_min t; n = t_count t; lv = t_live t; nx = t_next t in
      if in_range c t then t
      else if n = 0 then Tbl c 1 lv (Node None)
      else if n = 1 then
        let n' = ushort ((if mn < c then c - mn else mn - c) + 1); mn' = min mn c
        in Tbl mn' n' lv (Table ((replicate n' None)[mn - mn' := node_of nx]))
      else if mn < c then
        let n' = ushort (c - mn + 1)
        in Tbl mn n' lv (Table (table_of nx @ replicate (n' - n) None))
      else
        let n' = ushort (mn + n - c)
        in Tbl c n' lv (Table (replicate (mn - c) None @ table_of nx)))"

text \<open>Create the child if its slot is empty.\<close>

definition tbl_create :: "'n \<Rightarrow> nat \<Rightarrow> 'n tbl \<Rightarrow> 'n tbl" where
  "tbl_create fresh c t =
     (case tbl_slot c t of
        None \<Rightarrow> (case tbl_set c (Some fresh) t of Tbl mn n lv nx \<Rightarrow> Tbl mn n (ushort (lv + 1)) nx)
      | Some _ \<Rightarrow> t)"

section \<open>Pruning\<close>

definition dec_ushort :: "nat \<Rightarrow> nat" where
  "dec_ushort n = ushort (n + 65535)"

text \<open>The loops that look for a live entry from the left and from the right, skipping the end.\<close>

definition live_from_left :: "nat \<Rightarrow> nat \<Rightarrow> 'n option list \<Rightarrow> nat option" where
  "live_from_left start n xs = find (\<lambda>i. xs ! i \<noteq> None) [start..<n]"

definition live_from_right :: "nat \<Rightarrow> 'n option list \<Rightarrow> nat option" where
  "live_from_right n xs = find (\<lambda>i. xs ! (n - 1 - i) \<noteq> None) [1..<n]"

text \<open>\<^verbatim>\<open>trie_t::rm\<close>, after the child of \<open>c\<close> has become redundant.\<close>

definition trie_prune :: "nat \<Rightarrow> 'n tbl \<Rightarrow> 'n tbl option" where
  "trie_prune c t =
     (let mn = t_min t; n = t_count t; lv = dec_ushort (t_live t) in
      slk_assert (n > 0)
      (if n = 1 then slk_assert (lv = 0) (Some (Tbl mn 0 lv (Node None)))
       else let xs = (table_of (t_next t))[c - mn := None] in
         slk_assert (t_live t > 1)
         (if lv = 1 then
            case (if c = mn then xs ! (n - 1) else if c = mn + n - 1 then xs ! 0 else None) of
              None \<Rightarrow> None
            | Some nd \<Rightarrow> Some (Tbl (if c = mn then uchar (mn + n - 1) else mn) 1 lv (Node (Some nd)))
          else if c = mn then
            let new_min = (case live_from_left 1 n xs of None \<Rightarrow> mn | Some i \<Rightarrow> uchar (i + mn)) in
            slk_assert (new_min \<noteq> mn \<and> new_min > mn \<and> n > new_min - mn)
            (let n' = ushort (n - (new_min - mn))
             in Some (Tbl new_min n' lv (Table (take n' (drop (new_min - mn) xs)))))
          else if c = mn + n - 1 then
            let n' = (case live_from_right n xs of None \<Rightarrow> n | Some i \<Rightarrow> ushort (n - i)) in
            slk_assert (n' \<noteq> n) (Some (Tbl mn n' lv (Table (take n' xs))))
          else Some (Tbl mn n lv (Table xs)))))"

text \<open>The same step in \<^verbatim>\<open>mtrie_t::rm\<close>, which searches for the last live child.\<close>

definition mtrie_prune :: "nat \<Rightarrow> 'n tbl \<Rightarrow> 'n tbl option" where
  "mtrie_prune c t =
     (let mn = t_min t; n = t_count t; lv = dec_ushort (t_live t) in
      slk_assert (n > 0)
      (if n = 1 then slk_assert (lv = 0) (Some (Tbl mn 0 lv (Node None)))
       else let xs = (table_of (t_next t))[c - mn := None] in
         slk_assert (t_live t > 1)
         (if lv = 1 then
            case live_from_left 0 n xs of
              None \<Rightarrow> None
            | Some i \<Rightarrow> Some (Tbl (uchar (mn + i)) 1 lv (Node (xs ! i)))
          else if c = mn then
            case live_from_left 1 n xs of
              None \<Rightarrow> None
            | Some i \<Rightarrow> Some (Tbl (uchar (mn + i)) (ushort (n - i)) lv (Table (take (n - i) (drop i xs))))
          else if c = mn + n - 1 then
            case live_from_right n xs of
              None \<Rightarrow> None
            | Some i \<Rightarrow> Some (Tbl mn (ushort (n - i)) lv (Table (take (n - i) xs)))
          else Some (Tbl mn n lv (Table xs)))))"

section \<open>Well-formed tables and the map they denote\<close>

definition live_count :: "'n option list \<Rightarrow> nat" where
  "live_count xs = length (filter (\<lambda>x. x \<noteq> None) xs)"

definition tbl_wf :: "'n tbl \<Rightarrow> bool" where
  "tbl_wf t \<longleftrightarrow> t_min t < 256 \<and> t_min t + t_count t \<le> 256 \<and>
     (case t_next t of
        Node x \<Rightarrow> t_count t = 0 \<and> t_live t = 0 \<or> t_count t = 1 \<and> t_live t = 1 \<and> x \<noteq> None
      | Table xs \<Rightarrow> t_count t \<ge> 2 \<and> length xs = t_count t \<and> xs ! 0 \<noteq> None \<and>
          xs ! (t_count t - 1) \<noteq> None \<and> t_live t = live_count xs)"

definition tbl_child :: "'n tbl \<Rightarrow> nat \<Rightarrow> 'n option" where
  "tbl_child t c = (if in_range c t then tbl_slot c t else None)"

lemma live_count_simps [simp]:
  "live_count [] = 0" "live_count (x # xs) = (if x = None then 0 else 1) + live_count xs"
  "live_count (xs @ ys) = live_count xs + live_count ys" "live_count (replicate n None) = 0"
  by (simp_all add: live_count_def)

lemma live_count_le: "live_count xs \<le> length xs"
  by (simp add: live_count_def)

lemma live_count_update:
  assumes "i < length xs"
  shows "live_count (xs[i := x]) + (if xs ! i = None then 0 else 1) =
     live_count xs + (if x = None then 0 else 1)"
proof -
  have "live_count xs = live_count (take i xs @ xs ! i # drop (Suc i) xs)"
    using id_take_nth_drop [OF assms] by simp
  then show ?thesis using assms by (simp add: upd_conv_take_nth_drop)
qed

lemma live_count_single: "i < n \<Longrightarrow> live_count ((replicate n None)[i := Some x]) = 1"
  using live_count_update [of i "replicate n None" "Some x"] by simp

lemma live_count_card: "live_count xs = card {i. i < length xs \<and> xs ! i \<noteq> None}"
  by (simp add: live_count_def length_filter_conv_card)

lemma live_count_set:
  assumes "S \<subseteq> {i. i < length xs \<and> xs ! i \<noteq> None}"
  shows "card S \<le> live_count xs"
  unfolding live_count_card by (rule card_mono) (use assms in auto)

lemma live_count_unique:
  assumes "live_count xs = 1" "i < length xs" "xs ! i \<noteq> None" "j < length xs" "j \<noteq> i"
  shows "xs ! j = None"
proof (rule ccontr)
  assume "xs ! j \<noteq> None"
  then have "card {i, j} \<le> live_count xs" using assms by (intro live_count_set) auto
  then show False using assms(1,5) by simp
qed

lemma live_count_pos: "i < length xs \<Longrightarrow> xs ! i \<noteq> None \<Longrightarrow> 0 < live_count xs"
  using live_count_set [of "{i}" xs] by simp

lemma find_upt_Some:
  assumes "find P [s..<n] = Some i"
  shows "s \<le> i \<and> i < n \<and> P i \<and> (\<forall>j. s \<le> j \<and> j < i \<longrightarrow> \<not> P j)"
proof -
  obtain k where k: "k < n - s" "P (s + k)" "i = s + k" "\<And>j. j < k \<Longrightarrow> \<not> P (s + j)"
    using assms unfolding find_Some_iff by auto
  have "\<not> P j" if "s \<le> j" "j < i" for j
    using k(4) [of "j - s"] k(3) that by simp
  then show ?thesis using k by simp
qed

lemma find_upt_None: "find P [s..<n] = None \<longleftrightarrow> (\<forall>i. s \<le> i \<and> i < n \<longrightarrow> \<not> P i)"
  by (auto simp: find_None_iff)

text \<open>The three shapes of a well-formed table.\<close>

lemma tbl_wfE [consumes 1, case_names empty single table]:
  assumes "tbl_wf t"
  obtains mn x where "t = Tbl mn 0 0 (Node x)" "mn < 256"
  | mn x where "t = Tbl mn 1 1 (Node (Some x))" "mn < 256"
  | mn xs where "t = Tbl mn (length xs) (live_count xs) (Table xs)" "mn + length xs \<le> 256"
      "2 \<le> length xs" "xs ! 0 \<noteq> None" "xs ! (length xs - 1) \<noteq> None"
proof (cases t)
  case (Tbl mn n lv nx)
  show ?thesis
  proof (cases nx)
    case (Node x)
    then show ?thesis using assms Tbl that(1,2) by (auto simp: tbl_wf_def)
  next
    case (Table xs)
    then show ?thesis using assms Tbl that(3) by (auto simp: tbl_wf_def)
  qed
qed

lemma tbl_wf_simps:
  "tbl_wf (Tbl mn 0 0 (Node x)) \<longleftrightarrow> mn < 256"
  "tbl_wf (Tbl mn (Suc 0) (Suc 0) (Node x)) \<longleftrightarrow> mn < 256 \<and> x \<noteq> None"
  "tbl_wf (Tbl mn n lv (Table xs)) \<longleftrightarrow> mn + n \<le> 256 \<and> n \<ge> 2 \<and> length xs = n \<and> xs ! 0 \<noteq> None \<and>
     xs ! (n - 1) \<noteq> None \<and> lv = live_count xs"
  by (auto simp: tbl_wf_def)

lemma tbl_child_simps:
  "tbl_child (Tbl mn 0 lv nx) c = None"
  "tbl_child (Tbl mn (Suc 0) lv nx) c = (if c = mn then node_of nx else None)"
  "n \<noteq> 1 \<Longrightarrow> tbl_child (Tbl mn n lv (Table xs)) c = (if mn \<le> c \<and> c < mn + n then xs ! (c - mn) else None)"
  by (auto simp: tbl_child_def in_range_def tbl_slot_def)

lemma tbl_wf_empty [simp]: "tbl_wf empty_tbl"
  by (simp add: empty_tbl_def tbl_wf_simps)

lemma tbl_child_empty [simp]: "tbl_child empty_tbl c = None"
  by (simp add: empty_tbl_def tbl_child_simps)

lemma tbl_child_range: "tbl_wf t \<Longrightarrow> tbl_child t c \<noteq> None \<Longrightarrow> c < 256"
  by (auto simp: tbl_child_def in_range_def tbl_wf_def split: if_splits)

lemma tbl_set_spec:
  assumes "tbl_wf t" "tbl_child t c \<noteq> None"
  shows "tbl_wf (tbl_set c (Some n) t) \<and> tbl_child (tbl_set c (Some n) t) = (tbl_child t)(c \<mapsto> n)"
  using assms(1)
proof (cases rule: tbl_wfE)
  case (empty mn x)
  then show ?thesis using assms(2) by (simp add: tbl_child_simps)
next
  case (single mn x)
  then show ?thesis
    using assms(2) by (auto simp: tbl_set_def tbl_wf_simps tbl_child_simps fun_eq_iff split: if_splits)
next
  case (table mn xs)
  then have "c - mn < length xs" "xs ! (c - mn) \<noteq> None" "mn \<le> c"
    using assms(2) by (auto simp: tbl_child_simps split: if_splits)
  then show ?thesis
    using table live_count_update [of "c - mn" xs "Some n"]
    by (auto simp: tbl_set_def tbl_wf_simps tbl_child_simps fun_eq_iff nth_list_update)
qed

text \<open>Growing the table and creating the child, as \<^verbatim>\<open>add\<close> does.\<close>

lemma tbl_create_table:
  fixes xs :: "'n option list" and e :: 'n
  assumes "mn + length xs \<le> 256" "2 \<le> length xs" "mn \<le> c" "c < mn + length xs"
    and "c = mn \<or> xs ! 0 \<noteq> None" "c = mn + length xs - 1 \<or> xs ! (length xs - 1) \<noteq> None"
  defines "t1 \<equiv> tbl_create e c (Tbl mn (length xs) (live_count xs) (Table xs))"
  shows "tbl_wf t1" "tbl_child t1 = (tbl_child (Tbl mn (length xs) (live_count xs) (Table xs)))
      (c \<mapsto> (case xs ! (c - mn) of None \<Rightarrow> e | Some n \<Rightarrow> n))"
proof -
  have lv: "ushort (live_count xs + 1) = live_count xs + 1"
    using assms(1) live_count_le [of xs] by simp
  have i: "c - mn < length xs" using assms(3,4) by simp
  have ends: "(xs[c - mn := Some e]) ! 0 \<noteq> None" "(xs[c - mn := Some e]) ! (length xs - 1) \<noteq> None"
    using assms(2-6) by (auto simp: nth_list_update)
  show "tbl_wf t1"
    using assms(1-6) lv i ends live_count_update [OF i, of "Some e"]
    by (auto simp: t1_def tbl_create_def tbl_slot_def tbl_set_def tbl_wf_simps split: option.splits)
  show "tbl_child t1 = (tbl_child (Tbl mn (length xs) (live_count xs) (Table xs)))
      (c \<mapsto> (case xs ! (c - mn) of None \<Rightarrow> e | Some n \<Rightarrow> n))"
    using assms(2-4) by (auto simp: t1_def tbl_create_def tbl_slot_def tbl_set_def tbl_child_simps
        fun_eq_iff nth_list_update split: option.splits)
qed

lemma tbl_grow_spec:
  fixes e :: 'n
  assumes "tbl_wf t" "c < 256"
  defines "t1 \<equiv> tbl_create e c (tbl_extend c t)"
  shows "tbl_wf t1 \<and> tbl_child t1 = (tbl_child t)(c \<mapsto> (case tbl_child t c of None \<Rightarrow> e | Some n \<Rightarrow> n))"
proof -
  have grown: ?thesis
    if "tbl_extend c t = Tbl mn (length xs) (live_count xs) (Table xs)" "mn + length xs \<le> 256" "2 \<le> length xs"
      "mn \<le> c" "c < mn + length xs" "c = mn \<or> xs ! 0 \<noteq> None" "c = mn + length xs - 1 \<or> xs ! (length xs - 1) \<noteq> None"
      "\<And>d. tbl_child (Tbl mn (length xs) (live_count xs) (Table xs)) d = tbl_child t d" for mn xs
  proof -
    have "xs ! (c - mn) = tbl_child t c"
      using that(3-5) that(8) [of c] by (simp add: tbl_child_simps)
    moreover have "tbl_child (Tbl mn (length xs) (live_count xs) (Table xs)) = tbl_child t"
      using that(8) by blast
    ultimately show ?thesis
      using tbl_create_table [OF that(2-7), of e] unfolding t1_def that(1) by simp
  qed
  from assms(1) show ?thesis
  proof (cases rule: tbl_wfE)
    case (empty mn x)
    then have "tbl_extend c t = Tbl c 1 0 (Node None)"
      by (auto simp: tbl_extend_def in_range_def Let_def)
    then show ?thesis
      using assms(2) empty by (auto simp: t1_def tbl_create_def tbl_slot_def
          tbl_set_def tbl_wf_simps tbl_child_simps fun_eq_iff)
  next
    case (single mn x)
    define n where "n = (if mn < c then c - mn else mn - c) + 1"
    show ?thesis
    proof (cases "c = mn")
      case True
      then have "tbl_extend c t = t" using single by (simp add: tbl_extend_def in_range_def)
      then show ?thesis
        using True single by (auto simp: t1_def tbl_create_def tbl_slot_def
            tbl_wf_simps tbl_child_simps fun_eq_iff)
    next
      case False
      let ?i = "mn - min mn c"
      let ?xs = "(replicate n None)[?i := Some x]"
      have n: "n < 65536" "?i < n" "2 \<le> n" "min mn c + n \<le> 256" "min mn c + n = max mn c + 1"
        using single(2) assms(2) False by (auto simp: n_def)
      have "\<not> in_range c (Tbl mn 1 1 (Node (Some x)))" using False by (auto simp: in_range_def)
      then have "tbl_extend c t = Tbl (min mn c) n 1 (Table ?xs)"
        using n(1) unfolding tbl_extend_def Let_def single(1) tbl.sel n_def [symmetric] by simp
      then have "tbl_extend c t = Tbl (min mn c) (length ?xs) (live_count ?xs) (Table ?xs)"
        using n(2) by (simp add: live_count_single)
      then show ?thesis
        by (rule grown) (cases "mn < c"; use single False n in \<open>auto simp: nth_list_update tbl_child_simps\<close>)+
    qed
  next
    case (table mn xs)
    show ?thesis
    proof (cases "in_range c t")
      case True
      then have "tbl_extend c t = Tbl mn (length xs) (live_count xs) (Table xs)"
        using table(1) by (simp add: tbl_extend_def)
      then show ?thesis
        by (rule grown) (use table True in \<open>auto simp: in_range_def\<close>)
    next
      case False
      show ?thesis
      proof (cases "mn < c")
        case True
        let ?xs = "xs @ replicate (c - mn + 1 - length xs) None"
        have len: "length ?xs = c - mn + 1"
          using False True table by (auto simp: in_range_def)
        then have "tbl_extend c t = Tbl mn (length ?xs) (live_count ?xs) (Table ?xs)"
          using False True table assms(2) by (auto simp: tbl_extend_def Let_def in_range_def)
        then show ?thesis
          by (rule grown) (use len table False True assms(2) in
            \<open>auto simp: in_range_def nth_append tbl_child_simps\<close>)
      next
        case below: False
        let ?xs = "replicate (mn - c) None @ xs"
        have "tbl_extend c t = Tbl c (length ?xs) (live_count ?xs) (Table ?xs)"
          using below False table by (auto simp: tbl_extend_def Let_def in_range_def)
        then show ?thesis
          by (rule grown) (use table below False assms(2) in
            \<open>auto simp: in_range_def nth_append tbl_child_simps\<close>)
      qed
    qed
  qed
qed

text \<open>Compacting an array without changing the map.\<close>

abbreviation arr :: "nat \<Rightarrow> 'n option list \<Rightarrow> 'n tbl" where
  "arr mn ys \<equiv> Tbl mn (length ys) (live_count ys) (Table ys)"

lemma live_count_none: "(\<And>i. i < length ys \<Longrightarrow> ys ! i = None) \<Longrightarrow> live_count ys = 0"
  by (auto simp: live_count_card)

lemma arr_drop:
  assumes "\<And>k. k < i \<Longrightarrow> ys ! k = None" "i < length ys" "2 \<le> live_count ys"
  shows "live_count (drop i ys) = live_count ys" "2 \<le> length (drop i ys)"
    "tbl_child (arr (mn + i) (drop i ys)) = tbl_child (arr mn ys)"
proof -
  have "live_count (take i ys) = 0" using assms(1,2) by (intro live_count_none) simp
  moreover have "live_count ys = live_count (take i ys) + live_count (drop i ys)"
    by (metis append_take_drop_id live_count_simps(3))
  ultimately show lc: "live_count (drop i ys) = live_count ys" by simp
  then show len: "2 \<le> length (drop i ys)"
    using live_count_le [of "drop i ys"] assms(3) by simp
  show "tbl_child (arr (mn + i) (drop i ys)) = tbl_child (arr mn ys)"
  proof (rule ext)
    fix c
    show "tbl_child (arr (mn + i) (drop i ys)) c = tbl_child (arr mn ys) c"
      using len assms(1) [of "c - mn"] by (auto simp: tbl_child_simps)
  qed
qed

lemma arr_take:
  assumes "\<And>k. n \<le> k \<Longrightarrow> k < length ys \<Longrightarrow> ys ! k = None" "n \<le> length ys" "2 \<le> live_count ys"
  shows "live_count (take n ys) = live_count ys" "2 \<le> length (take n ys)"
    "tbl_child (arr mn (take n ys)) = tbl_child (arr mn ys)"
proof -
  have "live_count (drop n ys) = 0" using assms(1) by (intro live_count_none) simp
  moreover have "live_count ys = live_count (take n ys) + live_count (drop n ys)"
    by (metis append_take_drop_id live_count_simps(3))
  ultimately show lc: "live_count (take n ys) = live_count ys" by simp
  then show len: "2 \<le> length (take n ys)"
    using live_count_le [of "take n ys"] assms(3) by simp
  show "tbl_child (arr mn (take n ys)) = tbl_child (arr mn ys)"
  proof (rule ext)
    fix c
    show "tbl_child (arr mn (take n ys)) c = tbl_child (arr mn ys) c"
      using len assms(1) [of "c - mn"] assms(2) by (auto simp: tbl_child_simps)
  qed
qed

lemma arr_single:
  assumes "live_count ys = 1" "j < length ys" "ys ! j \<noteq> None" "2 \<le> length ys"
  shows "tbl_child (Tbl (mn + j) 1 1 (Node (ys ! j))) = tbl_child (arr mn ys)"
proof (rule ext)
  fix c
  show "tbl_child (Tbl (mn + j) 1 1 (Node (ys ! j))) c = tbl_child (arr mn ys) c"
    using assms live_count_unique [OF assms(1-3), of "c - mn"] by (auto simp: tbl_child_simps)
qed

lemma dec_ushort:
  assumes "0 < n" "n < 65536"
  shows "dec_ushort n = n - 1"
proof -
  have "n + 65535 = (n - 1) + 65536" using assms(1) by simp
  then have "(n + 65535) mod 65536 = (n - 1) mod 65536" by (simp only: mod_add_self2)
  then show ?thesis using assms(2) by (simp add: dec_ushort_def ushort_def)
qed

text \<open>The array once the entry of \<open>c\<close> is cleared.\<close>

lemma arr_clear:
  assumes "mn + length xs \<le> 256" "2 \<le> length xs" "tbl_child (arr mn xs) c \<noteq> None"
    and "xs ! 0 \<noteq> None" "xs ! (length xs - 1) \<noteq> None"
  defines "ys \<equiv> xs[c - mn := None]"
  shows "mn \<le> c" "c - mn < length xs" "length ys = length xs" "live_count xs = live_count ys + 1"
    "tbl_child (arr mn ys) = (tbl_child (arr mn xs))(c := None)" "1 \<le> live_count ys"
    "c \<noteq> mn \<Longrightarrow> ys ! 0 \<noteq> None" "c \<noteq> mn + length xs - 1 \<Longrightarrow> ys ! (length xs - 1) \<noteq> None"
    "c \<noteq> mn \<Longrightarrow> c \<noteq> mn + length xs - 1 \<Longrightarrow> 2 \<le> live_count ys"
    "dec_ushort (live_count xs) = live_count ys"
proof -
  show c: "mn \<le> c" "c - mn < length xs"
    using assms(2,3) by (auto simp: tbl_child_simps split: if_splits)
  show len: "length ys = length xs" by (simp add: ys_def)
  have ci: "xs ! (c - mn) \<noteq> None" using assms(2,3) c by (auto simp: tbl_child_simps split: if_splits)
  show lc: "live_count xs = live_count ys + 1"
    using live_count_update [OF c(2), of None] ci by (simp add: ys_def)
  show "tbl_child (arr mn ys) = (tbl_child (arr mn xs))(c := None)"
  proof (rule ext)
    fix d
    have "mn \<le> d \<Longrightarrow> d \<noteq> c \<Longrightarrow> c - mn \<noteq> d - mn" using c(1) by linarith
    then show "tbl_child (arr mn ys) d = ((tbl_child (arr mn xs))(c := None)) d"
      using assms(2) c by (cases "d = c") (simp_all add: tbl_child_simps ys_def)
  qed
  show l: "ys ! 0 \<noteq> None" if "c \<noteq> mn"
  proof -
    have "c - mn \<noteq> 0" using that c(1) by simp
    then show ?thesis using assms(4) unfolding ys_def by simp
  qed
  show r: "ys ! (length xs - 1) \<noteq> None" if "c \<noteq> mn + length xs - 1"
  proof -
    have "c - mn \<noteq> length xs - 1" using that c(1) assms(2) by linarith
    then show ?thesis using assms(5) unfolding ys_def by simp
  qed
  show "1 \<le> live_count ys"
  proof (cases "c = mn")
    case True
    then have "ys ! (length xs - 1) \<noteq> None" using assms(2) by (intro r) simp
    moreover have "length xs - 1 < length ys" using assms(2) len by linarith
    ultimately show ?thesis using live_count_pos by fastforce
  next
    case False
    have "0 < length ys" using assms(2) len by linarith
    then show ?thesis using live_count_pos [OF _ l [OF False]] by simp
  qed
  show "2 \<le> live_count ys" if "c \<noteq> mn" "c \<noteq> mn + length xs - 1"
  proof -
    have "0 < length ys" "length xs - 1 < length ys" using assms(2) len by linarith+
    then have "{0, length xs - 1} \<subseteq> {i. i < length ys \<and> ys ! i \<noteq> None}"
      using l [OF that(1)] r [OF that(2)] by blast
    then have "card {0, length xs - 1} \<le> live_count ys" by (rule live_count_set)
    then show ?thesis using assms(2) by simp
  qed
  show "dec_ushort (live_count xs) = live_count ys"
  proof -
    have "live_count xs < 65536" using live_count_le [of xs] assms(1) by linarith
    then show ?thesis using dec_ushort [of "live_count xs"] lc by simp
  qed
qed

text \<open>The four outcomes of clearing an entry: one child is left, the left or the right end was
  cleared, or an inner entry.\<close>

definition cleared :: "nat \<Rightarrow> 'n option list \<Rightarrow> nat \<Rightarrow> 'n option list \<Rightarrow> bool" where
  "cleared mn xs c ys \<longleftrightarrow> mn + length xs \<le> 256 \<and> 2 \<le> length xs \<and> xs ! 0 \<noteq> None \<and> xs ! (length xs - 1) \<noteq> None \<and>
     tbl_child (arr mn xs) c \<noteq> None \<and> ys = xs[c - mn := None]"

definition pruned :: "nat \<Rightarrow> 'n option list \<Rightarrow> nat \<Rightarrow> 'n tbl \<Rightarrow> bool" where
  "pruned mn xs c t' \<longleftrightarrow> tbl_wf t' \<and> tbl_child t' = (tbl_child (arr mn xs))(c := None)"

lemma cleared_facts:
  assumes "cleared mn xs c ys"
  shows "mn + length xs \<le> 256" "2 \<le> length xs" "length ys = length xs" "live_count xs = live_count ys + 1"
    "tbl_child (arr mn ys) = (tbl_child (arr mn xs))(c := None)" "1 \<le> live_count ys"
    "c \<noteq> mn \<Longrightarrow> ys ! 0 \<noteq> None" "c \<noteq> mn + length xs - 1 \<Longrightarrow> ys ! (length xs - 1) \<noteq> None"
    "c \<noteq> mn \<Longrightarrow> c \<noteq> mn + length xs - 1 \<Longrightarrow> 2 \<le> live_count ys"
    "dec_ushort (live_count xs) = live_count ys" "ys = xs[c - mn := None]"
proof -
  have a: "mn + length xs \<le> 256" "2 \<le> length xs" "xs ! 0 \<noteq> None" "xs ! (length xs - 1) \<noteq> None"
    "tbl_child (arr mn xs) c \<noteq> None" "ys = xs[c - mn := None]"
    using assms unfolding cleared_def by simp_all
  note f = arr_clear [OF a(1,2,5,3,4), folded a(6)]
  show "mn + length xs \<le> 256" "2 \<le> length xs" "ys = xs[c - mn := None]" by (fact a)+
  show "length ys = length xs" "live_count xs = live_count ys + 1" "1 \<le> live_count ys"
    "tbl_child (arr mn ys) = (tbl_child (arr mn xs))(c := None)"
    "dec_ushort (live_count xs) = live_count ys" by (fact f)+
  show "c \<noteq> mn \<Longrightarrow> ys ! 0 \<noteq> None" "c \<noteq> mn + length xs - 1 \<Longrightarrow> ys ! (length xs - 1) \<noteq> None"
    "c \<noteq> mn \<Longrightarrow> c \<noteq> mn + length xs - 1 \<Longrightarrow> 2 \<le> live_count ys" by (fact f)+
qed

lemma pruned_one:
  assumes cl: "cleared mn xs c ys" and "live_count ys = 1" "j < length xs" "ys ! j \<noteq> None"
  shows "pruned mn xs c (Tbl (mn + j) 1 1 (Node (ys ! j)))"
  using arr_single [of ys j mn] assms cleared_facts [OF cl] unfolding pruned_def by (simp add: tbl_wf_simps)

lemma pruned_inner:
  assumes cl: "cleared mn xs c ys" and "c \<noteq> mn" "c \<noteq> mn + length xs - 1"
  shows "pruned mn xs c (Tbl mn (length xs) (live_count ys) (Table ys))"
  using assms cleared_facts [OF cl] unfolding pruned_def by (simp add: tbl_wf_simps)

lemma pruned_left:
  assumes cl: "cleared mn xs c ys" and "c = mn" "live_count ys \<noteq> 1"
  shows "\<exists>i. live_from_left 1 (length xs) ys = Some i \<and> 1 \<le> i \<and> i < length xs \<and>
    pruned mn xs c (Tbl (mn + i) (length xs - i) (live_count ys) (Table (drop i ys)))"
proof -
  note facts = cleared_facts [OF cl]
  have "c \<noteq> mn + length xs - 1" using assms(2) facts(2) by simp
  then have last: "ys ! (length xs - 1) \<noteq> None" by (rule facts(8))
  moreover have "1 \<le> length xs - 1" "length xs - 1 < length xs" using facts(2) by linarith+
  ultimately have "live_from_left 1 (length xs) ys \<noteq> None"
    unfolding live_from_left_def find_upt_None by blast
  then obtain i where fi: "live_from_left 1 (length xs) ys = Some i" by blast
  have i: "1 \<le> i" "i < length xs" "ys ! i \<noteq> None" and before: "\<And>j. 1 \<le> j \<Longrightarrow> j < i \<Longrightarrow> ys ! j = None"
    using find_upt_Some [OF fi [unfolded live_from_left_def]] by auto
  have "ys ! 0 = None" using assms(2) facts(2) by (cases xs) (simp_all add: facts(11))
  then have none: "ys ! k = None" if "k < i" for k using before that by (cases k) auto
  have lc: "2 \<le> live_count ys" using assms(3) facts(6) by linarith
  note d = arr_drop [of i ys, OF none _ lc]
  have "drop i ys ! (length xs - i - 1) \<noteq> None" using last facts(3) i(2) by simp
  then have "pruned mn xs c (Tbl (mn + i) (length xs - i) (live_count ys) (Table (drop i ys)))"
    using d(1,2) d(3) [of mn] i facts(1,3,5) unfolding pruned_def by (simp add: tbl_wf_simps)
  then show ?thesis using fi i by blast
qed

lemma pruned_right:
  assumes cl: "cleared mn xs c ys" and "c = mn + length xs - 1" "live_count ys \<noteq> 1"
  shows "\<exists>i. live_from_right (length xs) ys = Some i \<and> 1 \<le> i \<and> i < length xs \<and>
    pruned mn xs c (Tbl mn (length xs - i) (live_count ys) (Table (take (length xs - i) ys)))"
proof -
  note facts = cleared_facts [OF cl]
  have "c \<noteq> mn" using assms(2) facts(2) by simp
  then have first: "ys ! 0 \<noteq> None" by (rule facts(7))
  moreover have "1 \<le> length xs - 1" "length xs - 1 < length xs" "length xs - 1 - (length xs - 1) = 0"
    using facts(2) by linarith+
  ultimately have "1 \<le> length xs - 1 \<and> length xs - 1 < length xs \<and> ys ! (length xs - 1 - (length xs - 1)) \<noteq> None"
    by simp
  then have "live_from_right (length xs) ys \<noteq> None"
    unfolding live_from_right_def find_upt_None by blast
  then obtain i where fi: "live_from_right (length xs) ys = Some i" by blast
  have i: "1 \<le> i" "i < length xs" "ys ! (length xs - 1 - i) \<noteq> None"
    and before: "\<And>j. 1 \<le> j \<Longrightarrow> j < i \<Longrightarrow> ys ! (length xs - 1 - j) = None"
    using find_upt_Some [OF fi [unfolded live_from_right_def]] by auto
  have "c - mn = length xs - 1" using assms(2) by simp
  then have last: "ys ! (length xs - 1) = None" using facts(2) by (simp add: facts(11))
  have none: "ys ! k = None" if "length xs - i \<le> k" "k < length ys" for k
    using before [of "length xs - 1 - k"] last that facts(3) by (cases "k = length xs - 1") auto
  have lc: "2 \<le> live_count ys" using assms(3) facts(6) by linarith
  note d = arr_take [of "length xs - i" ys, OF none _ lc]
  have "pruned mn xs c (Tbl mn (length xs - i) (live_count ys) (Table (take (length xs - i) ys)))"
    using d(1,2) d(3) [of mn] i first facts(1,3,5) unfolding pruned_def by (simp add: tbl_wf_simps)
  then show ?thesis using fi i by blast
qed

text \<open>Both variants of pruning remove the entry from the map and keep the table well formed.\<close>

lemma trie_prune_array:
  assumes cl: "cleared mn xs c ys"
  shows "\<exists>t'. trie_prune c (arr mn xs) = Some t' \<and> pruned mn xs c t'"
proof -
  note facts = cleared_facts [OF cl]
  have n: "length xs \<noteq> 1" "0 < length xs" "1 < live_count xs" "length xs < 65536"
    using facts(1,2,4,6) by linarith+
  note unf = trie_prune_def Let_def tbl.sel table_of.simps facts(11) [symmetric] facts(10)
  consider (one) "live_count ys = 1" | (left) "live_count ys \<noteq> 1" "c = mn"
    | (right) "live_count ys \<noteq> 1" "c = mn + length xs - 1" "c \<noteq> mn"
    | (inner) "live_count ys \<noteq> 1" "c \<noteq> mn" "c \<noteq> mn + length xs - 1" by blast
  then show ?thesis
  proof cases
    case one
    define j where "j = (if c = mn then length xs - 1 else 0)"
    have end_c: "c = mn \<or> c = mn + length xs - 1" using facts(9) one by fastforce
    have j: "j < length xs" "ys ! j \<noteq> None"
      using facts(2,7,8) by (auto simp: j_def)
    obtain nd where nd: "ys ! j = Some nd" using j(2) by blast
    have "trie_prune c (arr mn xs) = Some (Tbl (mn + j) 1 1 (Node (ys ! j)))"
      using n one end_c nd facts(1,2) unfolding unf by (auto simp: j_def)
    then show ?thesis using pruned_one [OF cl one j] by simp
  next
    case left
    obtain i where i: "live_from_left 1 (length xs) ys = Some i" "1 \<le> i" "i < length xs"
      "pruned mn xs c (Tbl (mn + i) (length xs - i) (live_count ys) (Table (drop i ys)))"
      using pruned_left [OF cl left(2,1)] by blast
    have "uchar (i + mn) = mn + i" "ushort (length xs - i) = length xs - i"
      using i(3) facts(1) n(4) by (simp_all add: add.commute)
    then have "trie_prune c (arr mn xs) =
        Some (Tbl (mn + i) (length xs - i) (live_count ys) (Table (drop i ys)))"
      using n left i(1-3) facts(3) unfolding unf by simp
    then show ?thesis using i(4) by simp
  next
    case right
    obtain i where i: "live_from_right (length xs) ys = Some i" "1 \<le> i" "i < length xs"
      "pruned mn xs c (Tbl mn (length xs - i) (live_count ys) (Table (take (length xs - i) ys)))"
      using pruned_right [OF cl right(2,1)] by blast
    have "ushort (length xs - i) = length xs - i" using n(4) by simp
    then have "trie_prune c (arr mn xs) =
        Some (Tbl mn (length xs - i) (live_count ys) (Table (take (length xs - i) ys)))"
      using n right(1,3) right(2) [symmetric] i(1-3) unfolding unf by simp
    then show ?thesis using i(4) by simp
  next
    case inner
    then have "trie_prune c (arr mn xs) = Some (Tbl mn (length xs) (live_count ys) (Table ys))"
      using n unfolding unf by simp
    then show ?thesis using pruned_inner [OF cl inner(2,3)] by simp
  qed
qed

lemma mtrie_prune_array:
  assumes cl: "cleared mn xs c ys"
  shows "\<exists>t'. mtrie_prune c (arr mn xs) = Some t' \<and> pruned mn xs c t'"
proof (cases "live_count ys = 1")
  case True
  note facts = cleared_facts [OF cl]
  have n: "length xs \<noteq> 1" "0 < length xs" "1 < live_count xs" "length xs < 65536"
    using facts(1,2,4,6) by linarith+
  have "\<not> (\<forall>i<length xs. ys ! i = None)" using True live_count_none [of ys] facts(3) by fastforce
  then have "live_from_left 0 (length xs) ys \<noteq> None"
    unfolding live_from_left_def find_upt_None by blast
  then obtain j where j: "live_from_left 0 (length xs) ys = Some j" by blast
  then have j2: "j < length xs" "ys ! j \<noteq> None"
    using find_upt_Some unfolding live_from_left_def by blast+
  have "mtrie_prune c (arr mn xs) = Some (Tbl (mn + j) 1 1 (Node (ys ! j)))"
    using n True j j2(1) facts(1)
    unfolding mtrie_prune_def Let_def tbl.sel table_of.simps facts(11) [symmetric] facts(10) by simp
  then show ?thesis using pruned_one [OF cl True j2] by simp
next
  case False
  note facts = cleared_facts [OF cl]
  have n: "length xs \<noteq> 1" "0 < length xs" "1 < live_count xs" "length xs < 65536"
    using facts(1,2,4,6) by linarith+
  note unf = mtrie_prune_def trie_prune_def Let_def tbl.sel table_of.simps facts(11) [symmetric] facts(10)
  have "mtrie_prune c (arr mn xs) = trie_prune c (arr mn xs)"
  proof (cases "c = mn")
    case True
    then obtain i where i: "live_from_left 1 (length xs) ys = Some i" "1 \<le> i" "i < length xs"
      using pruned_left [OF cl True False] by blast
    then have "uchar (i + mn) = mn + i" "uchar (mn + i) = mn + i"
      using facts(1) by (simp_all add: add.commute)
    then show ?thesis using n False True i unfolding unf by simp
  next
    case ne: False
    show ?thesis
    proof (cases "c = mn + length xs - 1")
      case True
      then obtain i where i: "live_from_right (length xs) ys = Some i" "1 \<le> i" "i < length xs"
        using pruned_right [OF cl True False] by blast
      then show ?thesis using n False ne True [symmetric] unfolding unf by simp
    qed (use n False ne in \<open>simp add: unf\<close>)
  qed
  then show ?thesis using trie_prune_array [OF cl] by simp
qed

lemma prune_spec:
  assumes "tbl_wf t" "tbl_child t c \<noteq> None"
  shows "\<exists>t'. trie_prune c t = Some t' \<and> tbl_wf t' \<and> tbl_child t' = (tbl_child t)(c := None)"
    and "\<exists>t'. mtrie_prune c t = Some t' \<and> tbl_wf t' \<and> tbl_child t' = (tbl_child t)(c := None)"
proof -
  from assms(1)
  have "(\<exists>t'. trie_prune c t = Some t' \<and> tbl_wf t' \<and> tbl_child t' = (tbl_child t)(c := None)) \<and>
    (\<exists>t'. mtrie_prune c t = Some t' \<and> tbl_wf t' \<and> tbl_child t' = (tbl_child t)(c := None))"
  proof (cases rule: tbl_wfE)
    case (empty mn x)
    then show ?thesis using assms(2) by (simp add: tbl_child_simps)
  next
    case (single mn x)
    then show ?thesis
      using assms(2) by (auto simp: trie_prune_def mtrie_prune_def dec_ushort tbl_wf_simps
          tbl_child_simps fun_eq_iff split: if_splits)
  next
    case (table mn xs)
    have cl: "cleared mn xs c (xs[c - mn := None])"
      using table assms(2) by (simp add: cleared_def)
    show ?thesis
      using trie_prune_array [OF cl] mtrie_prune_array [OF cl] unfolding table(1) pruned_def by blast
  qed
  then show "\<exists>t'. trie_prune c t = Some t' \<and> tbl_wf t' \<and> tbl_child t' = (tbl_child t)(c := None)"
    and "\<exists>t'. mtrie_prune c t = Some t' \<and> tbl_wf t' \<and> tbl_child t' = (tbl_child t)(c := None)"
    by blast+
qed

lemma tbl_live_zero:
  assumes "tbl_wf t"
  shows "t_live t = 0 \<longleftrightarrow> (\<forall>c. tbl_child t c = None)"
  using assms
proof (cases rule: tbl_wfE)
  case (table mn xs)
  have pos: "0 < length xs" using table by linarith
  then have "tbl_child t mn \<noteq> None" using table by (simp add: tbl_child_simps)
  moreover from pos have "0 < live_count xs" using live_count_pos table(4) by blast
  ultimately show ?thesis using table(1) by auto
qed (auto simp: tbl_child_simps)

lemma tbl_slot_child: "in_range c t \<Longrightarrow> tbl_slot c t = tbl_child t c"
  by (simp add: tbl_child_def)

lemma tbl_child_in_range: "tbl_child t c = Some n \<Longrightarrow> in_range c t \<and> tbl_slot c t = Some n \<and> t_count t \<noteq> 0"
  by (auto simp: tbl_child_def in_range_def split: if_splits)

text \<open>A well-formed table has one live child exactly when it is not an array.\<close>

lemma tbl_live_count:
  assumes "tbl_wf t" "t_count t \<noteq> 0"
  shows "if t_count t = 1 then t_live t = 1 else t_live t > 1"
  using assms(1)
proof (cases rule: tbl_wfE)
  case (table mn xs)
  have "{0, length xs - 1} \<subseteq> {i. i < length xs \<and> xs ! i \<noteq> None}"
    using table by auto
  then have "card {0, length xs - 1} \<le> live_count xs" by (rule live_count_set)
  then show ?thesis using table by auto
qed (use assms(2) in auto)

text \<open>The children in the order of their characters, as the table loops visit them.\<close>

definition tbl_entries :: "'n tbl \<Rightarrow> (nat \<times> 'n option) list" where
  "tbl_entries t =
     (if t_count t = 0 then []
      else if t_count t = 1 then [(t_min t, node_of (t_next t))]
      else zip (map (\<lambda>i. uchar (t_min t + i)) [0..<t_count t]) (table_of (t_next t)))"

lemma tbl_entries_spec:
  assumes "tbl_wf t"
  shows "map fst (tbl_entries t) = [t_min t..<t_min t + t_count t]"
    and "(c, x) \<in> set (tbl_entries t) \<Longrightarrow> tbl_child t c = x \<and> c < 256"
    and "tbl_child t c = Some n \<Longrightarrow> (c, Some n) \<in> set (tbl_entries t)"
proof -
  have *: "map fst (tbl_entries t) = [t_min t..<t_min t + t_count t] \<and>
    (\<forall>c x. (c, x) \<in> set (tbl_entries t) \<longrightarrow> tbl_child t c = x \<and> c < 256) \<and>
    (\<forall>c n. tbl_child t c = Some n \<longrightarrow> (c, Some n) \<in> set (tbl_entries t))"
    using assms
  proof (cases rule: tbl_wfE)
    case (table mn xs)
    have ent: "tbl_entries t = map (\<lambda>i. (mn + i, xs ! i)) [0..<length xs]"
      using table by (intro nth_equalityI) (auto simp: tbl_entries_def)
    have "map fst (tbl_entries t) = [mn..<mn + length xs]"
      unfolding ent by (rule nth_equalityI) auto
    moreover have "(c, Some n) \<in> set (tbl_entries t)" if "tbl_child t c = Some n" for c n
    proof -
      have "mn \<le> c" "c < mn + length xs" "xs ! (c - mn) = Some n"
        using that table by (auto simp: tbl_child_simps split: if_splits)
      then show ?thesis unfolding ent by (auto intro!: image_eqI [of _ _ "c - mn"])
    qed
    moreover have "tbl_child t c = x \<and> c < 256" if "(c, x) \<in> set (tbl_entries t)" for c x
      using that table unfolding ent by (auto simp: tbl_child_simps)
    ultimately show ?thesis using table(1) by simp
  qed (auto simp: tbl_entries_def tbl_child_simps split: if_splits)
  then show "map fst (tbl_entries t) = [t_min t..<t_min t + t_count t]"
    "(c, x) \<in> set (tbl_entries t) \<Longrightarrow> tbl_child t c = x \<and> c < 256"
    "tbl_child t c = Some n \<Longrightarrow> (c, Some n) \<in> set (tbl_entries t)" by blast+
qed

text \<open>Collecting a list of byte strings from every child, each below its character.\<close>

definition tbl_collect :: "(nat \<Rightarrow> 'n \<Rightarrow> bytes list) \<Rightarrow> 'n tbl \<Rightarrow> bytes list" where
  "tbl_collect h t = concat (map (\<lambda>(c, x). case x of None \<Rightarrow> [] | Some n \<Rightarrow> h c n) (tbl_entries t))"

lemma tbl_collect_spec:
  assumes wf: "tbl_wf t"
    and h: "\<And>c n. tbl_child t c = Some n \<Longrightarrow> set (h c n) = {buff @ of_nat c # p |p. P n p} \<and> distinct (h c n)"
  shows "set (tbl_collect h t) = {buff @ b # p |b p. \<exists>n. tbl_child t (unat b) = Some n \<and> P n p}"
    and "distinct (tbl_collect h t)"
proof -
  note ent = tbl_entries_spec [OF wf]
  define f where "f = (\<lambda>(c, x). case x of None \<Rightarrow> [] | Some n \<Rightarrow> h c n)"
  have f: "f (c, None) = []" "f (c, Some n) = h c n" for c n by (simp_all add: f_def)
  have sub: "\<exists>c n p. e = (c, Some n) \<and> tbl_child t c = Some n \<and> c < 256 \<and> z = buff @ of_nat c # p \<and> P n p"
    if mem: "e \<in> set (tbl_entries t)" "z \<in> set (f e)" for e z
  proof -
    obtain c n where e: "e = (c, Some n)" using mem(2) f(1) by (cases e; cases "snd e") auto
    then have "tbl_child t c = Some n" "c < 256" using ent(2) mem(1) by auto
    then show ?thesis using e mem(2) h [of c n] by (auto simp: f)
  qed
  show "set (tbl_collect h t) = {buff @ b # p |b p. \<exists>n. tbl_child t (unat b) = Some n \<and> P n p}"
  proof (intro set_eqI iffI)
    fix z assume "z \<in> set (tbl_collect h t)"
    then obtain e where "e \<in> set (tbl_entries t)" "z \<in> set (f e)"
      unfolding tbl_collect_def f_def [symmetric] by auto
    then obtain c n p where "tbl_child t c = Some n" "c < 256" "z = buff @ of_nat c # p" "P n p"
      using sub by blast
    then show "z \<in> {buff @ b # p |b p. \<exists>n. tbl_child t (unat b) = Some n \<and> P n p}"
      by (auto simp: unat_of_nat_byte intro!: exI [of _ "of_nat c :: byte"])
  next
    fix z assume "z \<in> {buff @ b # p |b p. \<exists>n. tbl_child t (unat b) = Some n \<and> P n p}"
    then obtain b p n where z: "z = buff @ b # p" "tbl_child t (unat b) = Some n" "P n p" by blast
    moreover have "z \<in> set (f (unat b, Some n))" using z h [OF z(2)] by (auto simp: f)
    ultimately show "z \<in> set (tbl_collect h t)"
      unfolding tbl_collect_def f_def [symmetric] using ent(3) [OF z(2)] by auto
  qed
  show "distinct (tbl_collect h t)"
    unfolding tbl_collect_def f_def [symmetric]
  proof (rule distinct_concat_map)
    show "distinct (tbl_entries t)" using ent(1) by (metis distinct_map distinct_upt)
    show "distinct (f x)" if "x \<in> set (tbl_entries t)" for x
    proof -
      obtain c y where x: "x = (c, y)" by (cases x)
      then have "tbl_child t c = y" using that ent(2) by simp
      then show ?thesis using x h by (cases y) (simp_all add: f)
    qed
    show "x = y" if xy: "x \<in> set (tbl_entries t)" "y \<in> set (tbl_entries t)" "z \<in> set (f x)" "z \<in> set (f y)" for x y z
    proof -
      obtain c n p where x: "x = (c, Some n)" "tbl_child t c = Some n" "c < 256" "z = buff @ of_nat c # p"
        using sub [OF xy(1,3)] by blast
      obtain d m q where y: "y = (d, Some m)" "tbl_child t d = Some m" "d < 256" "z = buff @ of_nat d # q"
        using sub [OF xy(2,4)] by blast
      have "(of_nat c :: byte) = of_nat d" using x(4) y(4) by simp
      then have "c = d" using x(3) y(3) unat_of_nat_byte by metis
      then show ?thesis using x y by simp
    qed
  qed
qed

lemma tbl_entries_size [termination_simp]:
  assumes "(c, Some n) \<in> set (tbl_entries t)"
  shows "size n < size_tbl size t"
proof -
  have "size n < size_next_t size (t_next t)"
  proof (cases "t_next t")
    case (Node x)
    then show ?thesis using assms by (auto simp: tbl_entries_def split: if_splits)
  next
    case (Table xs)
    then have "Some n \<in> set xs"
      using assms by (auto simp: tbl_entries_def split: if_splits dest: set_zip_rightD)
    then have "size_option size (Some n) \<le> size_list (size_option size) xs"
      by (rule size_list_estimation') simp
    then show ?thesis using Table by simp
  qed
  then show ?thesis by (cases t) simp
qed

lemmas tbl_defs = empty_tbl_def tbl_extend_def tbl_create_def tbl_set_def tbl_slot_def in_range_def
  trie_prune_def mtrie_prune_def dec_ushort live_from_left_def live_from_right_def tbl_entries_def

end
