(* ===== verification/Trie.thy ===== *)
theory Trie
  imports Node_Table
begin

text \<open>
  The subscription trie \<^verbatim>\<open>trie_t\<close> (\<^verbatim>\<open>src/src/pipe/trie.cpp\<close>) and its wrapper \<^verbatim>\<open>trie_with_size_t\<close> (\<^verbatim>\<open>trie.hpp\<close>). A node
  is its reference count and its child table. The trie denotes a multiset of prefixes,
  \<open>trie_count\<close>; \<^verbatim>\<open>add\<close>, \<^verbatim>\<open>rm\<close>, \<^verbatim>\<open>check\<close> and \<^verbatim>\<open>apply\<close> are shown to add to it, remove from it, search it
  and enumerate it. A failing assertion or a null dereference is the result \<^const>\<open>None\<close>.
\<close>

datatype trie = Trie (refcnt: u32) (kids: "trie tbl")

definition new_trie :: trie where
  "new_trie = Trie 0 empty_tbl"

definition trie_redundant :: "trie \<Rightarrow> bool" where
  "trie_redundant n \<longleftrightarrow> refcnt n = 0 \<and> t_live (kids n) = 0"

fun trie_add :: "bytes \<Rightarrow> trie \<Rightarrow> (trie \<times> bool) option" where
  "trie_add [] (Trie r t) = Some (Trie (r + 1) t, r + 1 = 1)"
| "trie_add (b # bs) (Trie r t) =
     (let c = unat b;
          t1 = tbl_extend c t;
          t2 = tbl_create new_trie c t1
      in slk_assert (tbl_slot c t1 = None \<longrightarrow> (if t_count t2 = 1 then t_live t2 = 1 else t_live t2 > 1))
         (case tbl_slot c t2 of
            None \<Rightarrow> None
          | Some n \<Rightarrow>
              (case trie_add bs n of
                 None \<Rightarrow> None
               | Some (n', ret) \<Rightarrow> Some (Trie r (tbl_set c (Some n') t2), ret))))"

fun trie_rm :: "bytes \<Rightarrow> trie \<Rightarrow> (trie \<times> bool) option" where
  "trie_rm [] (Trie r t) =
     Some (if r = 0 then (Trie r t, False) else (Trie (r - 1) t, r - 1 = 0))"
| "trie_rm (b # bs) (Trie r t) =
     (let c = unat b in
      if t_count t = 0 \<or> \<not> in_range c t then Some (Trie r t, False)
      else case tbl_slot c t of
        None \<Rightarrow> Some (Trie r t, False)
      | Some n \<Rightarrow>
          (case trie_rm bs n of
             None \<Rightarrow> None
           | Some (n', ret) \<Rightarrow>
               if trie_redundant n' then map_option (\<lambda>t'. (Trie r t', ret)) (trie_prune c t)
               else Some (Trie r (tbl_set c (Some n') t), ret)))"

fun trie_check :: "bytes \<Rightarrow> trie \<Rightarrow> bool option" where
  "trie_check [] (Trie r t) = Some (r \<noteq> 0)"
| "trie_check (b # bs) (Trie r t) =
     (let c = unat b in
      if r \<noteq> 0 then Some True
      else if \<not> in_range c t then Some False
      else if t_count t = 1 then (case node_of (t_next t) of None \<Rightarrow> None | Some n \<Rightarrow> trie_check bs n)
      else (case table_of (t_next t) ! (c - t_min t) of None \<Rightarrow> Some False | Some n \<Rightarrow> trie_check bs n))"

text \<open>The calls \<^verbatim>\<open>apply\<close> makes, in order; \<open>buff\<close> is the path to the node.\<close>

fun trie_apply :: "bytes \<Rightarrow> trie \<Rightarrow> bytes list" where
  "trie_apply buff (Trie r t) =
     (if r \<noteq> 0 then [buff] else []) @
     concat (map (\<lambda>(c, x). case x of None \<Rightarrow> [] | Some n \<Rightarrow> trie_apply (buff @ [of_nat c]) n)
       (tbl_entries t))"

section \<open>The multiset of prefixes\<close>

fun trie_count :: "trie \<Rightarrow> bytes \<Rightarrow> u32" where
  "trie_count (Trie r t) [] = r"
| "trie_count (Trie r t) (b # bs) =
     (case tbl_child t (unat b) of None \<Rightarrow> 0 | Some n \<Rightarrow> trie_count n bs)"

text \<open>Every table is well formed and every node but the root holds a prefix at or below it.\<close>

inductive trie_wf :: "trie \<Rightarrow> bool" where
  trie_wfI: "tbl_wf t \<Longrightarrow> (\<And>c n. tbl_child t c = Some n \<Longrightarrow> trie_wf n) \<Longrightarrow>
    (\<And>c n. tbl_child t c = Some n \<Longrightarrow> \<not> trie_redundant n) \<Longrightarrow> trie_wf (Trie r t)"

inductive_simps trie_wf_Trie: "trie_wf (Trie r t)"

lemma new_trie_wf: "trie_wf new_trie"
  by (simp add: new_trie_def trie_wf_Trie)

lemma new_trie_count [simp]: "trie_count new_trie p = 0"
  by (cases p) (simp_all add: new_trie_def)

lemma trie_redundant_count:
  assumes "trie_wf n" "trie_redundant n"
  shows "trie_count n p = 0"
proof (cases n)
  case (Trie r t)
  then have "r = 0" "tbl_child t c = None" for c
    using assms tbl_live_zero [of t] by (auto simp: trie_redundant_def trie_wf_Trie)
  then show ?thesis using Trie by (cases p) auto
qed

lemma trie_not_redundant:
  "trie_wf n \<Longrightarrow> \<not> trie_redundant n \<Longrightarrow> \<exists>p. trie_count n p \<noteq> 0"
proof (induction rule: trie_wf.induct)
  case (trie_wfI t r)
  show ?case
  proof (cases "r = 0")
    case False
    then show ?thesis by (intro exI [of _ "[]"]) simp
  next
    case True
    then obtain c n where c: "tbl_child t c = Some n"
      using trie_wfI(1,5) tbl_live_zero [of t] by (auto simp: trie_redundant_def)
    then obtain p where "trie_count n p \<noteq> 0" using trie_wfI(3,4) by blast
    moreover have "unat (of_nat c :: byte) = c"
      using tbl_child_range [OF trie_wfI(1)] c by (intro unat_of_nat_byte) simp
    ultimately show ?thesis using c by (intro exI [of _ "of_nat c # p"]) simp
  qed
qed

text \<open>Replacing or removing one child of a well-formed node.\<close>

lemma trie_node_update:
  assumes "trie_wf (Trie r t)" "tbl_wf t'" "trie_wf n'" "\<not> trie_redundant n'"
    "tbl_child t' = (tbl_child t)(unat b \<mapsto> n')"
  shows "trie_wf (Trie r t')" "\<not> trie_redundant (Trie r t')"
    "trie_count (Trie r t') (a # q) = (if a = b then trie_count n' q else trie_count (Trie r t) (a # q))"
proof -
  show "trie_wf (Trie r t')" using assms by (auto simp: trie_wf_Trie split: if_splits)
  show "\<not> trie_redundant (Trie r t')"
    using tbl_live_zero [OF assms(2)] assms(5) by (auto simp: trie_redundant_def)
  show "trie_count (Trie r t') (a # q) = (if a = b then trie_count n' q else trie_count (Trie r t) (a # q))"
    using assms(5) by (auto simp: word_unat_eq_iff)
qed

lemma trie_node_remove:
  assumes "trie_wf (Trie r t)" "tbl_wf t'" "tbl_child t' = (tbl_child t)(unat b := None)"
  shows "trie_wf (Trie r t')"
    "trie_count (Trie r t') (a # q) = (if a = b then 0 else trie_count (Trie r t) (a # q))"
proof -
  show "trie_wf (Trie r t')" using assms by (auto simp: trie_wf_Trie split: if_splits)
  show "trie_count (Trie r t') (a # q) = (if a = b then 0 else trie_count (Trie r t) (a # q))"
    using assms(3) by (auto simp: word_unat_eq_iff)
qed

lemma trie_add_ok:
  "trie_wf t \<Longrightarrow> trie_count t p + 1 \<noteq> 0 \<Longrightarrow>
    \<exists>t'. trie_add p t = Some (t', trie_count t p = 0) \<and> trie_wf t' \<and> \<not> trie_redundant t' \<and>
      trie_count t' = (trie_count t)(p := trie_count t p + 1)"
proof (induction p arbitrary: t)
  case Nil
  obtain r k where t: "t = Trie r k" by (cases t)
  have "trie_count (Trie (r + 1) k) q = ((trie_count (Trie r k))([] := r + 1)) q" for q
    by (cases q) auto
  then show ?case
    using Nil t by (auto simp: trie_wf_Trie trie_redundant_def)
next
  case (Cons b bs)
  obtain r k where t: "t = Trie r k" by (cases t)
  let ?c = "unat b"
  let ?k2 = "tbl_create new_trie ?c (tbl_extend ?c k)"
  have k: "tbl_wf k" "?c < 256" using Cons.prems(1) t by (auto simp: trie_wf_Trie)
  define n where "n = (case tbl_child k ?c of None \<Rightarrow> new_trie | Some n \<Rightarrow> n)"
  have k2: "tbl_wf ?k2" "tbl_child ?k2 = (tbl_child k)(?c \<mapsto> n)"
    using tbl_grow_spec [OF k, of new_trie] by (simp_all add: n_def)
  have n: "trie_wf n" "trie_count n = (\<lambda>q. trie_count t (b # q))"
    using Cons.prems(1) t new_trie_wf by (auto simp: n_def trie_wf_Trie fun_eq_iff split: option.splits)
  have slot: "tbl_slot ?c ?k2 = Some n" "in_range ?c ?k2"
    using k2(2) tbl_child_in_range [of ?k2 ?c n] by auto
  have asrt: "tbl_slot ?c (tbl_extend ?c k) = None \<longrightarrow>
      (if t_count ?k2 = 1 then t_live ?k2 = 1 else t_live ?k2 > 1)"
    using tbl_live_count [OF k2(1)] tbl_child_in_range [of ?k2 ?c n] k2(2) by auto
  obtain n' where n': "trie_add bs n = Some (n', trie_count t (b # bs) = 0)" "trie_wf n'"
    "\<not> trie_redundant n'" "trie_count n' = (trie_count n)(bs := trie_count t (b # bs) + 1)"
    using Cons.IH [OF n(1)] Cons.prems(2) unfolding n(2) by blast
  let ?k3 = "tbl_set ?c (Some n') ?k2"
  have k3: "tbl_wf ?k3" "tbl_child ?k3 = (tbl_child k)(?c \<mapsto> n')"
    using tbl_set_spec [OF k2(1), of ?c n'] k2(2) by auto
  note upd = trie_node_update [OF Cons.prems(1) [unfolded t] k3(1) n'(2,3) k3(2)]
  have "trie_count (Trie r ?k3) q = ((trie_count t)(b # bs := trie_count t (b # bs) + 1)) q" for q
    using n'(4) n(2) t by (cases q) (auto simp: upd(3) simp del: trie_count.simps(2))
  moreover have "trie_add (b # bs) t = Some (Trie r ?k3, trie_count t (b # bs) = 0)"
    by (simp only: t trie_add.simps Let_def if_P [OF asrt] slot option.case n'(1) [unfolded t] prod.case)
  ultimately show ?case using upd(1,2) by blast
qed

lemma trie_rm_ok:
  "trie_wf t \<Longrightarrow>
    \<exists>t'. trie_rm p t = Some (t', trie_count t p = 1) \<and> trie_wf t' \<and>
      trie_count t' = (trie_count t)(p := if trie_count t p = 0 then 0 else trie_count t p - 1)"
proof (induction p arbitrary: t)
  case Nil
  obtain r k where t: "t = Trie r k" by (cases t)
  have "trie_count (Trie (r - 1) k) q = ((trie_count (Trie r k))([] := r - 1)) q" for q
    by (cases q) auto
  moreover have "(trie_count (Trie r k))([] := r) = trie_count (Trie r k)" by auto
  ultimately show ?case
    using Nil t by (auto simp: trie_wf_Trie)
next
  case (Cons b bs)
  obtain r k where t: "t = Trie r k" by (cases t)
  let ?c = "unat b"
  have k: "tbl_wf k" using Cons.prems t by (simp add: trie_wf_Trie)
  show ?case
  proof (cases "tbl_child k ?c")
    case None
    then have "trie_rm (b # bs) t = Some (t, False)"
      using t tbl_slot_child [of ?c k] by (auto simp: Let_def)
    moreover have "trie_count t (b # bs) = 0" using None t by simp
    ultimately show ?thesis using Cons.prems by (auto simp: fun_upd_idem)
  next
    case (Some n)
    have n: "trie_wf n" "trie_count n = (\<lambda>q. trie_count t (b # q))"
      using Cons.prems t Some by (auto simp: trie_wf_Trie)
    obtain n' where n': "trie_rm bs n = Some (n', trie_count t (b # bs) = 1)" "trie_wf n'"
      "trie_count n' = (trie_count n)(bs := if trie_count t (b # bs) = 0 then 0 else trie_count t (b # bs) - 1)"
      using Cons.IH [OF n(1)] unfolding n(2) by blast
    have rm: "trie_rm (b # bs) t = (if trie_redundant n'
        then map_option (\<lambda>t'. (Trie r t', trie_count t (b # bs) = 1)) (trie_prune ?c k)
        else Some (Trie r (tbl_set ?c (Some n') k), trie_count t (b # bs) = 1))"
      using tbl_child_in_range [OF Some] n'(1) t by (simp add: Let_def)
    define v where "v = (if trie_count t (b # bs) = 0 then 0 else trie_count t (b # bs) - 1)"
    have cnt: "trie_count n' q = (if q = bs then v else trie_count t (b # q))" for q
      using n'(3) n(2) by (simp add: v_def)
    show ?thesis unfolding v_def [symmetric]
    proof (cases "trie_redundant n'")
      case True
      obtain k' where k': "trie_prune ?c k = Some k'" "tbl_wf k'" "tbl_child k' = (tbl_child k)(?c := None)"
        using prune_spec(1) [OF k, of ?c] Some by auto
      note upd = trie_node_remove [OF Cons.prems [unfolded t] k'(2,3)]
      have zero: "(if q = bs then v else trie_count t (b # q)) = 0" for q
        using trie_redundant_count [OF n'(2) True, of q] cnt by simp
      have "trie_count (Trie r k') q = ((trie_count t)(b # bs := v)) q" for q
        using zero [of "tl q"] t by (cases q) (auto simp: upd(2) simp del: trie_count.simps(2))
      then show "\<exists>t'. trie_rm (b # bs) t = Some (t', trie_count t (b # bs) = 1) \<and> trie_wf t' \<and>
          trie_count t' = (trie_count t)(b # bs := v)"
        using rm True k'(1) upd(1) by auto
    next
      case False
      have k': "tbl_wf (tbl_set ?c (Some n') k)" "tbl_child (tbl_set ?c (Some n') k) = (tbl_child k)(?c \<mapsto> n')"
        using tbl_set_spec [OF k, of ?c n'] Some by auto
      note upd = trie_node_update [OF Cons.prems [unfolded t] k'(1) n'(2) False k'(2)]
      have "trie_count (Trie r (tbl_set ?c (Some n') k)) q = ((trie_count t)(b # bs := v)) q" for q
        using cnt t by (cases q) (auto simp: upd(3) simp del: trie_count.simps(2))
      then show "\<exists>t'. trie_rm (b # bs) t = Some (t', trie_count t (b # bs) = 1) \<and> trie_wf t' \<and>
          trie_count t' = (trie_count t)(b # bs := v)"
        using rm False upd(1) by auto
    qed
  qed
qed

lemma trie_check_ok:
  "trie_wf t \<Longrightarrow> trie_check d t = Some (\<exists>p. prefix p d \<and> trie_count t p \<noteq> 0)"
proof (induction d arbitrary: t)
  case Nil
  then show ?case by (cases t) auto
next
  case (Cons b bs)
  obtain r k where t: "t = Trie r k" by (cases t)
  have k: "tbl_wf k" using Cons.prems t by (simp add: trie_wf_Trie)
  have split: "(\<exists>p. prefix p (b # bs) \<and> trie_count t p \<noteq> 0) \<longleftrightarrow>
      r \<noteq> 0 \<or> (\<exists>p. prefix p bs \<and> trie_count t (b # p) \<noteq> 0)"
    using t by (auto simp: prefix_Cons simp del: trie_count.simps(2)) (metis trie_count.simps(1))+
  have step: "trie_check (b # bs) t = (if r \<noteq> 0 then Some True else
      case tbl_child k (unat b) of None \<Rightarrow> Some False | Some n \<Rightarrow> trie_check bs n)"
    using t k by (auto simp: Let_def tbl_child_def tbl_slot_def tbl_wf_def in_range_def
        split: option.splits next_t.splits)
  show ?case
  proof (cases "tbl_child k (unat b)")
    case None
    then show ?thesis unfolding step split using t by simp
  next
    case (Some n)
    then have "trie_wf n" using Cons.prems t by (auto simp: trie_wf_Trie)
    then show ?thesis unfolding step split using Some t by (simp add: Cons.IH)
  qed
qed

lemma trie_apply_ok:
  "trie_wf t \<Longrightarrow> set (trie_apply buff t) = {buff @ p |p. trie_count t p \<noteq> 0} \<and> distinct (trie_apply buff t)"
proof (induction arbitrary: buff rule: trie_wf.induct)
  case (trie_wfI t r)
  let ?h = "\<lambda>c n. trie_apply (buff @ [of_nat c]) n"
  have "set (?h c n) = {buff @ of_nat c # p |p. trie_count n p \<noteq> 0} \<and> distinct (?h c n)"
    if "tbl_child t c = Some n" for c n
    using trie_wfI.IH [OF that, of "buff @ [of_nat c]"] by simp
  note ch = tbl_collect_spec [of t ?h buff "\<lambda>n p. trie_count n p \<noteq> 0", OF trie_wfI.hyps(1) this]
  have below: "(\<exists>n. tbl_child t (unat b) = Some n \<and> trie_count n p \<noteq> 0) \<longleftrightarrow> trie_count (Trie r t) (b # p) \<noteq> 0" for b p
    by (auto split: option.splits)
  have "{buff @ p |p. trie_count (Trie r t) p \<noteq> 0} =
      (if r \<noteq> 0 then {buff} else {}) \<union> {buff @ b # p |b p. trie_count (Trie r t) (b # p) \<noteq> 0}"
    (is "?L = ?R")
  proof (intro set_eqI iffI)
    fix z assume "z \<in> ?L"
    then obtain p where "z = buff @ p" "trie_count (Trie r t) p \<noteq> 0" by blast
    then show "z \<in> ?R" by (cases p) auto
  next
    fix z assume "z \<in> ?R"
    then show "z \<in> ?L"
      by (auto simp del: trie_count.simps(2) split: if_splits intro: exI [of _ "[]"])
  qed
  moreover have "trie_apply buff (Trie r t) = (if r \<noteq> 0 then [buff] else []) @ tbl_collect ?h t"
    by (simp add: tbl_collect_def)
  ultimately show ?case
    using ch unfolding below by (auto simp del: trie_count.simps(2) trie_apply.simps)
qed

section \<open>The trie with the number of its prefixes\<close>

record trie_with_size =
  num_prefixes :: u32
  inner :: trie

definition tws_new :: trie_with_size where
  "tws_new = \<lparr>num_prefixes = 0, inner = new_trie\<rparr>"

definition tws_add :: "bytes \<Rightarrow> trie_with_size \<Rightarrow> (trie_with_size \<times> bool) option" where
  "tws_add p w =
     (case trie_add p (inner w) of
        None \<Rightarrow> None
      | Some (t, ret) \<Rightarrow>
          if ret then Some (w\<lparr>inner := t, num_prefixes := num_prefixes w + 1\<rparr>, True)
          else Some (w\<lparr>inner := t\<rparr>, False))"

definition tws_rm :: "bytes \<Rightarrow> trie_with_size \<Rightarrow> (trie_with_size \<times> bool) option" where
  "tws_rm p w =
     (case trie_rm p (inner w) of
        None \<Rightarrow> None
      | Some (t, ret) \<Rightarrow>
          if ret then Some (w\<lparr>inner := t, num_prefixes := num_prefixes w - 1\<rparr>, True)
          else Some (w\<lparr>inner := t\<rparr>, False))"

definition tws_check :: "bytes \<Rightarrow> trie_with_size \<Rightarrow> bool option" where
  "tws_check d w = trie_check d (inner w)"

definition tws_apply :: "trie_with_size \<Rightarrow> bytes list" where
  "tws_apply w = trie_apply [] (inner w)"

definition trie_keys :: "trie \<Rightarrow> bytes set" where
  "trie_keys t = {p. trie_count t p \<noteq> 0}"

definition tws_inv :: "trie_with_size \<Rightarrow> bool" where
  "tws_inv w \<longleftrightarrow> trie_wf (inner w) \<and> num_prefixes w = of_nat (card (trie_keys (inner w)))"

definition tws_count :: "trie_with_size \<Rightarrow> bytes \<Rightarrow> nat" where
  "tws_count w p = unat (trie_count (inner w) p)"

lemma trie_apply_keys: "trie_wf t \<Longrightarrow> set (trie_apply [] t) = trie_keys t \<and> distinct (trie_apply [] t)"
  using trie_apply_ok [of t "[]"] by (simp add: trie_keys_def)

lemma trie_keys_finite: "trie_wf t \<Longrightarrow> finite (trie_keys t)"
  using trie_apply_keys [of t] List.finite_set [of "trie_apply [] t"] by simp

lemma tws_new_inv: "tws_inv tws_new" "tws_count tws_new p = 0"
  by (simp_all add: tws_inv_def tws_new_def new_trie_wf trie_keys_def tws_count_def)

lemma tws_count_zero: "tws_count w p = 0 \<longleftrightarrow> trie_count (inner w) p = 0"
  by (simp add: tws_count_def unat_eq_zero)

lemma tws_add_ok:
  assumes "tws_inv w" "tws_count w p + 1 < 2 ^ 32"
  shows "\<exists>w'. tws_add p w = Some (w', tws_count w p = 0) \<and> tws_inv w' \<and>
    tws_count w' = (tws_count w)(p := tws_count w p + 1)"
proof -
  let ?n = "trie_count (inner w) p"
  have wf: "trie_wf (inner w)" using assms(1) by (simp add: tws_inv_def)
  have suc: "unat (?n + 1) = unat ?n + 1"
    using assms(2) by (simp add: tws_count_def unat_word_ariths)
  then have "?n + 1 \<noteq> 0" by auto
  then obtain t where t: "trie_add p (inner w) = Some (t, ?n = 0)" "trie_wf t"
    "trie_count t = (trie_count (inner w))(p := ?n + 1)"
    using trie_add_ok [OF wf] by blast
  have keys: "trie_keys t = insert p (trie_keys (inner w))"
    using t(3) \<open>?n + 1 \<noteq> 0\<close> by (auto simp: trie_keys_def)
  have "tws_inv (w\<lparr>inner := t, num_prefixes := num_prefixes w + 1\<rparr>)" if "?n = 0"
    using assms(1) that t(2) trie_keys_finite [OF wf] keys by (simp add: tws_inv_def trie_keys_def)
  moreover have "tws_inv (w\<lparr>inner := t\<rparr>)" if "?n \<noteq> 0"
    using assms(1) that t(2) keys by (simp add: tws_inv_def trie_keys_def insert_absorb)
  moreover have "tws_count (w\<lparr>inner := t\<rparr>) = (tws_count w)(p := tws_count w p + 1)"
    "tws_count (w\<lparr>inner := t, num_prefixes := k\<rparr>) = (tws_count w)(p := tws_count w p + 1)" for k
    using t(3) suc by (auto simp: tws_count_def)
  ultimately show ?thesis
    using t(1) by (cases "?n = 0") (simp_all add: tws_add_def tws_count_zero)
qed

lemma tws_rm_ok:
  assumes "tws_inv w"
  shows "\<exists>w'. tws_rm p w = Some (w', tws_count w p = 1) \<and> tws_inv w' \<and>
    tws_count w' = (tws_count w)(p := tws_count w p - 1)"
proof -
  let ?n = "trie_count (inner w) p"
  have wf: "trie_wf (inner w)" using assms(1) by (simp add: tws_inv_def)
  obtain t where t: "trie_rm p (inner w) = Some (t, ?n = 1)" "trie_wf t"
    "trie_count t = (trie_count (inner w))(p := if ?n = 0 then 0 else ?n - 1)"
    using trie_rm_ok [OF wf] by blast
  have one: "?n = 1 \<longleftrightarrow> tws_count w p = 1" by (simp add: tws_count_def word_unat_eq_iff)
  have pred: "unat (if ?n = 0 then 0 else ?n - 1) = unat ?n - 1"
    using unat_minus_one [of ?n] by simp
  have pz: "(if ?n = 0 then 0 else ?n - 1) = 0 \<longleftrightarrow> ?n = 0 \<or> ?n = 1" by simp
  have keys: "trie_keys t = (if ?n = 1 then trie_keys (inner w) - {p} else trie_keys (inner w))"
  proof (intro set_eqI)
    fix q
    show "q \<in> trie_keys t \<longleftrightarrow> q \<in> (if ?n = 1 then trie_keys (inner w) - {p} else trie_keys (inner w))"
      unfolding trie_keys_def t(3) using pz by (cases "q = p") simp_all
  qed
  have "tws_inv (w\<lparr>inner := t, num_prefixes := num_prefixes w - 1\<rparr>)" if "?n = 1"
  proof -
    have "p \<in> trie_keys (inner w)" using that by (simp add: trie_keys_def)
    then have "card (trie_keys (inner w)) = card (trie_keys t) + 1"
      using keys that card_Suc_Diff1 [OF trie_keys_finite [OF wf]] by simp
    then show ?thesis using assms t(2) by (simp add: tws_inv_def)
  qed
  moreover have "tws_inv (w\<lparr>inner := t\<rparr>)" if "?n \<noteq> 1"
    using assms(1) that t(2) keys by (simp add: tws_inv_def)
  moreover have "tws_count (w\<lparr>inner := t\<rparr>) = (tws_count w)(p := tws_count w p - 1)"
    "tws_count (w\<lparr>inner := t, num_prefixes := k\<rparr>) = (tws_count w)(p := tws_count w p - 1)" for k
    using t(3) pred by (auto simp: tws_count_def)
  ultimately show ?thesis
    using t(1) one by (cases "?n = 1") (simp_all add: tws_rm_def)
qed

lemma tws_check_ok:
  "tws_inv w \<Longrightarrow> tws_check d w = Some (\<exists>p. prefix p d \<and> tws_count w p \<noteq> 0)"
  using trie_check_ok [of "inner w" d] by (simp add: tws_inv_def tws_check_def tws_count_zero)

lemma tws_apply_ok:
  assumes "tws_inv w"
  shows "distinct (tws_apply w) \<and> set (tws_apply w) = {p. tws_count w p \<noteq> 0} \<and>
    num_prefixes w = of_nat (length (tws_apply w))"
proof -
  have a: "set (tws_apply w) = trie_keys (inner w)" "distinct (tws_apply w)"
    using trie_apply_keys [of "inner w"] assms by (auto simp: tws_inv_def tws_apply_def)
  have "trie_keys (inner w) = {p. tws_count w p \<noteq> 0}"
    by (simp add: trie_keys_def tws_count_zero)
  moreover have "length (tws_apply w) = card (trie_keys (inner w))"
    using a distinct_card by metis
  ultimately show ?thesis using a assms by (simp add: tws_inv_def)
qed

lemmas tws_defs = tws_new_def tws_add_def tws_rm_def tws_check_def tws_apply_def new_trie_def trie_redundant_def

section \<open>The interface: a multiset of prefixes\<close>

datatype prefix_op = Op_add bytes | Op_rm bytes

fun run_prefix_ops :: "(bytes \<Rightarrow> 's \<Rightarrow> ('s \<times> bool) option) \<Rightarrow> (bytes \<Rightarrow> 's \<Rightarrow> ('s \<times> bool) option) \<Rightarrow>
    prefix_op list \<Rightarrow> 's \<Rightarrow> ('s \<times> bool list) option" where
  "run_prefix_ops add rm [] s = Some (s, [])"
| "run_prefix_ops add rm (x # xs) s =
     (case (case x of Op_add p \<Rightarrow> add p s | Op_rm p \<Rightarrow> rm p s) of
        None \<Rightarrow> None
      | Some (s', ret) \<Rightarrow> map_option (\<lambda>(s'', rets). (s'', ret # rets)) (run_prefix_ops add rm xs s'))"

text \<open>The same operations on a counting function: the counts and the returned flags.\<close>

fun spec_step :: "prefix_op \<Rightarrow> (bytes \<Rightarrow> nat) \<Rightarrow> bytes \<Rightarrow> nat" where
  "spec_step (Op_add p) f = f(p := f p + 1)"
| "spec_step (Op_rm p) f = f(p := f p - 1)"

fun spec_ret :: "prefix_op \<Rightarrow> (bytes \<Rightarrow> nat) \<Rightarrow> bool" where
  "spec_ret (Op_add p) f \<longleftrightarrow> f p = 0"
| "spec_ret (Op_rm p) f \<longleftrightarrow> f p = 1"

fun spec_counts :: "prefix_op list \<Rightarrow> (bytes \<Rightarrow> nat) \<Rightarrow> bytes \<Rightarrow> nat" where
  "spec_counts [] f = f"
| "spec_counts (x # xs) f = spec_counts xs (spec_step x f)"

fun spec_rets :: "prefix_op list \<Rightarrow> (bytes \<Rightarrow> nat) \<Rightarrow> bool list" where
  "spec_rets [] f = []"
| "spec_rets (x # xs) f = spec_ret x f # spec_rets xs (spec_step x f)"

locale prefix_multiset =
  fixes inv :: "'s \<Rightarrow> bool"
    and cnt :: "'s \<Rightarrow> bytes \<Rightarrow> nat"
    and empty :: 's
    and add :: "bytes \<Rightarrow> 's \<Rightarrow> ('s \<times> bool) option"
    and rm :: "bytes \<Rightarrow> 's \<Rightarrow> ('s \<times> bool) option"
    and check :: "bytes \<Rightarrow> 's \<Rightarrow> bool option"
  assumes inv_empty: "inv empty" and cnt_empty: "cnt empty p = 0"
    and add_law: "inv s \<Longrightarrow> cnt s p + 1 < 2 ^ 32 \<Longrightarrow>
      \<exists>s'. add p s = Some (s', cnt s p = 0) \<and> inv s' \<and> cnt s' = (cnt s)(p := cnt s p + 1)"
    and rm_law: "inv s \<Longrightarrow>
      \<exists>s'. rm p s = Some (s', cnt s p = 1) \<and> inv s' \<and> cnt s' = (cnt s)(p := cnt s p - 1)"
    and check_law: "inv s \<Longrightarrow> check d s = Some (\<exists>p. prefix p d \<and> cnt s p \<noteq> 0)"
begin

lemma step_law:
  assumes "inv s" "\<And>p. cnt s p + 1 < 2 ^ 32"
  shows "\<exists>s'. (case x of Op_add p \<Rightarrow> add p s | Op_rm p \<Rightarrow> rm p s) = Some (s', spec_ret x (cnt s)) \<and>
    inv s' \<and> cnt s' = spec_step x (cnt s)"
  using assms add_law rm_law by (cases x) simp_all

lemma run_law:
  "inv s \<Longrightarrow> (\<And>p. cnt s p + length xs < 2 ^ 32) \<Longrightarrow>
    \<exists>s'. run_prefix_ops add rm xs s = Some (s', spec_rets xs (cnt s)) \<and> inv s' \<and> cnt s' = spec_counts xs (cnt s)"
proof (induction xs arbitrary: s)
  case Nil
  then show ?case by simp
next
  case (Cons x xs)
  have "cnt s p + 1 < 2 ^ 32" for p using Cons.prems(2) [of p] by simp
  then obtain s1 where s1: "(case x of Op_add p \<Rightarrow> add p s | Op_rm p \<Rightarrow> rm p s) = Some (s1, spec_ret x (cnt s))"
    "inv s1" "cnt s1 = spec_step x (cnt s)"
    using step_law [OF Cons.prems(1)] by blast
  have "cnt s1 p + length xs < 2 ^ 32" for p
    using Cons.prems(2) [of p] s1(3) by (cases x) auto
  then obtain s2 where "run_prefix_ops add rm xs s1 = Some (s2, spec_rets xs (cnt s1))" "inv s2"
    "cnt s2 = spec_counts xs (cnt s1)"
    using Cons.IH [OF s1(2)] by blast
  then show ?case using s1 by (simp only: run_prefix_ops.simps) simp
qed

lemma run_from_empty:
  assumes "length xs < 2 ^ 32"
  shows "\<exists>s. run_prefix_ops add rm xs empty = Some (s, spec_rets xs (\<lambda>_. 0)) \<and> inv s \<and>
    cnt s = spec_counts xs (\<lambda>_. 0) \<and>
    (\<forall>d. check d s = Some (\<exists>p. prefix p d \<and> spec_counts xs (\<lambda>_. 0) p \<noteq> 0))"
proof -
  have z: "cnt empty = (\<lambda>_. 0)" using cnt_empty by blast
  have "cnt empty p + length xs < 2 ^ 32" for p using assms by (simp add: z)
  then obtain s where "run_prefix_ops add rm xs empty = Some (s, spec_rets xs (\<lambda>_. 0))" "inv s"
    "cnt s = spec_counts xs (\<lambda>_. 0)"
    using run_law [OF inv_empty, of xs] unfolding z by blast
  then show ?thesis using check_law [of s] by simp
qed

end

interpretation tws: prefix_multiset tws_inv tws_count tws_new tws_add tws_rm tws_check
  using tws_new_inv tws_add_ok tws_rm_ok tws_check_ok by unfold_locales

text \<open>C3. The subscription trie refines a multiset of prefixes: after any history of fewer than
  2^32 \<^verbatim>\<open>add\<close> and \<^verbatim>\<open>rm\<close> calls on an empty trie no assertion has failed, every call returned whether
  the prefix was new (\<^verbatim>\<open>add\<close>) or gone (\<^verbatim>\<open>rm\<close>), and \<^verbatim>\<open>check\<close> accepts a message exactly when a prefix
  of it is in the multiset.\<close>

theorem trie_refines_multiset:
  assumes "length ops < 2 ^ 32"
  shows "\<exists>w. run_prefix_ops tws_add tws_rm ops tws_new = Some (w, spec_rets ops (\<lambda>_. 0)) \<and>
    tws_count w = spec_counts ops (\<lambda>_. 0) \<and>
    (\<forall>d. tws_check d w = Some (\<exists>p. prefix p d \<and> spec_counts ops (\<lambda>_. 0) p \<noteq> 0))"
  using tws.run_from_empty [OF assms] by blast

theorem trie_refines_multiset_witness:
  "\<exists>w. run_prefix_ops tws_add tws_rm [Op_add [1, 2], Op_add [1, 2], Op_add [1, 9], Op_rm [1, 9]] tws_new =
      Some (w, [True, False, True, True]) \<and> tws_check [1, 2, 3] w = Some True"
proof -
  let ?ops = "[Op_add [1, 2], Op_add [1, 2], Op_add [1, 9], Op_rm [1, 9]]"
  obtain w where w: "run_prefix_ops tws_add tws_rm ?ops tws_new = Some (w, spec_rets ?ops (\<lambda>_. 0))"
    "\<And>d. tws_check d w = Some (\<exists>p. prefix p d \<and> spec_counts ?ops (\<lambda>_. 0) p \<noteq> 0)"
    using trie_refines_multiset [of ?ops] by auto
  have "prefix [1, 2] [1, 2, 3 :: byte] \<and> spec_counts ?ops (\<lambda>_. 0) [1, 2] \<noteq> 0" by simp
  then have "\<exists>p. prefix p [1, 2, 3] \<and> spec_counts ?ops (\<lambda>_. 0) p \<noteq> 0" by blast
  then have "tws_check [1, 2, 3] w = Some True" by (simp only: w(2))
  moreover have "spec_rets ?ops (\<lambda>_. 0) = [True, False, True, True]" by simp
  ultimately show ?thesis using w(1) by metis
qed

text \<open>C8. In every reachable trie the enumeration \<^verbatim>\<open>apply\<close> makes visits each stored prefix exactly
  once, and \<^verbatim>\<open>num_prefixes\<close> is the number of distinct prefixes.\<close>

theorem trie_apply_enumerates:
  assumes "length ops < 2 ^ 32" and "run_prefix_ops tws_add tws_rm ops tws_new = Some (w, rets)"
  shows "distinct (tws_apply w) \<and> set (tws_apply w) = {p. spec_counts ops (\<lambda>_. 0) p \<noteq> 0} \<and>
    num_prefixes w = of_nat (length (tws_apply w))"
proof -
  obtain s where s: "run_prefix_ops tws_add tws_rm ops tws_new = Some (s, spec_rets ops (\<lambda>_. 0))" "tws_inv s"
    "tws_count s = spec_counts ops (\<lambda>_. 0)"
    using tws.run_from_empty [OF assms(1)] by blast
  then have "s = w" using assms(2) by simp
  then show ?thesis using tws_apply_ok [OF s(2)] s(3) by simp
qed

theorem trie_apply_enumerates_witness:
  "\<exists>w. run_prefix_ops tws_add tws_rm [Op_add [1, 2], Op_add [1], Op_add [2]] tws_new = Some (w, [True, True, True]) \<and>
    tws_apply w = [[1], [1, 2], [2]] \<and> num_prefixes w = of_nat (length (tws_apply w))"
proof -
  let ?ops = "[Op_add [1, 2], Op_add [1], Op_add [2]] :: prefix_op list"
  have "map_option (\<lambda>(w, r). (tws_apply w, r)) (run_prefix_ops tws_add tws_rm ?ops tws_new) =
      Some ([[1], [1, 2], [2]], [True, True, True])"
    by (simp add: tws_defs tbl_defs)
  then obtain w where w: "run_prefix_ops tws_add tws_rm ?ops tws_new = Some (w, [True, True, True])"
    "tws_apply w = [[1], [1, 2], [2]]"
    by auto
  then show ?thesis using trie_apply_enumerates [of ?ops w "[True, True, True]"] by auto
qed

end
