(* ===== verification/Glob.thy ===== *)
theory Glob
  imports Msg
begin

text \<open>
  Glob patterns (\<^verbatim>\<open>src/src/pattern/glob_pattern.cpp\<close>): compilation of a pattern string into segments and the
  backtracking matcher, shown to decide the language of the pattern. Patterns and data are byte strings; a
  position in the string is the rest of the string from there, an exception its message (\<^const>\<open>Inl\<close>).
\<close>

datatype segment =
    LITERAL byte
  | STAR
  | QUESTION
  | CHAR_CLASS (char_set: bytes) (char_ranges: "(byte \<times> byte) list") (negate: bool)

definition star_char :: byte where "star_char = 42"
definition question_char :: byte where "question_char = 63"
definition open_char :: byte where "open_char = 91"
definition close_char :: byte where "close_char = 93"
definition escape_char :: byte where "escape_char = 92"
definition caret_char :: byte where "caret_char = 94"
definition bang_char :: byte where "bang_char = 33"
definition minus_char :: byte where "minus_char = 45"

lemmas char_defs = star_char_def question_char_def open_char_def close_char_def escape_char_def
  caret_char_def bang_char_def minus_char_def

definition unterminated :: string where "unterminated = ''Unterminated character class''"
definition invalid_range :: string where "invalid_range = ''Invalid character range''"

text \<open>The loop over the contents of a class, up to the closing bracket.\<close>

fun parse_class :: "bytes \<Rightarrow> bytes \<Rightarrow> (byte \<times> byte) list \<Rightarrow> string + (bytes \<times> (byte \<times> byte) list \<times> bytes)" where
  "parse_class [] cs rs = Inl unterminated"
| "parse_class (ch # xs) cs rs =
     (if ch = close_char then Inr (cs, rs, xs)
      else case xs of
        d # e # rest \<Rightarrow>
          if d = minus_char \<and> e \<noteq> close_char
          then if ch > e then Inl invalid_range else parse_class rest cs (rs @ [(ch, e)])
          else parse_class xs (cs @ [ch]) rs
      | _ \<Rightarrow> parse_class xs (cs @ [ch]) rs)"

text \<open>\<^verbatim>\<open>parse_char_class\<close>, from the position after the opening bracket; the result is the segment and
  the rest after the closing bracket.\<close>

definition parse_char_class :: "bytes \<Rightarrow> string + (segment \<times> bytes)" where
  "parse_char_class xs =
     (case xs of
        [] \<Rightarrow> Inl unterminated
      | x # ys \<Rightarrow>
          let neg = (x = caret_char \<or> x = bang_char) in
          case parse_class (if neg then ys else xs) [] [] of
            Inl e \<Rightarrow> Inl e
          | Inr (cs, rs, rest) \<Rightarrow> Inr (CHAR_CLASS cs rs neg, rest))"

lemma parse_class_length:
  "parse_class xs cs rs = Inr (cs', rs', rest) \<Longrightarrow> length rest < length xs"
  by (induction xs cs rs rule: parse_class.induct) (auto split: list.splits if_splits)

lemma parse_char_class_length [termination_simp]:
  assumes "parse_char_class xs = Inr (seg, rest)"
  shows "length rest < length xs"
proof (cases xs)
  case (Cons x ys)
  let ?zs = "if x = caret_char \<or> x = bang_char then ys else xs"
  obtain cs rs where "parse_class ?zs [] [] = Inr (cs, rs, rest)"
    using assms Cons by (auto simp add: parse_char_class_def Let_def split: sum.splits)
  then have "length rest < length ?zs" by (rule parse_class_length)
  then show ?thesis using Cons by (simp split: if_splits)
qed (use assms in \<open>simp add: parse_char_class_def\<close>)

function glob_compile :: "bytes \<Rightarrow> string + segment list" where
  "glob_compile [] = Inr []"
| "glob_compile (ch # xs) =
     (if ch = star_char then map_sum id (Cons STAR) (glob_compile xs)
      else if ch = question_char then map_sum id (Cons QUESTION) (glob_compile xs)
      else if ch = open_char then
        (case parse_char_class xs of
           Inl e \<Rightarrow> Inl e
         | Inr (seg, rest) \<Rightarrow> map_sum id (Cons seg) (glob_compile rest))
      else if ch = escape_char \<and> xs \<noteq> [] then map_sum id (Cons (LITERAL (hd xs))) (glob_compile (tl xs))
      else map_sum id (Cons (LITERAL ch)) (glob_compile xs))"
  by pat_completeness auto
termination
  by (relation "measure length") (auto dest: parse_char_class_length)

fun char_class_match :: "byte \<Rightarrow> segment \<Rightarrow> bool" where
  "char_class_match ch (CHAR_CLASS cs rs neg) =
     (let matched = list_ex (\<lambda>c. ch = c) cs \<or> list_ex (\<lambda>(a, b). ch \<ge> a \<and> ch \<le> b) rs
      in if neg then \<not> matched else matched)"
| "char_class_match ch _ = False"

text \<open>\<^verbatim>\<open>match_impl\<close>: the segments from \<^verbatim>\<open>seg_idx\<close> on and the data from \<^verbatim>\<open>data_pos\<close> on.\<close>

fun match_impl :: "segment list \<Rightarrow> bytes \<Rightarrow> bool" where
  "match_impl [] d \<longleftrightarrow> d = []"
| "match_impl (STAR # segs) d \<longleftrightarrow>
     match_impl segs d \<or> list_ex (\<lambda>i. match_impl segs (drop (i + 1) d)) [0..<length d]"
| "match_impl (QUESTION # segs) d \<longleftrightarrow> d \<noteq> [] \<and> match_impl segs (tl d)"
| "match_impl (CHAR_CLASS cs rs neg # segs) d \<longleftrightarrow>
     d \<noteq> [] \<and> char_class_match (hd d) (CHAR_CLASS cs rs neg) \<and> match_impl segs (tl d)"
| "match_impl (LITERAL c # segs) d \<longleftrightarrow> d \<noteq> [] \<and> hd d = c \<and> match_impl segs (tl d)"

record glob_pattern =
  gp_pattern :: bytes
  gp_segments :: "segment list"
  gp_valid :: bool

definition glob_empty :: glob_pattern where
  "glob_empty = \<lparr>gp_pattern = [], gp_segments = [], gp_valid = False\<rparr>"

text \<open>The constructor, which throws what \<^verbatim>\<open>compile\<close> throws.\<close>

definition glob_new :: "bytes \<Rightarrow> string + glob_pattern" where
  "glob_new p = map_sum id (\<lambda>segs. \<lparr>gp_pattern = p, gp_segments = segs, gp_valid = True\<rparr>) (glob_compile p)"

definition glob_match :: "bytes \<Rightarrow> glob_pattern \<Rightarrow> bool" where
  "glob_match d g = (if \<not> gp_valid g then False else match_impl (gp_segments g) d)"

section \<open>The language of a pattern\<close>

text \<open>What the documentation promises of each kind of segment.\<close>

fun seg_lang :: "segment \<Rightarrow> bytes set" where
  "seg_lang STAR = UNIV"
| "seg_lang QUESTION = {[b] |b. True}"
| "seg_lang (LITERAL c) = {[c]}"
| "seg_lang (CHAR_CLASS cs rs neg) =
     {[b] |b. (b \<in> set cs \<or> (\<exists>(lo, hi)\<in>set rs. lo \<le> b \<and> b \<le> hi)) \<noteq> neg}"

fun glob_lang :: "segment list \<Rightarrow> bytes set" where
  "glob_lang [] = {[]}"
| "glob_lang (s # ss) = {x @ y |x y. x \<in> seg_lang s \<and> y \<in> glob_lang ss}"

lemma drop_ex_suffix: "(\<exists>x y. d = x @ y \<and> P y) \<longleftrightarrow> P d \<or> (\<exists>i<length d. P (drop (i + 1) d))"
proof
  assume "\<exists>x y. d = x @ y \<and> P y"
  then obtain x y where d: "d = x @ y" "P y" by blast
  show "P d \<or> (\<exists>i<length d. P (drop (i + 1) d))"
  proof (cases x rule: rev_cases)
    case Nil
    then show ?thesis using d by simp
  next
    case (snoc x' b)
    then show ?thesis using d by (intro disjI2 exI [of _ "length x'"]) simp
  qed
next
  assume "P d \<or> (\<exists>i<length d. P (drop (i + 1) d))"
  then show "\<exists>x y. d = x @ y \<and> P y" by (metis append_Nil append_take_drop_id)
qed

text \<open>A segment that stands for one byte matches the first byte and leaves the rest.\<close>

lemma glob_lang_one:
  assumes "seg_lang s = {[b] |b. P b}"
  shows "d \<in> glob_lang (s # ss) \<longleftrightarrow> d \<noteq> [] \<and> P (hd d) \<and> tl d \<in> glob_lang ss"
  using assms by (cases d) (auto intro: exI [of _ "[hd d]"])

lemma glob_lang_star:
  "d \<in> glob_lang (STAR # ss) \<longleftrightarrow>
   d \<in> glob_lang ss \<or> (\<exists>i<length d. drop (i + 1) d \<in> glob_lang ss)"
proof -
  have "d \<in> glob_lang (STAR # ss) \<longleftrightarrow> (\<exists>x y. d = x @ y \<and> y \<in> glob_lang ss)" by auto
  also have "\<dots> \<longleftrightarrow> d \<in> glob_lang ss \<or> (\<exists>i<length d. drop (i + 1) d \<in> glob_lang ss)"
    by (rule drop_ex_suffix)
  finally show ?thesis .
qed

lemma seg_lang_literal: "seg_lang (LITERAL c) = {[b] |b. b = c}"
  by simp

lemma seg_lang_class: "seg_lang (CHAR_CLASS cs rs neg) = {[b] |b. char_class_match b (CHAR_CLASS cs rs neg)}"
  by (auto simp: list_ex_iff Let_def)

lemmas glob_lang_simps =
  glob_lang_star
  glob_lang_one [OF seg_lang.simps(2)]
  glob_lang_one [OF seg_lang_literal]
  glob_lang_one [OF seg_lang_class]

lemma match_impl_lang: "match_impl segs d \<longleftrightarrow> d \<in> glob_lang segs"
  by (induction segs d rule: match_impl.induct)
    (simp_all add: glob_lang_simps list_ex_iff Bex_def del: glob_lang.simps(2) char_class_match.simps)

section \<open>Quoting\<close>

text \<open>A byte string with every byte escaped; the pattern of exactly that string.\<close>

definition glob_quote :: "bytes \<Rightarrow> bytes" where
  "glob_quote s = concat (map (\<lambda>b. [escape_char, b]) s)"

definition special_char :: "byte \<Rightarrow> bool" where
  "special_char b \<longleftrightarrow> b \<in> {star_char, question_char, open_char, escape_char}"

lemma glob_compile_quote: "glob_compile (glob_quote s) = Inr (map LITERAL s)"
  by (induction s) (simp_all add: glob_quote_def char_defs)

lemma glob_compile_plain: "\<forall>b\<in>set s. \<not> special_char b \<Longrightarrow> glob_compile s = Inr (map LITERAL s)"
  by (induction s) (simp_all add: special_char_def)

lemma glob_lang_literals: "glob_lang (map LITERAL s) = {s}"
  by (induction s) auto






lemma map_sum_id_Inl [simp]: "map_sum id f r = Inl e \<longleftrightarrow> r = Inl e"
  by (cases r) auto

lemma map_sum_id_Inr: "map_sum id f r = Inr y \<longleftrightarrow> (\<exists>x. r = Inr x \<and> y = f x)"
  by (cases r) auto


section \<open>Patterns as they are written\<close>

text \<open>The text of a list of segments in the documented syntax, and which segments have one: the contents
  of a class avoid the bytes that its syntax gives a meaning.\<close>

definition range_text :: "byte \<times> byte \<Rightarrow> bytes" where
  "range_text r = [fst r, minus_char, snd r]"

fun seg_text :: "segment \<Rightarrow> bytes" where
  "seg_text STAR = [star_char]"
| "seg_text QUESTION = [question_char]"
| "seg_text (LITERAL b) = (if special_char b then [escape_char, b] else [b])"
| "seg_text (CHAR_CLASS cs rs neg) =
     [open_char] @ (if neg then [caret_char] else []) @ cs @ concat (map range_text rs) @ [close_char]"

definition plain_class_char :: "byte \<Rightarrow> bool" where
  "plain_class_char b \<longleftrightarrow> b \<notin> {close_char, minus_char, caret_char, bang_char}"

definition plain_range :: "byte \<times> byte \<Rightarrow> bool" where
  "plain_range r \<longleftrightarrow> plain_class_char (fst r) \<and> snd r \<noteq> close_char \<and> fst r \<le> snd r"

fun seg_writable :: "segment \<Rightarrow> bool" where
  "seg_writable (CHAR_CLASS cs rs neg) \<longleftrightarrow> list_all plain_class_char cs \<and> list_all plain_range rs"
| "seg_writable _ \<longleftrightarrow> True"

definition glob_text :: "segment list \<Rightarrow> bytes" where
  "glob_text segs = concat (map seg_text segs)"

lemma parse_class_ranges:
  "list_all plain_range rs' \<Longrightarrow>
   parse_class (concat (map range_text rs') @ close_char # rest) cs rs = Inr (cs, rs @ rs', rest)"
  by (induction rs' arbitrary: rs) (auto simp: plain_range_def plain_class_char_def range_text_def)

lemma parse_class_single:
  "c \<noteq> close_char \<Longrightarrow> hd xs \<noteq> minus_char \<Longrightarrow> parse_class (c # xs) cs rs = parse_class xs (cs @ [c]) rs"
  by (subst parse_class.simps) (auto split: list.split simp del: parse_class.simps)

lemma parse_class_text:
  "list_all plain_class_char cs' \<Longrightarrow> list_all plain_range rs' \<Longrightarrow>
   parse_class (cs' @ concat (map range_text rs') @ close_char # rest) cs rs = Inr (cs @ cs', rs @ rs', rest)"
proof (induction cs' arbitrary: cs)
  case Nil
  then show ?case by (simp add: parse_class_ranges)
next
  case (Cons c cs')
  let ?xs = "cs' @ concat (map range_text rs') @ close_char # rest"
  have hd: "hd ?xs \<noteq> minus_char"
    using Cons.prems
    by (cases cs'; cases rs') (auto simp: plain_class_char_def plain_range_def range_text_def char_defs)
  have c: "c \<noteq> close_char" using Cons.prems by (simp add: plain_class_char_def)
  have "parse_class (c # ?xs) cs rs = parse_class ?xs (cs @ [c]) rs"
    using c hd by (rule parse_class_single)
  then show ?case using Cons by (simp del: parse_class.simps)
qed

lemma parse_char_class_text:
  assumes "seg_writable (CHAR_CLASS cs rs neg)"
  shows "parse_char_class (tl (seg_text (CHAR_CLASS cs rs neg)) @ rest) = Inr (CHAR_CLASS cs rs neg, rest)"
proof -
  let ?xs = "cs @ concat (map range_text rs) @ close_char # rest"
  have *: "parse_class ?xs [] [] = Inr (cs, rs, rest)" using assms parse_class_text [of cs rs rest "[]" "[]"] by simp
  have hd: "hd ?xs \<noteq> caret_char \<and> hd ?xs \<noteq> bang_char"
    using assms by (cases cs; cases rs) (auto simp: plain_class_char_def plain_range_def range_text_def char_defs)
  obtain x ys where xs: "?xs = x # ys" by (cases ?xs) auto
  then show ?thesis using * hd by (cases neg) (auto simp: parse_char_class_def xs)
qed

lemma glob_compile_class:
  "parse_char_class xs = Inr (seg, rest) \<Longrightarrow>
   glob_compile (open_char # xs) = map_sum id (Cons seg) (glob_compile rest)"
  by (simp add: char_defs)

lemma glob_compile_text: "list_all seg_writable segs \<Longrightarrow> glob_compile (glob_text segs) = Inr segs"
proof (induction segs)
  case (Cons s segs)
  have IH: "glob_compile (glob_text segs) = Inr segs" using Cons by simp
  have split: "glob_text (s # segs) = seg_text s @ glob_text segs" by (simp add: glob_text_def)
  show ?case
  proof (cases s)
    case (CHAR_CLASS cs rs neg)
    have "parse_char_class (tl (seg_text s) @ glob_text segs) = Inr (s, glob_text segs)"
      using Cons.prems CHAR_CLASS parse_char_class_text [of cs rs neg] by simp
    moreover have "seg_text s = open_char # tl (seg_text s)" using CHAR_CLASS by simp
    ultimately show ?thesis
      using IH split glob_compile_class [of "tl (seg_text s) @ glob_text segs"] by (metis append_Cons map_sum.simps(2))
  qed (use IH split in \<open>auto simp: special_char_def char_defs\<close>)
qed (simp add: glob_text_def)

section \<open>Properties\<close>

text \<open>C13. A pattern written in the documented syntax (stars, question marks, classes with ranges and
  negation, literals with their special characters escaped) compiles, and \<^verbatim>\<open>match\<close> then accepts exactly
  the strings that the pattern describes.\<close>

theorem glob_match_decides_language:
  assumes "list_all seg_writable segs"
  shows "\<exists>g. glob_new (glob_text segs) = Inr g \<and> (\<forall>d. glob_match d g \<longleftrightarrow> d \<in> glob_lang segs)"
  using glob_compile_text [OF assms] by (simp add: glob_new_def glob_match_def match_impl_lang)

theorem glob_match_decides_language_witness:
  "\<exists>g. glob_new (glob_text [LITERAL 97, STAR, CHAR_CLASS [98] [(48, 57)] True, QUESTION]) = Inr g \<and>
       (\<forall>d. glob_match d g \<longleftrightarrow> d \<in> glob_lang [LITERAL 97, STAR, CHAR_CLASS [98] [(48, 57)] True, QUESTION])"
  by (rule glob_match_decides_language) (simp add: plain_class_char_def plain_range_def char_defs)


end
