(* ===== verification/Pattern_Trie.thy ===== *)
theory Pattern_Trie
  imports Glob
begin

text \<open>
  The reference-counted list of glob patterns of a subscriber (\<^verbatim>\<open>src/src/pattern/pattern_trie.cpp\<close>), shown to
  keep a multiset of the patterns that compile. Each operation holds the mutex from its first to its last
  access, so it is one step on the state.
\<close>

record pattern_entry =
  pe_pattern :: bytes
  pe_matcher :: glob_pattern
  pe_refcount :: u32

type_synonym pattern_trie = "pattern_entry list"

definition pattern_entry_new :: "bytes \<Rightarrow> string + pattern_entry" where
  "pattern_entry_new p = map_sum id (\<lambda>g. \<lparr>pe_pattern = p, pe_matcher = g, pe_refcount = 1\<rparr>) (glob_new p)"

text \<open>The position \<^verbatim>\<open>std::find_if\<close> returns; the length of the list is \<^verbatim>\<open>end()\<close>.\<close>

definition find_pattern :: "bytes \<Rightarrow> pattern_trie \<Rightarrow> nat" where
  "find_pattern p t = length (takeWhile (\<lambda>e. pe_pattern e \<noteq> p) t)"

definition pattern_add :: "bytes \<Rightarrow> pattern_trie \<Rightarrow> pattern_trie \<times> bool" where
  "pattern_add p t =
     (let it = find_pattern p t in
      if it \<noteq> length t then (t[it := (t ! it)\<lparr>pe_refcount := pe_refcount (t ! it) + 1\<rparr>], False)
      else case pattern_entry_new p of
        Inl e \<Rightarrow> (t, False)
      | Inr entry \<Rightarrow> (t @ [entry], True))"

definition pattern_rm :: "bytes \<Rightarrow> pattern_trie \<Rightarrow> pattern_trie \<times> bool" where
  "pattern_rm p t =
     (let it = find_pattern p t in
      if it = length t then (t, False)
      else
        let entry = (t ! it)\<lparr>pe_refcount := pe_refcount (t ! it) - 1\<rparr> in
        if pe_refcount entry = 0 then (take it t @ drop (it + 1) t, True)
        else (t[it := entry], True))"

definition pattern_check :: "bytes \<Rightarrow> pattern_trie \<Rightarrow> bool" where
  "pattern_check d t = list_ex (\<lambda>entry. glob_match d (pe_matcher entry)) t"

definition num_patterns :: "pattern_trie \<Rightarrow> nat" where
  "num_patterns t = length t"

text \<open>\<^verbatim>\<open>apply\<close> calls its function on each stored pattern, in order: the fold of the function over the list.\<close>

definition pattern_apply :: "(bytes \<Rightarrow> 'a \<Rightarrow> 'a) \<Rightarrow> pattern_trie \<Rightarrow> 'a \<Rightarrow> 'a" where
  "pattern_apply f t arg = fold (\<lambda>entry. f (pe_pattern entry)) t arg"

section \<open>The multiset of patterns\<close>

definition pattern_count :: "pattern_trie \<Rightarrow> bytes \<Rightarrow> nat" where
  "pattern_count t p = sum_list (map (\<lambda>e. if pe_pattern e = p then unat (pe_refcount e) else 0) t)"

definition pattern_inv :: "pattern_trie \<Rightarrow> bool" where
  "pattern_inv t \<longleftrightarrow> distinct (map pe_pattern t) \<and>
     (\<forall>e\<in>set t. pe_refcount e \<noteq> 0 \<and> glob_new (pe_pattern e) = Inr (pe_matcher e))"

definition pattern_valid :: "bytes \<Rightarrow> bool" where
  "pattern_valid p = (case glob_new p of Inl _ \<Rightarrow> False | Inr _ \<Rightarrow> True)"

definition pattern_matches :: "bytes \<Rightarrow> bytes \<Rightarrow> bool" where
  "pattern_matches p d = (case glob_new p of Inl _ \<Rightarrow> False | Inr g \<Rightarrow> glob_match d g)"

lemma pattern_count_simps [simp]:
  "pattern_count [] = (\<lambda>_. 0)"
  "pattern_count (e # t) p = (if pe_pattern e = p then unat (pe_refcount e) else 0) + pattern_count t p"
  "pattern_count (t @ u) p = pattern_count t p + pattern_count u p"
  by (auto simp: pattern_count_def)

lemma pattern_count_notin [simp]: "p \<notin> pe_pattern ` set t \<Longrightarrow> pattern_count t p = 0"
  by (induction t) auto

lemma pattern_count_zero_iff: "pattern_inv t \<Longrightarrow> pattern_count t p = 0 \<longleftrightarrow> p \<notin> pe_pattern ` set t"
  by (induction t) (auto simp: pattern_inv_def unat_eq_0)

lemma find_pattern_notin: "p \<notin> pe_pattern ` set t \<Longrightarrow> find_pattern p t = length t"
  by (induction t) (auto simp: find_pattern_def)

lemma find_pattern_split:
  assumes "p \<in> pe_pattern ` set t"
  obtains xs e ys where "t = xs @ e # ys" "pe_pattern e = p" "p \<notin> pe_pattern ` set xs" "find_pattern p t = length xs"
proof -
  obtain xs e ys where s: "t = xs @ e # ys" "pe_pattern e = p" "\<forall>x\<in>set xs. pe_pattern x \<noteq> p"
    using assms split_list_first_prop [of t "\<lambda>e. pe_pattern e = p"] by blast
  then have "find_pattern p t = length xs" by (simp add: find_pattern_def takeWhile_append2 cong: takeWhile_cong)
  moreover have "p \<notin> pe_pattern ` set xs" using s(3) by auto
  ultimately show ?thesis using that s(1,2) by blast
qed

lemma pattern_add_law:
  assumes "pattern_inv t" "pattern_count t p + 1 < 2 ^ 32"
  shows "snd (pattern_add p t) = (pattern_valid p \<and> pattern_count t p = 0) \<and>
    pattern_inv (fst (pattern_add p t)) \<and>
    pattern_count (fst (pattern_add p t)) =
      (if pattern_valid p then (pattern_count t)(p := pattern_count t p + 1) else pattern_count t)" (is "?P")
proof (cases "p \<in> pe_pattern ` set t")
  case True
  then obtain xs e ys where s: "t = xs @ e # ys" "pe_pattern e = p" "p \<notin> pe_pattern ` set xs" "find_pattern p t = length xs"
    by (rule find_pattern_split)
  have v: "pattern_valid p" using assms(1) s(1,2) by (auto simp: pattern_inv_def pattern_valid_def)
  have ny: "p \<notin> pe_pattern ` set ys" using assms(1) s(1,2) by (auto simp: pattern_inv_def)
  have c: "pattern_count t p = unat (pe_refcount e)" using s ny by simp
  have u: "unat (pe_refcount e + 1) = unat (pe_refcount e) + 1"
    using assms(2) c by (simp add: unat_word_ariths)
  then have nz: "pe_refcount e + 1 \<noteq> 0" by (metis add_is_0 one_neq_zero unat_0)
  have add: "pattern_add p t = (xs @ e\<lparr>pe_refcount := pe_refcount e + 1\<rparr> # ys, False)"
    using s by (simp add: pattern_add_def Let_def)
  show ?P using assms(1) v s(1-3) ny u nz c unfolding add by (auto simp: pattern_inv_def unat_eq_0)
next
  case False
  then have n: "find_pattern p t = length t" "pattern_count t p = 0" by (simp_all add: find_pattern_notin)
  then show ?P using assms(1) False
    by (auto simp: pattern_add_def pattern_entry_new_def pattern_valid_def pattern_inv_def split: sum.splits)
qed

lemma pattern_rm_law:
  assumes "pattern_inv t"
  shows "snd (pattern_rm p t) = (pattern_count t p \<noteq> 0) \<and> pattern_inv (fst (pattern_rm p t)) \<and>
    pattern_count (fst (pattern_rm p t)) = (pattern_count t)(p := pattern_count t p - 1)"
proof (cases "p \<in> pe_pattern ` set t")
  case True
  then obtain xs e ys where s: "t = xs @ e # ys" "pe_pattern e = p" "p \<notin> pe_pattern ` set xs" "find_pattern p t = length xs"
    by (rule find_pattern_split)
  have ny: "p \<notin> pe_pattern ` set ys" using assms s(1,2) by (auto simp: pattern_inv_def)
  have nz: "pe_refcount e \<noteq> 0" using assms s(1) by (simp add: pattern_inv_def)
  have u: "unat (pe_refcount e - 1) = unat (pe_refcount e) - 1" using nz by (simp add: unat_minus_one)
  have rm: "pattern_rm p t =
      (if pe_refcount e - 1 = 0 then xs @ ys else xs @ e\<lparr>pe_refcount := pe_refcount e - 1\<rparr> # ys, True)"
    using s by (simp add: pattern_rm_def Let_def)
  have one: "pe_refcount e - 1 = 0 \<longleftrightarrow> pe_refcount e = 1" by auto
  show ?thesis using assms s(1-3) ny nz u unfolding rm by (auto simp: pattern_inv_def unat_eq_0 one)
next
  case False
  then show ?thesis using assms by (auto simp add: pattern_rm_def find_pattern_notin)
qed

lemma pattern_check_law:
  assumes "pattern_inv t"
  shows "pattern_check d t \<longleftrightarrow> (\<exists>p. pattern_count t p \<noteq> 0 \<and> pattern_matches p d)"
proof -
  have m: "glob_match d (pe_matcher e) = pattern_matches (pe_pattern e) d" if "e \<in> set t" for e
    using assms that by (simp add: pattern_inv_def pattern_matches_def)
  show ?thesis using m by (auto simp: pattern_check_def list_ex_iff pattern_count_zero_iff [OF assms])
qed

section \<open>Histories of operations\<close>

datatype pattern_op = Pattern_add bytes | Pattern_rm bytes

fun pattern_spec :: "(bytes \<Rightarrow> bool) \<Rightarrow> pattern_op \<Rightarrow> (bytes \<Rightarrow> nat) \<Rightarrow> (bytes \<Rightarrow> nat) \<times> bool" where
  "pattern_spec ok (Pattern_add p) c = (if ok p then (c(p := c p + 1), c p = 0) else (c, False))"
| "pattern_spec ok (Pattern_rm p) c = (c(p := c p - 1), c p \<noteq> 0)"

fun pattern_spec_run :: "(bytes \<Rightarrow> bool) \<Rightarrow> pattern_op list \<Rightarrow> (bytes \<Rightarrow> nat) \<Rightarrow> (bytes \<Rightarrow> nat) \<times> bool list" where
  "pattern_spec_run ok [] c = (c, [])"
| "pattern_spec_run ok (x # xs) c =
     (let (c', r) = pattern_spec ok x c; (c'', rs) = pattern_spec_run ok xs c' in (c'', r # rs))"

fun pattern_run :: "(bytes \<Rightarrow> 's \<Rightarrow> 's \<times> bool) \<Rightarrow> (bytes \<Rightarrow> 's \<Rightarrow> 's \<times> bool) \<Rightarrow> pattern_op list \<Rightarrow> 's \<Rightarrow> 's \<times> bool list" where
  "pattern_run add rm [] s = (s, [])"
| "pattern_run add rm (x # xs) s =
     (let (s', r) = (case x of Pattern_add p \<Rightarrow> add p s | Pattern_rm p \<Rightarrow> rm p s);
          (s'', rs) = pattern_run add rm xs s'
      in (s'', r # rs))"

text \<open>What a subscriber relies on: a store of patterns that counts the valid ones.\<close>

locale pattern_multiset =
  fixes inv :: "'s \<Rightarrow> bool"
    and cnt :: "'s \<Rightarrow> bytes \<Rightarrow> nat"
    and ok :: "bytes \<Rightarrow> bool"
    and matches :: "bytes \<Rightarrow> bytes \<Rightarrow> bool"
    and empty :: 's
    and add :: "bytes \<Rightarrow> 's \<Rightarrow> 's \<times> bool"
    and rm :: "bytes \<Rightarrow> 's \<Rightarrow> 's \<times> bool"
    and check :: "bytes \<Rightarrow> 's \<Rightarrow> bool"
  assumes inv_empty: "inv empty" and cnt_empty: "cnt empty = (\<lambda>_. 0)"
    and add_law: "inv s \<Longrightarrow> cnt s p + 1 < 2 ^ 32 \<Longrightarrow>
      snd (add p s) = (ok p \<and> cnt s p = 0) \<and> inv (fst (add p s)) \<and>
      cnt (fst (add p s)) = (if ok p then (cnt s)(p := cnt s p + 1) else cnt s)"
    and rm_law: "inv s \<Longrightarrow>
      snd (rm p s) = (cnt s p \<noteq> 0) \<and> inv (fst (rm p s)) \<and> cnt (fst (rm p s)) = (cnt s)(p := cnt s p - 1)"
    and check_law: "inv s \<Longrightarrow> check d s \<longleftrightarrow> (\<exists>p. cnt s p \<noteq> 0 \<and> matches p d)"
begin

lemma pattern_step_law:
  assumes "inv s" "\<And>p. cnt s p + 1 < 2 ^ 32"
  obtains s' r where "(case x of Pattern_add p \<Rightarrow> add p s | Pattern_rm p \<Rightarrow> rm p s) = (s', r)"
    "inv s'" "pattern_spec ok x (cnt s) = (cnt s', r)"
proof (cases x)
  case (Pattern_add p)
  obtain s' r where "add p s = (s', r)" by fastforce
  then show ?thesis using that [of s' r] add_law [OF assms(1) assms(2) [of p]] Pattern_add
    by (simp split: if_splits)
next
  case (Pattern_rm p)
  obtain s' r where "rm p s = (s', r)" by fastforce
  then show ?thesis using that [of s' r] rm_law [OF assms(1), of p] Pattern_rm by simp
qed

lemma pattern_run_law:
  "inv s \<Longrightarrow> (\<And>p. cnt s p + length xs < 2 ^ 32) \<Longrightarrow>
   \<exists>s' rs. pattern_run add rm xs s = (s', rs) \<and> inv s' \<and> pattern_spec_run ok xs (cnt s) = (cnt s', rs)"
proof (induction xs arbitrary: s)
  case (Cons x xs)
  have "cnt s p + 1 < 2 ^ 32" for p using Cons.prems(2) [of p] by simp
  then obtain s1 r where s1: "(case x of Pattern_add p \<Rightarrow> add p s | Pattern_rm p \<Rightarrow> rm p s) = (s1, r)"
    "inv s1" "pattern_spec ok x (cnt s) = (cnt s1, r)"
    using pattern_step_law [OF Cons.prems(1)] by blast
  have "cnt s1 p + length xs < 2 ^ 32" for p
    using Cons.prems(2) [of p] s1(3) by (cases x) (auto split: if_splits dest!: sym [of _ "cnt s1"])
  then obtain s2 rs where "pattern_run add rm xs s1 = (s2, rs)" "inv s2" "pattern_spec_run ok xs (cnt s1) = (cnt s2, rs)"
    using Cons.IH [OF s1(2)] by blast
  then show ?case using s1 by simp
qed simp

lemma pattern_run_from_empty:
  assumes "length xs < 2 ^ 32"
  shows "\<exists>s rs. pattern_run add rm xs empty = (s, rs) \<and> pattern_spec_run ok xs (\<lambda>_. 0) = (cnt s, rs) \<and>
    (\<forall>d. check d s \<longleftrightarrow> (\<exists>p. cnt s p \<noteq> 0 \<and> matches p d))"
  using pattern_run_law [OF inv_empty, of xs] assms cnt_empty check_law by auto

end

interpretation pt: pattern_multiset pattern_inv pattern_count pattern_valid pattern_matches "[]"
  pattern_add pattern_rm pattern_check
  by unfold_locales
    (simp_all add: pattern_add_law pattern_rm_law pattern_check_law, simp_all add: pattern_inv_def)

text \<open>C14. After any history of fewer than 2^32 \<^verbatim>\<open>add\<close> and \<^verbatim>\<open>rm\<close> calls the pattern list holds the multiset
  of the patterns that compile, every call returned whether a valid pattern was new (\<^verbatim>\<open>add\<close>) or present
  (\<^verbatim>\<open>rm\<close>), and \<^verbatim>\<open>check\<close> accepts a message exactly when a pattern of the multiset matches it.\<close>

theorem pattern_trie_refines_multiset:
  assumes "length ops < 2 ^ 32"
  shows "\<exists>t rs. pattern_run pattern_add pattern_rm ops [] = (t, rs) \<and>
    pattern_spec_run pattern_valid ops (\<lambda>_. 0) = (pattern_count t, rs) \<and>
    (\<forall>d. pattern_check d t \<longleftrightarrow> (\<exists>p. pattern_count t p \<noteq> 0 \<and> pattern_matches p d))"
  by (rule pt.pattern_run_from_empty [OF assms])

theorem pattern_trie_refines_multiset_witness:
  "\<exists>t rs. pattern_run pattern_add pattern_rm [Pattern_add [97, 42], Pattern_add [97, 42], Pattern_add [91], Pattern_rm [97, 42]] [] = (t, rs) \<and>
    rs = [True, False, False, True] \<and> pattern_count t [97, 42] = 1 \<and> pattern_check [97, 98] t"
proof -
  let ?ops = "[Pattern_add [97, 42], Pattern_add [97, 42], Pattern_add [91], Pattern_rm [97, 42]]"
  have v: "pattern_valid [97, 42]" "\<not> pattern_valid [91]"
    by (simp_all add: pattern_valid_def glob_new_def char_defs parse_char_class_def)
  have m: "pattern_matches [97, 42] [97, 98]"
    by (simp add: pattern_matches_def glob_new_def char_defs glob_match_def)
  have len: "length ?ops < 2 ^ 32" by simp
  obtain t rs where t: "pattern_run pattern_add pattern_rm ?ops [] = (t, rs)"
    "pattern_spec_run pattern_valid ?ops (\<lambda>_. 0) = (pattern_count t, rs)"
    "\<forall>d. pattern_check d t \<longleftrightarrow> (\<exists>p. pattern_count t p \<noteq> 0 \<and> pattern_matches p d)"
    using pattern_trie_refines_multiset [OF len] by blast
  have c: "pattern_count t = (\<lambda>_. 0)([97, 42] := 1)" "rs = [True, False, False, True]"
    using t(2) v by (auto simp: Let_def)
  then have "pattern_check [97, 98] t" using t(3) m by (metis fun_upd_same one_neq_zero)
  then show ?thesis using t(1) c by auto
qed

end
