(* ===== verification/Spot_Registry.thy ===== *)
theory Spot_Registry
  imports Msg "HOL-Library.AList"
begin

text \<open>
  The topic registry of SPOT (\<^verbatim>\<open>src/src/spot/topic_registry.cpp\<close>). The hash map is an association list with
  distinct keys, whose order stands for the unspecified iteration order; nothing proved depends on it. Every
  operation holds the lock from its first to its last access and is one step.
\<close>

datatype topic_location = LOCAL | REMOTE

record topic_entry =
  te_topic_id :: bytes
  te_location :: topic_location
  te_endpoint :: bytes

record topic_registry =
  tr_topics :: "(bytes \<times> topic_entry) list"
  tr_counter :: u64

definition topic_registry_new :: topic_registry where
  "topic_registry_new = \<lparr>tr_topics = [], tr_counter = 0\<rparr>"

text \<open>What \<^verbatim>\<open>operator<<\<close> of a stream writes for an unsigned integer.\<close>

fun decimal :: "nat \<Rightarrow> bytes" where
  "decimal n = (if n < 10 then [of_nat (48 + n)] else decimal (n div 10) @ [of_nat (48 + n mod 10)])"

declare decimal.simps [simp del]

definition inproc_prefix :: bytes where
  "inproc_prefix = ascii ''inproc://spot-''"

definition registry_insert :: "bytes \<Rightarrow> topic_location \<Rightarrow> bytes \<Rightarrow> topic_registry \<Rightarrow> topic_registry" where
  "registry_insert t loc ep r =
     r\<lparr>tr_topics := AList.update t \<lparr>te_topic_id = t, te_location = loc, te_endpoint = ep\<rparr> (tr_topics r)\<rparr>"

definition register_local_auto :: "bytes \<Rightarrow> topic_registry \<Rightarrow> (errno + unit) \<times> topic_registry" where
  "register_local_auto t r =
     (if map_of (tr_topics r) t \<noteq> None then (Inl EEXIST, r)
      else
        let ep = inproc_prefix @ decimal (unat (tr_counter r));
            r' = r\<lparr>tr_counter := tr_counter r + 1\<rparr>
        in (Inr (), registry_insert t LOCAL ep r'))"

definition register_local :: "bytes \<Rightarrow> bytes \<Rightarrow> topic_registry \<Rightarrow> (errno + unit) \<times> topic_registry" where
  "register_local t ep r =
     (if map_of (tr_topics r) t \<noteq> None then (Inl EEXIST, r) else (Inr (), registry_insert t LOCAL ep r))"

definition register_remote :: "bytes \<Rightarrow> bytes \<Rightarrow> topic_registry \<Rightarrow> (errno + unit) \<times> topic_registry" where
  "register_remote t ep r =
     (if map_of (tr_topics r) t \<noteq> None then (Inl EEXIST, r) else (Inr (), registry_insert t REMOTE ep r))"

definition unregister :: "bytes \<Rightarrow> topic_registry \<Rightarrow> (errno + unit) \<times> topic_registry" where
  "unregister t r =
     (if map_of (tr_topics r) t = None then (Inl ENOENT, r)
      else (Inr (), r\<lparr>tr_topics := AList.delete t (tr_topics r)\<rparr>))"

definition registry_lookup :: "topic_registry \<Rightarrow> bytes \<Rightarrow> topic_entry option" where
  "registry_lookup r t = map_of (tr_topics r) t"

definition has_topic :: "topic_registry \<Rightarrow> bytes \<Rightarrow> bool" where
  "has_topic r t \<longleftrightarrow> map_of (tr_topics r) t \<noteq> None"

definition get_all_topics :: "topic_registry \<Rightarrow> bytes list" where
  "get_all_topics r = map fst (tr_topics r)"

definition get_local_topics :: "topic_registry \<Rightarrow> bytes list" where
  "get_local_topics r = map fst (filter (\<lambda>(t, e). te_location e = LOCAL) (tr_topics r))"

definition get_remote_topics :: "topic_registry \<Rightarrow> bytes list" where
  "get_remote_topics r = map fst (filter (\<lambda>(t, e). te_location e = REMOTE) (tr_topics r))"

definition topic_count :: "topic_registry \<Rightarrow> nat" where
  "topic_count r = length (tr_topics r)"

section \<open>The registry as a map\<close>

definition registry_inv :: "topic_registry \<Rightarrow> bool" where
  "registry_inv r \<longleftrightarrow> distinct (map fst (tr_topics r)) \<and> (\<forall>(t, e)\<in>set (tr_topics r). te_topic_id e = t)"

definition registry_view :: "topic_registry \<Rightarrow> bytes \<Rightarrow> (topic_location \<times> bytes) option" where
  "registry_view r t = map_option (\<lambda>e. (te_location e, te_endpoint e)) (map_of (tr_topics r) t)"

lemma registry_view_dom: "dom (registry_view r) = fst ` set (tr_topics r)"
  by (auto simp: registry_view_def dom_def dom_map_of_conv_image_fst [symmetric])

lemma registry_new_inv: "registry_inv topic_registry_new" "registry_view topic_registry_new = Map.empty"
  by (auto simp: registry_inv_def topic_registry_new_def registry_view_def)

lemma set_alist_update: "set (AList.update k v al) \<subseteq> insert (k, v) (set al)"
  by (induction al) auto

lemma set_alist_delete: "set (AList.delete k al) \<subseteq> set al"
  by (auto simp: AList.delete_eq)

lemma registry_insert_law:
  assumes "registry_inv r"
  shows "registry_inv (registry_insert t loc ep r)"
    and "registry_view (registry_insert t loc ep r) = (registry_view r)(t \<mapsto> (loc, ep))"
    and "tr_counter (registry_insert t loc ep r) = tr_counter r"
proof -
  let ?e = "\<lparr>te_topic_id = t, te_location = loc, te_endpoint = ep\<rparr>"
  show "registry_inv (registry_insert t loc ep r)"
    using assms set_alist_update [of t ?e "tr_topics r"]
    by (auto simp: registry_inv_def registry_insert_def distinct_update)
qed (auto simp: registry_view_def registry_insert_def update_conv')

lemma unregister_law:
  assumes "registry_inv r"
  shows "registry_inv (snd (unregister t r))"
    and "registry_view (snd (unregister t r)) = (registry_view r)(t := None)"
    and "fst (unregister t r) = (if registry_view r t = None then Inl ENOENT else Inr ())"
    and "tr_counter (snd (unregister t r)) = tr_counter r"
  using assms set_alist_delete [of t "tr_topics r"]
  by (auto simp: registry_inv_def unregister_def registry_view_def delete_conv' distinct_delete intro!: ext)

lemma register_law:
  assumes "registry_inv r"
  shows "register_local t ep r = (if registry_view r t = None then (Inr (), registry_insert t LOCAL ep r) else (Inl EEXIST, r))"
    and "register_remote t ep r = (if registry_view r t = None then (Inr (), registry_insert t REMOTE ep r) else (Inl EEXIST, r))"
    and "register_local_auto t r =
      (if registry_view r t = None
       then (Inr (), registry_insert t LOCAL (inproc_prefix @ decimal (unat (tr_counter r))) (r\<lparr>tr_counter := tr_counter r + 1\<rparr>))
       else (Inl EEXIST, r))"
  by (auto simp: register_local_def register_remote_def register_local_auto_def registry_view_def Let_def)

lemma registry_counter_irrelevant [simp]:
  "registry_inv (r\<lparr>tr_counter := n\<rparr>) = registry_inv r" "registry_view (r\<lparr>tr_counter := n\<rparr>) = registry_view r"
  by (simp_all add: registry_inv_def registry_view_def fun_eq_iff)

text \<open>The observers, over the view.\<close>

lemma registry_observers:
  assumes "registry_inv r"
  shows "registry_lookup r t = map_option (\<lambda>(loc, ep). \<lparr>te_topic_id = t, te_location = loc, te_endpoint = ep\<rparr>) (registry_view r t)"
    and "has_topic r t \<longleftrightarrow> t \<in> dom (registry_view r)"
    and "distinct (get_all_topics r) \<and> set (get_all_topics r) = dom (registry_view r)"
    and "topic_count r = card (dom (registry_view r))"
proof -
  have "te_topic_id e = t" if "map_of (tr_topics r) t = Some e" for e
    using assms that by (auto simp: registry_inv_def dest: map_of_SomeD)
  then show "registry_lookup r t = map_option (\<lambda>(loc, ep). \<lparr>te_topic_id = t, te_location = loc, te_endpoint = ep\<rparr>) (registry_view r t)"
    by (cases "map_of (tr_topics r) t") (auto simp: registry_lookup_def registry_view_def)
  show d: "distinct (get_all_topics r) \<and> set (get_all_topics r) = dom (registry_view r)"
    using assms by (simp add: get_all_topics_def registry_inv_def registry_view_dom)
  then show "topic_count r = card (dom (registry_view r))"
    by (metis distinct_card get_all_topics_def length_map topic_count_def)
qed (auto simp: has_topic_def registry_view_def dom_def)

lemma registry_location_lists:
  assumes "registry_inv r"
  shows "set (get_local_topics r) = {t. \<exists>ep. registry_view r t = Some (LOCAL, ep)}"
    and "set (get_remote_topics r) = {t. \<exists>ep. registry_view r t = Some (REMOTE, ep)}"
proof -
  have m: "(t, e) \<in> set (tr_topics r) \<longleftrightarrow> map_of (tr_topics r) t = Some e" for t e
    using assms by (simp add: registry_inv_def)
  show "set (get_local_topics r) = {t. \<exists>ep. registry_view r t = Some (LOCAL, ep)}"
    "set (get_remote_topics r) = {t. \<exists>ep. registry_view r t = Some (REMOTE, ep)}"
    by (force simp: get_local_topics_def get_remote_topics_def registry_view_def m)+
qed

section \<open>Histories\<close>

datatype reg_op =
    Reg_auto bytes | Reg_local bytes bytes | Reg_remote bytes bytes | Unreg bytes

type_synonym registry_spec = "(bytes \<rightharpoonup> topic_location \<times> bytes) \<times> nat"

fun registry_spec_op :: "reg_op \<Rightarrow> registry_spec \<Rightarrow> (errno + unit) \<times> registry_spec" where
  "registry_spec_op (Reg_auto t) (m, n) =
     (if m t = None then (Inr (), (m(t \<mapsto> (LOCAL, inproc_prefix @ decimal n)), n + 1)) else (Inl EEXIST, (m, n)))"
| "registry_spec_op (Reg_local t ep) (m, n) = (if m t = None then (Inr (), (m(t \<mapsto> (LOCAL, ep)), n)) else (Inl EEXIST, (m, n)))"
| "registry_spec_op (Reg_remote t ep) (m, n) = (if m t = None then (Inr (), (m(t \<mapsto> (REMOTE, ep)), n)) else (Inl EEXIST, (m, n)))"
| "registry_spec_op (Unreg t) (m, n) = (if m t = None then Inl ENOENT else Inr (), (m(t := None), n))"

fun registry_op :: "reg_op \<Rightarrow> topic_registry \<Rightarrow> (errno + unit) \<times> topic_registry" where
  "registry_op (Reg_auto t) r = register_local_auto t r"
| "registry_op (Reg_local t ep) r = register_local t ep r"
| "registry_op (Reg_remote t ep) r = register_remote t ep r"
| "registry_op (Unreg t) r = unregister t r"

text \<open>The number bounds how many more operations keep the 64-bit counter from wrapping.\<close>

definition registry_rel :: "nat \<Rightarrow> topic_registry \<Rightarrow> registry_spec \<Rightarrow> bool" where
  "registry_rel k r a \<longleftrightarrow> registry_inv r \<and> registry_view r = fst a \<and> unat (tr_counter r) = snd a \<and> snd a + k < 2 ^ 64"

interpretation registry: op_simulation registry_op registry_spec_op registry_rel
proof
  fix k r a x
  assume a: "registry_rel (Suc k) r a"
  obtain m n where mn: "a = (m, n)" by (cases a)
  have u: "unat (tr_counter r + 1) = n + 1"
    using a mn by (simp add: registry_rel_def unat_word_ariths)
  show "fst (registry_op x r) = fst (registry_spec_op x a) \<and> registry_rel k (snd (registry_op x r)) (snd (registry_spec_op x a))"
    using a mn u by (cases x) (auto simp: registry_rel_def register_law registry_insert_law unregister_law)
qed

text \<open>C16. The topic registry is a map: after any history of fewer than 2^64 calls every call returned
  what a map with a counter prescribes (\<^verbatim>\<open>EEXIST\<close> for a registered topic, \<^verbatim>\<open>ENOENT\<close> for removing an absent
  one), \<^verbatim>\<open>lookup\<close> returns the entry of the map, \<^verbatim>\<open>get_all_topics\<close> lists its keys without repetition,
  the local and remote lists are those of each location and \<^verbatim>\<open>topic_count\<close> is the number of keys.\<close>

theorem registry_refines_map:
  assumes "length ops < 2 ^ 64"
    and "run_ops registry_op ops topic_registry_new = (rs, r)"
    and "run_ops registry_spec_op ops (Map.empty, 0) = (rs', (m, n))"
  shows "rs = rs' \<and>
    (\<forall>t. registry_lookup r t = map_option (\<lambda>(loc, ep). \<lparr>te_topic_id = t, te_location = loc, te_endpoint = ep\<rparr>) (m t)) \<and>
    distinct (get_all_topics r) \<and> set (get_all_topics r) = dom m \<and> topic_count r = card (dom m) \<and>
    set (get_local_topics r) = {t. \<exists>ep. m t = Some (LOCAL, ep)} \<and>
    set (get_remote_topics r) = {t. \<exists>ep. m t = Some (REMOTE, ep)}"
proof -
  have "registry_rel (length ops + 0) topic_registry_new (Map.empty, 0)"
    using assms(1) by (simp add: registry_rel_def registry_new_inv) (simp add: topic_registry_new_def)
  from registry.run_sim [OF this] have "rs = rs'" "registry_inv r" "registry_view r = m"
    using assms(2,3) by (simp_all add: registry_rel_def)
  then show ?thesis using registry_observers [of r] registry_location_lists [of r] by simp
qed

theorem registry_refines_map_witness:
  "\<exists>rs r. run_ops registry_op [Reg_local [97] [98], Reg_remote [99] [100], Reg_local [97] [101], Unreg [99]] topic_registry_new = (rs, r) \<and>
     rs = [Inr (), Inr (), Inl EEXIST, Inr ()] \<and> set (get_all_topics r) = {[97]} \<and> topic_count r = 1"
proof -
  let ?ops = "[Reg_local [97] [98], Reg_remote [99] [100], Reg_local [97] [101], Unreg [99]]"
  obtain rs r where r: "run_ops registry_op ?ops topic_registry_new = (rs, r)" by fastforce
  have s: "run_ops registry_spec_op ?ops (Map.empty, 0) = ([Inr (), Inr (), Inl EEXIST, Inr ()], ([[97] \<mapsto> (LOCAL, [98])], 0))"
    by (simp add: fun_eq_iff)
  have l: "length ?ops < 2 ^ 64" by simp
  show ?thesis using registry_refines_map [OF l r s] r by auto
qed

section \<open>Generated endpoints\<close>

definition digits_value :: "bytes \<Rightarrow> nat" where
  "digits_value ds = foldl (\<lambda>a d. a * 10 + (unat d - 48)) 0 ds"

lemma unat_digit: "k < 10 \<Longrightarrow> unat (of_nat (48 + k) :: byte) = 48 + k"
  using unat_of_nat_byte [of "48 + k"] by simp

lemma digits_value_decimal [simp]: "digits_value (decimal n) = n"
proof (induction n rule: decimal.induct)
  case (1 n)
  show ?case
  proof (cases "n < 10")
    case True
    then show ?thesis using unat_digit [of n] by (subst decimal.simps) (simp add: digits_value_def)
  next
    case False
    then show ?thesis using 1 unat_digit [of "n mod 10"] by (subst decimal.simps) (simp add: digits_value_def)
  qed
qed

lemma decimal_inject [simp]: "decimal m = decimal n \<longleftrightarrow> m = n"
  by (metis digits_value_decimal)







end
