(* ===== verification/Spot_Subscriptions.thy ===== *)
theory Spot_Subscriptions
  imports Spot_Registry
begin

text \<open>
  The subscription manager of SPOT (\<^verbatim>\<open>src/src/spot/subscription_manager.cpp\<close>), shown to keep two relations:
  between topics and subscribers, and between patterns and local subscribers. Two subscribers are the same when
  \<^verbatim>\<open>operator==\<close> says so, that is when their keys are equal.
\<close>

datatype subscriber_type = Sub_local | Sub_remote

record subscriber =
  sb_type :: subscriber_type
  sb_socket :: nat
  sb_endpoint :: bytes

definition subscriber_eq :: "subscriber \<Rightarrow> subscriber \<Rightarrow> bool" where
  "subscriber_eq a b =
     (if sb_type a \<noteq> sb_type b then False
      else if sb_type a = Sub_local then sb_socket a = sb_socket b
      else sb_endpoint a = sb_endpoint b)"

type_synonym sub_table = "(bytes \<times> subscriber list) list"

record subscription_manager =
  sm_exact :: sub_table
  sm_pattern :: sub_table

definition subscription_manager_new :: subscription_manager where
  "subscription_manager_new = \<lparr>sm_exact = [], sm_pattern = []\<rparr>"

text \<open>\<^verbatim>\<open>operator[]\<close> of the map, which inserts an empty vector for a missing key.\<close>

definition table_get :: "sub_table \<Rightarrow> bytes \<Rightarrow> subscriber list" where
  "table_get m t = (case map_of m t of None \<Rightarrow> [] | Some xs \<Rightarrow> xs)"

text \<open>\<^verbatim>\<open>std::find\<close> followed by \<^verbatim>\<open>erase\<close> of what it found.\<close>

fun erase_found :: "subscriber \<Rightarrow> subscriber list \<Rightarrow> subscriber list option" where
  "erase_found s [] = None"
| "erase_found s (x # xs) = (if subscriber_eq x s then Some xs else map_option (Cons x) (erase_found s xs))"

definition table_add :: "bytes \<Rightarrow> subscriber \<Rightarrow> sub_table \<Rightarrow> (errno + unit) \<times> sub_table" where
  "table_add t s m =
     (let xs = table_get m t; m = AList.update t xs m in
      if list_ex (\<lambda>x. subscriber_eq x s) xs then (Inl EEXIST, m)
      else (Inr (), AList.update t (xs @ [s]) m))"

definition table_remove :: "bytes \<Rightarrow> subscriber \<Rightarrow> sub_table \<Rightarrow> (errno + unit) \<times> sub_table" where
  "table_remove t s m =
     (case map_of m t of
        None \<Rightarrow> (Inl ENOENT, m)
      | Some xs \<Rightarrow>
          (case erase_found s xs of
             None \<Rightarrow> (Inl ENOENT, m)
           | Some ys \<Rightarrow> (Inr (), if ys = [] then AList.delete t m else AList.update t ys m)))"

fun table_remove_all :: "subscriber \<Rightarrow> sub_table \<Rightarrow> sub_table" where
  "table_remove_all s [] = []"
| "table_remove_all s ((t, xs) # m) =
     (let ys = (case erase_found s xs of None \<Rightarrow> xs | Some ys \<Rightarrow> ys) in
      if ys = [] then table_remove_all s m else (t, ys) # table_remove_all s m)"

definition add_subscription :: "bytes \<Rightarrow> subscriber \<Rightarrow> subscription_manager \<Rightarrow> (errno + unit) \<times> subscription_manager" where
  "add_subscription t s m = (let (r, e) = table_add t s (sm_exact m) in (r, m\<lparr>sm_exact := e\<rparr>))"

definition remove_subscription :: "bytes \<Rightarrow> subscriber \<Rightarrow> subscription_manager \<Rightarrow> (errno + unit) \<times> subscription_manager" where
  "remove_subscription t s m = (let (r, e) = table_remove t s (sm_exact m) in (r, m\<lparr>sm_exact := e\<rparr>))"

definition remove_all_subscriptions :: "subscriber \<Rightarrow> subscription_manager \<Rightarrow> (errno + unit) \<times> subscription_manager" where
  "remove_all_subscriptions s m =
     (Inr (), \<lparr>sm_exact = table_remove_all s (sm_exact m), sm_pattern = table_remove_all s (sm_pattern m)\<rparr>)"

definition add_pattern_subscription :: "bytes \<Rightarrow> subscriber \<Rightarrow> subscription_manager \<Rightarrow> (errno + unit) \<times> subscription_manager" where
  "add_pattern_subscription p s m =
     (if sb_type s \<noteq> Sub_local then (Inl EINVAL, m)
      else let (r, e) = table_add p s (sm_pattern m) in (r, m\<lparr>sm_pattern := e\<rparr>))"

definition remove_pattern_subscription :: "bytes \<Rightarrow> subscriber \<Rightarrow> subscription_manager \<Rightarrow> (errno + unit) \<times> subscription_manager" where
  "remove_pattern_subscription p s m = (let (r, e) = table_remove p s (sm_pattern m) in (r, m\<lparr>sm_pattern := e\<rparr>))"

definition get_subscribers :: "subscription_manager \<Rightarrow> bytes \<Rightarrow> subscriber list" where
  "get_subscribers m t = (case map_of (sm_exact m) t of Some xs \<Rightarrow> xs | None \<Rightarrow> [])"

definition get_subscriber_count :: "subscription_manager \<Rightarrow> bytes \<Rightarrow> nat" where
  "get_subscriber_count m t = (case map_of (sm_exact m) t of Some xs \<Rightarrow> length xs | None \<Rightarrow> 0)"

text \<open>\<^verbatim>\<open>matches_pattern\<close>; the star is byte 42, \<^verbatim>\<open>compare\<close> looks at the first \<^verbatim>\<open>prefix.size()\<close> bytes of the topic.\<close>

definition matches_pattern :: "bytes \<Rightarrow> bytes \<Rightarrow> bool" where
  "matches_pattern p t =
     (if 42 \<notin> set p then p = t
      else if p = [42] then True
      else let pre = takeWhile (\<lambda>b. b \<noteq> 42) p in take (length pre) t = pre)"

definition get_pattern_matched_subscribers :: "subscription_manager \<Rightarrow> bytes \<Rightarrow> subscriber list" where
  "get_pattern_matched_subscribers m t =
     concat (map (\<lambda>(p, xs). if matches_pattern p t then xs else []) (sm_pattern m))"

definition get_subscribed_topics :: "subscription_manager \<Rightarrow> subscriber \<Rightarrow> bytes list" where
  "get_subscribed_topics m s = map fst (filter (\<lambda>(t, xs). list_ex (\<lambda>x. subscriber_eq x s) xs) (sm_exact m))"

definition total_subscription_count :: "subscription_manager \<Rightarrow> nat" where
  "total_subscription_count m =
     foldl (\<lambda>n (t, xs). n + length xs) (foldl (\<lambda>n (t, xs). n + length xs) 0 (sm_exact m)) (sm_pattern m)"

text \<open>A pattern with a star matches the topics that start with what stands before the first star.\<close>

lemma matches_pattern_prefix:
  "matches_pattern p t \<longleftrightarrow>
   (if 42 \<in> set p then prefix (takeWhile (\<lambda>b. b \<noteq> 42) p) t else p = t)"
  by (auto simp: matches_pattern_def Let_def prefix_def) (metis append_take_drop_id)

section \<open>Subscribers up to \<^verbatim>\<open>operator==\<close>\<close>

datatype sub_key = Key_local nat | Key_remote bytes

definition sub_key :: "subscriber \<Rightarrow> sub_key" where
  "sub_key s = (if sb_type s = Sub_local then Key_local (sb_socket s) else Key_remote (sb_endpoint s))"

lemma subscriber_eq_key [simp]: "subscriber_eq a b \<longleftrightarrow> sub_key a = sub_key b"
  by (cases "sb_type a"; cases "sb_type b") (auto simp: subscriber_eq_def sub_key_def)

lemma erase_found_None: "erase_found s xs = None \<longleftrightarrow> sub_key s \<notin> sub_key ` set xs"
  by (induction xs) auto

lemma erase_found_Some:
  "erase_found s xs = Some ys \<Longrightarrow> distinct (map sub_key xs) \<Longrightarrow>
   distinct (map sub_key ys) \<and> sub_key ` set ys = sub_key ` set xs - {sub_key s} \<and> sub_key s \<in> sub_key ` set xs \<and> set ys \<subseteq> set xs"
proof (induction xs arbitrary: ys)
  case (Cons x xs)
  show ?case
  proof (cases "sub_key x = sub_key s")
    case False
    then obtain zs where "erase_found s xs = Some zs" "ys = x # zs" using Cons.prems by auto
    then show ?thesis using Cons.IH [of zs] Cons.prems False by auto
  qed (use Cons.prems in auto)
qed simp

section \<open>Tables as relations\<close>

definition table_inv :: "sub_table \<Rightarrow> bool" where
  "table_inv m \<longleftrightarrow> distinct (map fst m) \<and> (\<forall>(t, xs)\<in>set m. xs \<noteq> [] \<and> distinct (map sub_key xs))"

definition table_rel :: "sub_table \<Rightarrow> (bytes \<times> sub_key) set" where
  "table_rel m = {(t, k). k \<in> sub_key ` set (table_get m t)}"

lemma table_get_update [simp]: "table_get (AList.update t xs m) = (table_get m)(t := xs)"
  by (auto simp: table_get_def update_conv' fun_eq_iff)

lemma table_get_delete [simp]: "table_get (AList.delete t m) = (table_get m)(t := [])"
  by (auto simp: table_get_def delete_conv' fun_eq_iff)

lemma table_inv_get: "table_inv m \<Longrightarrow> distinct (map sub_key (table_get m t))"
  by (auto simp: table_inv_def table_get_def dest: map_of_SomeD split: option.splits)

lemma table_inv_update:
  assumes "table_inv m" "xs \<noteq> []" "distinct (map sub_key xs)"
  shows "table_inv (AList.update t xs m)"
  using assms set_alist_update [of t xs m] by (auto simp: table_inv_def distinct_update)

lemma table_inv_delete: "table_inv m \<Longrightarrow> table_inv (AList.delete t m)"
  using set_alist_delete [of t m] by (auto simp: table_inv_def distinct_delete)

lemma update_same_table: "AList.update t ys (AList.update t xs m) = AList.update t ys m"
  by (induction m) auto

lemma update_idem_table: "map_of m t = Some xs \<Longrightarrow> AList.update t xs m = m"
  by (induction m) (auto split: if_splits)

lemma table_add_law:
  assumes "table_inv m"
  shows "fst (table_add t s m) = (if (t, sub_key s) \<in> table_rel m then Inl EEXIST else Inr ())"
    and "table_inv (snd (table_add t s m))"
    and "table_rel (snd (table_add t s m)) = insert (t, sub_key s) (table_rel m)"
proof -
  have e: "list_ex (\<lambda>x. sub_key x = sub_key s) (table_get m t) \<longleftrightarrow> (t, sub_key s) \<in> table_rel m"
    by (simp add: list_ex_iff table_rel_def image_iff) metis
  show "fst (table_add t s m) = (if (t, sub_key s) \<in> table_rel m then Inl EEXIST else Inr ())"
    by (simp add: table_add_def Let_def e)
  show "table_rel (snd (table_add t s m)) = insert (t, sub_key s) (table_rel m)"
    by (auto simp: table_add_def Let_def e) (auto simp: table_rel_def split: if_splits)
  show "table_inv (snd (table_add t s m))"
  proof (cases "(t, sub_key s) \<in> table_rel m")
    case True
    then obtain xs where xs: "map_of m t = Some xs" by (cases "map_of m t") (auto simp: table_rel_def table_get_def)
    then have "AList.update t (table_get m t) m = m" by (simp add: table_get_def update_idem_table)
    then show ?thesis using assms True by (simp add: table_add_def Let_def e)
  next
    case False
    then show ?thesis
      using table_inv_update [OF assms, of "table_get m t @ [s]" t] table_inv_get [OF assms, of t]
      by (simp add: table_add_def Let_def e update_same_table) (auto simp: table_rel_def)
  qed
qed

lemma table_add_again: "(t, sub_key s) \<in> table_rel m \<Longrightarrow> table_add t s m = (Inl EEXIST, m)"
proof -
  assume in_rel: "(t, sub_key s) \<in> table_rel m"
  then obtain xs where "map_of m t = Some xs" by (cases "map_of m t") (auto simp: table_rel_def table_get_def)
  then have "AList.update t (table_get m t) m = m" by (simp add: table_get_def update_idem_table)
  moreover have "list_ex (\<lambda>x. sub_key x = sub_key s) (table_get m t)"
    using in_rel by (simp add: list_ex_iff table_rel_def image_iff) metis
  ultimately show ?thesis by (simp add: table_add_def)
qed

lemma table_remove_law:
  assumes "table_inv m"
  shows "fst (table_remove t s m) = (if (t, sub_key s) \<in> table_rel m then Inr () else Inl ENOENT) \<and>
    table_inv (snd (table_remove t s m)) \<and> table_rel (snd (table_remove t s m)) = table_rel m - {(t, sub_key s)}"
proof (cases "map_of m t")
  case None
  then show ?thesis using assms by (auto simp: table_remove_def table_rel_def table_get_def split: if_splits)
next
  case (Some xs)
  then have g: "table_get m t = xs" by (simp add: table_get_def)
  show ?thesis
  proof (cases "erase_found s xs")
    case None
    then have "table_remove t s m = (Inl ENOENT, m)" "(t, sub_key s) \<notin> table_rel m"
      using Some g by (simp_all add: table_remove_def) (simp add: table_rel_def erase_found_None)
    then show ?thesis using assms by simp
  next
    case (Some ys)
    have ys: "distinct (map sub_key ys)" "sub_key ` set ys = sub_key ` set xs - {sub_key s}" "sub_key s \<in> sub_key ` set xs"
      using erase_found_Some [OF Some] table_inv_get [OF assms, of t] g by auto
    have r: "table_remove t s m = (Inr (), if ys = [] then AList.delete t m else AList.update t ys m)"
      using \<open>map_of m t = Some xs\<close> Some by (simp add: table_remove_def)
    have "table_rel (snd (table_remove t s m)) = table_rel m - {(t, sub_key s)}"
    proof -
      have "table_get (snd (table_remove t s m)) = (table_get m)(t := ys)" by (auto simp: r)
      then have "(u, k) \<in> table_rel (snd (table_remove t s m)) \<longleftrightarrow> (u, k) \<in> table_rel m - {(t, sub_key s)}" for u k
        using ys(2) g by (cases "u = t") (simp_all add: table_rel_def)
      then show ?thesis by auto
    qed
    moreover have "table_inv (snd (table_remove t s m))"
      using assms ys(1) unfolding r by (simp add: table_inv_update table_inv_delete)
    moreover have "(t, sub_key s) \<in> table_rel m" using ys(3) g by (simp add: table_rel_def)
    ultimately show ?thesis using r by simp
  qed
qed

lemma table_rel_set:
  "distinct (map fst m) \<Longrightarrow> (t, k) \<in> table_rel m \<longleftrightarrow> (\<exists>xs. (t, xs) \<in> set m \<and> k \<in> sub_key ` set xs)"
  by (auto simp: table_rel_def table_get_def split: option.splits)

lemma table_remove_all_set:
  "(t, ys) \<in> set (table_remove_all s m) \<longleftrightarrow>
   ys \<noteq> [] \<and> (\<exists>xs. (t, xs) \<in> set m \<and> ys = (case erase_found s xs of None \<Rightarrow> xs | Some zs \<Rightarrow> zs))"
  by (induction s m rule: table_remove_all.induct) (auto simp: Let_def)

lemma table_remove_all_sub: "fst ` set (table_remove_all s m) \<subseteq> fst ` set m"
proof
  fix t assume "t \<in> fst ` set (table_remove_all s m)"
  then obtain ys where "(t, ys) \<in> set (table_remove_all s m)" by auto
  then obtain xs where "(t, xs) \<in> set m" using table_remove_all_set by blast
  then show "t \<in> fst ` set m" by force
qed

lemma table_remove_all_keys: "distinct (map fst m) \<Longrightarrow> distinct (map fst (table_remove_all s m))"
proof (induction m)
  case (Cons p m)
  obtain t xs where p: "p = (t, xs)" by (cases p)
  have "t \<notin> fst ` set (table_remove_all s m)" using Cons.prems p table_remove_all_sub [of s m] by auto
  then show ?case using Cons p by (simp add: Let_def)
qed simp

lemma erase_all_keys:
  assumes "distinct (map sub_key xs)" "ys = (case erase_found s xs of None \<Rightarrow> xs | Some zs \<Rightarrow> zs)"
  shows "distinct (map sub_key ys) \<and> sub_key ` set ys = sub_key ` set xs - {sub_key s}"
  using assms erase_found_Some [of s xs ys] erase_found_None [of s xs] by (auto split: option.splits)

lemma table_remove_all_law:
  assumes "table_inv m"
  shows "table_inv (table_remove_all s m) \<and> table_rel (table_remove_all s m) = {(t, k) \<in> table_rel m. k \<noteq> sub_key s}"
proof -
  have d: "distinct (map fst m)" "\<And>t xs. (t, xs) \<in> set m \<Longrightarrow> distinct (map sub_key xs)"
    using assms by (auto simp: table_inv_def)
  have d': "distinct (map fst (table_remove_all s m))" using d(1) by (rule table_remove_all_keys)
  have "table_inv (table_remove_all s m)"
    using d' d(2) erase_all_keys by (auto simp: table_inv_def table_remove_all_set)
  moreover have "(t, k) \<in> table_rel (table_remove_all s m) \<longleftrightarrow> (t, k) \<in> table_rel m \<and> k \<noteq> sub_key s" for t k
  proof -
    have "(t, k) \<in> table_rel (table_remove_all s m) \<longleftrightarrow>
        (\<exists>xs. (t, xs) \<in> set m \<and> k \<in> sub_key ` set (case erase_found s xs of None \<Rightarrow> xs | Some zs \<Rightarrow> zs))"
      unfolding table_rel_set [OF d'] table_remove_all_set by (metis empty_iff image_empty list.set(1))
    also have "\<dots> \<longleftrightarrow> (\<exists>xs. (t, xs) \<in> set m \<and> k \<in> sub_key ` set xs - {sub_key s})"
      using d(2) erase_all_keys by blast
    finally show ?thesis unfolding table_rel_set [OF d(1)] by blast
  qed
  ultimately show ?thesis by auto
qed

section \<open>Observers\<close>

definition manager_inv :: "subscription_manager \<Rightarrow> bool" where
  "manager_inv m \<longleftrightarrow> table_inv (sm_exact m) \<and> table_inv (sm_pattern m)"

lemma card_keys: "distinct (map sub_key xs) \<Longrightarrow> card (sub_key ` set xs) = length xs"
  by (metis distinct_card length_map list.set_map)

lemma get_subscribers_keys:
  assumes "manager_inv m"
  shows "distinct (map sub_key (get_subscribers m t)) \<and>
    sub_key ` set (get_subscribers m t) = {k. (t, k) \<in> table_rel (sm_exact m)} \<and>
    get_subscriber_count m t = card {k. (t, k) \<in> table_rel (sm_exact m)}"
proof -
  have g: "get_subscribers m t = table_get (sm_exact m) t" "get_subscriber_count m t = length (table_get (sm_exact m) t)"
    by (simp_all add: get_subscribers_def get_subscriber_count_def table_get_def split: option.splits)
  have "distinct (map sub_key (table_get (sm_exact m) t))" using assms table_inv_get by (simp add: manager_inv_def)
  then show ?thesis using card_keys [of "table_get (sm_exact m) t"] by (simp add: g table_rel_def)
qed

lemma pattern_matched_keys:
  assumes "manager_inv m"
  shows "sub_key ` set (get_pattern_matched_subscribers m t) =
    {k. \<exists>p. matches_pattern p t \<and> (p, k) \<in> table_rel (sm_pattern m)}"
proof -
  have d: "distinct (map fst (sm_pattern m))" using assms by (simp add: manager_inv_def table_inv_def)
  have "k \<in> sub_key ` set (get_pattern_matched_subscribers m t) \<longleftrightarrow>
      (\<exists>p xs. (p, xs) \<in> set (sm_pattern m) \<and> matches_pattern p t \<and> k \<in> sub_key ` set xs)" for k
    by (force simp: get_pattern_matched_subscribers_def split: if_splits)
  moreover have "(\<exists>p. matches_pattern p t \<and> (p, k) \<in> table_rel (sm_pattern m)) \<longleftrightarrow>
      (\<exists>p xs. (p, xs) \<in> set (sm_pattern m) \<and> matches_pattern p t \<and> k \<in> sub_key ` set xs)" for k
    unfolding table_rel_set [OF d] by (rule iffI; elim exE conjE; intro exI conjI)
  ultimately show ?thesis by (simp add: set_eq_iff)
qed

lemma subscribed_topics_set:
  assumes "manager_inv m"
  shows "set (get_subscribed_topics m s) = {t. (t, sub_key s) \<in> table_rel (sm_exact m)}"
proof -
  have d: "distinct (map fst (sm_exact m))" using assms by (simp add: manager_inv_def table_inv_def)
  have "t \<in> set (get_subscribed_topics m s) \<longleftrightarrow> (\<exists>xs. (t, xs) \<in> set (sm_exact m) \<and> sub_key s \<in> sub_key ` set xs)" for t
  proof -
    have "list_ex (\<lambda>x. subscriber_eq x s) xs \<longleftrightarrow> sub_key s \<in> sub_key ` set xs" for xs
      by (simp add: list_ex_iff image_iff) metis
    then show ?thesis by (force simp: get_subscribed_topics_def)
  qed
  then show ?thesis using table_rel_set [OF d] by blast
qed

lemma table_rel_card: "table_inv m \<Longrightarrow> finite (table_rel m) \<and> card (table_rel m) = sum_list (map (\<lambda>(t, xs). length xs) m)"
proof (induction m)
  case Nil
  then show ?case by (simp add: table_rel_def table_get_def)
next
  case (Cons p m)
  obtain t xs where p: "p = (t, xs)" by (cases p)
  have inv: "table_inv m" "t \<notin> fst ` set m" "distinct (map sub_key xs)"
    using Cons.prems p by (auto simp: table_inv_def)
  have "map_of m t = None" using inv(2) by (simp add: map_of_eq_None_iff)
  then have get: "table_get (p # m) = (table_get m)(t := xs)" "table_get m t = []"
    by (simp_all add: table_get_def p fun_eq_iff)
  have rel: "table_rel (p # m) = Pair t ` (sub_key ` set xs) \<union> table_rel m" "Pair t ` (sub_key ` set xs) \<inter> table_rel m = {}"
    unfolding table_rel_def get(1) using get(2) by (auto split: if_splits)
  have "card (Pair t ` (sub_key ` set xs)) = length xs"
    using card_keys [OF inv(3)] by (simp add: card_image inj_on_def)
  then show ?case using Cons.IH [OF inv(1)] rel by (simp add: card_Un_disjoint p)
qed

lemma foldl_lengths: "foldl (\<lambda>n (t, xs). n + length xs) n m = n + sum_list (map (\<lambda>(t, xs). length xs) m)"
  by (induction m arbitrary: n) auto

lemma total_count_card:
  "manager_inv m \<Longrightarrow>
   total_subscription_count m = card (table_rel (sm_exact m)) + card (table_rel (sm_pattern m))"
  using table_rel_card [of "sm_exact m"] table_rel_card [of "sm_pattern m"]
  by (simp add: total_subscription_count_def foldl_lengths manager_inv_def)

section \<open>Histories\<close>

datatype sub_op =
    Sub_add bytes subscriber | Sub_remove bytes subscriber | Sub_remove_all subscriber
  | Pat_add bytes subscriber | Pat_remove bytes subscriber

fun manager_op :: "sub_op \<Rightarrow> subscription_manager \<Rightarrow> (errno + unit) \<times> subscription_manager" where
  "manager_op (Sub_add t s) m = add_subscription t s m"
| "manager_op (Sub_remove t s) m = remove_subscription t s m"
| "manager_op (Sub_remove_all s) m = remove_all_subscriptions s m"
| "manager_op (Pat_add p s) m = add_pattern_subscription p s m"
| "manager_op (Pat_remove p s) m = remove_pattern_subscription p s m"

type_synonym sub_spec = "(bytes \<times> sub_key) set \<times> (bytes \<times> sub_key) set"

fun manager_spec_op :: "sub_op \<Rightarrow> sub_spec \<Rightarrow> (errno + unit) \<times> sub_spec" where
  "manager_spec_op (Sub_add t s) (E, P) =
     (if (t, sub_key s) \<in> E then Inl EEXIST else Inr (), (insert (t, sub_key s) E, P))"
| "manager_spec_op (Sub_remove t s) (E, P) =
     (if (t, sub_key s) \<in> E then Inr () else Inl ENOENT, (E - {(t, sub_key s)}, P))"
| "manager_spec_op (Sub_remove_all s) (E, P) =
     (Inr (), ({(t, k) \<in> E. k \<noteq> sub_key s}, {(t, k) \<in> P. k \<noteq> sub_key s}))"
| "manager_spec_op (Pat_add p s) (E, P) =
     (if sb_type s \<noteq> Sub_local then (Inl EINVAL, (E, P))
      else (if (p, sub_key s) \<in> P then Inl EEXIST else Inr (), (E, insert (p, sub_key s) P)))"
| "manager_spec_op (Pat_remove p s) (E, P) =
     (if (p, sub_key s) \<in> P then Inr () else Inl ENOENT, (E, P - {(p, sub_key s)}))"

definition manager_rel :: "nat \<Rightarrow> subscription_manager \<Rightarrow> sub_spec \<Rightarrow> bool" where
  "manager_rel k m a \<longleftrightarrow> manager_inv m \<and> a = (table_rel (sm_exact m), table_rel (sm_pattern m))"

lemmas manager_op_defs = add_subscription_def remove_subscription_def remove_all_subscriptions_def
  add_pattern_subscription_def remove_pattern_subscription_def

interpretation manager: op_simulation manager_op manager_spec_op manager_rel
proof
  fix k m a x
  assume "manager_rel (Suc k) m a"
  then have m: "table_inv (sm_exact m)" "table_inv (sm_pattern m)" and a: "a = (table_rel (sm_exact m), table_rel (sm_pattern m))"
    by (simp_all add: manager_rel_def manager_inv_def)
  show "fst (manager_op x m) = fst (manager_spec_op x a) \<and> manager_rel k (snd (manager_op x m)) (snd (manager_spec_op x a))"
    using m unfolding a
    by (cases x)
      (simp_all add: manager_op_defs manager_rel_def manager_inv_def split_beta table_add_law table_remove_law table_remove_all_law)
qed

lemma manager_new_rel: "manager_rel k subscription_manager_new ({}, {})"
  by (simp add: manager_rel_def manager_inv_def subscription_manager_new_def table_inv_def table_rel_def table_get_def)

text \<open>C17. The subscription manager keeps two relations: after any history of calls every call returned
  what the relations prescribe, the exact subscribers of a topic are those related to it, each once, the
  pattern-matched ones are those of the patterns that match, the topics of a subscriber and the total count
  are those of the relations. A removal of all subscriptions of a subscriber leaves none of its own.\<close>

theorem subscriptions_refine_relations:
  assumes "run_ops manager_op ops subscription_manager_new = (rs, m)"
    and "run_ops manager_spec_op ops ({}, {}) = (rs', (E, P))"
  shows "rs = rs' \<and>
    (\<forall>t. distinct (map sub_key (get_subscribers m t)) \<and> sub_key ` set (get_subscribers m t) = {k. (t, k) \<in> E} \<and>
         get_subscriber_count m t = card {k. (t, k) \<in> E}) \<and>
    (\<forall>t. sub_key ` set (get_pattern_matched_subscribers m t) = {k. \<exists>p. matches_pattern p t \<and> (p, k) \<in> P}) \<and>
    (\<forall>s. set (get_subscribed_topics m s) = {t. (t, sub_key s) \<in> E}) \<and>
    total_subscription_count m = card E + card P"
proof -
  have "rs = rs'" "manager_inv m" "E = table_rel (sm_exact m)" "P = table_rel (sm_pattern m)"
    using manager.run_sim [OF manager_new_rel, of ops 0] assms by (simp_all add: manager_rel_def)
  then show ?thesis
    using get_subscribers_keys pattern_matched_keys subscribed_topics_set total_count_card by simp
qed

theorem subscriptions_refine_relations_witness:
  "\<exists>rs m. run_ops manager_op
      [Sub_add [97] \<lparr>sb_type = Sub_local, sb_socket = 5, sb_endpoint = []\<rparr>,
       Pat_add [98, 42] \<lparr>sb_type = Sub_local, sb_socket = 5, sb_endpoint = []\<rparr>,
       Pat_add [98, 42] \<lparr>sb_type = Sub_remote, sb_socket = 5, sb_endpoint = []\<rparr>] subscription_manager_new = (rs, m) \<and>
    rs = [Inr (), Inr (), Inl EINVAL] \<and> total_subscription_count m = 2 \<and>
    sub_key ` set (get_pattern_matched_subscribers m [98, 99]) = {Key_local 5}"
proof -
  let ?l = "\<lparr>sb_type = Sub_local, sb_socket = 5, sb_endpoint = []\<rparr>" and ?r = "\<lparr>sb_type = Sub_remote, sb_socket = 5, sb_endpoint = []\<rparr>"
  let ?ops = "[Sub_add [97] ?l, Pat_add [98, 42] ?l, Pat_add [98, 42] ?r]"
  obtain rs m where r: "run_ops manager_op ?ops subscription_manager_new = (rs, m)" by fastforce
  have s: "run_ops manager_spec_op ?ops ({}, {}) =
      ([Inr (), Inr (), Inl EINVAL], ({([97], Key_local 5)}, {([98, 42], Key_local 5)}))"
    by (simp add: sub_key_def)
  have p: "matches_pattern [98, 42] [98, 99]" by (simp add: matches_pattern_def)
  have "rs = [Inr (), Inr (), Inl EINVAL]" "total_subscription_count m = 2"
    "sub_key ` set (get_pattern_matched_subscribers m [98, 99]) = {k. \<exists>p. matches_pattern p [98, 99] \<and> (p, k) \<in> {([98, 42], Key_local 5)}}"
    using subscriptions_refine_relations [OF r s] by (elim conjE; simp del: image_insert)+
  moreover have "{k. \<exists>p. matches_pattern p [98, 99] \<and> (p, k) \<in> {([98, 42], Key_local 5)}} = {Key_local 5}"
    using p by blast
  ultimately show ?thesis using r by metis
qed

end
