(* ===== verification/Spot_Pubsub.thy ===== *)
theory Spot_Pubsub
  imports Spot_Subscriptions
begin

text \<open>
  The SPOT object (\<^verbatim>\<open>src/src/spot/spot_pubsub.cpp\<close>): topic ownership, subscriptions, publishing, receiving and
  cluster membership over one publishing and one receiving socket. The sockets, the clock and the context are
  arguments: \<open>socket_api\<close> holds the socket calls the code makes, on an abstract socket state \<open>'s\<close>.
  \<open>so_sleep\<close> is what \<^verbatim>\<open>sleep_for\<close> of one millisecond does to the state of a socket (time passes, other threads
  may deliver messages) and \<open>so_now\<close> is the clock.
\<close>

record 's socket_api =
  so_send :: "msg \<Rightarrow> bool \<Rightarrow> 's \<Rightarrow> (errno + unit) \<times> 's"
  so_recv :: "bool \<Rightarrow> 's \<Rightarrow> (errno + msg) \<times> 's"
  so_bind :: "bytes \<Rightarrow> 's \<Rightarrow> (errno + unit) \<times> 's"
  so_connect :: "bytes \<Rightarrow> 's \<Rightarrow> (errno + unit) \<times> 's"
  so_term_endpoint :: "bytes \<Rightarrow> 's \<Rightarrow> (errno + unit) \<times> 's"
  so_setsockopt :: "int \<Rightarrow> int \<Rightarrow> 's \<Rightarrow> (errno + unit) \<times> 's"
  so_getfd :: "'s \<Rightarrow> errno + int"
  so_now :: "'s \<Rightarrow> u64"
  so_sleep :: "'s \<Rightarrow> 's"

definition SL_SNDHWM :: int where "SL_SNDHWM = 23"
definition SL_RCVHWM :: int where "SL_RCVHWM = 24"
definition SL_RCVTIMEO :: int where "SL_RCVTIMEO = 27"

record 's spot =
  sp_registry :: topic_registry
  sp_manager :: subscription_manager
  sp_recv :: 's
  sp_pub :: 's
  sp_recv_ptr :: nat
  sp_inproc :: bytes
  sp_bind :: bytes
  sp_binds :: "bytes list"
  sp_connected :: "bytes list"
  sp_sndhwm :: int
  sp_rcvhwm :: int
  sp_rcvtimeo :: int

definition generate_instance_id :: "u64 \<Rightarrow> bytes \<times> u64" where
  "generate_instance_id counter = (ascii ''spot-'' @ decimal (unat counter), counter + 1)"

datatype spot_error = No_context | No_xpub | Bind_failed | No_xsub | Connect_failed

text \<open>The constructor. \<open>xpub\<close> and \<open>xsub\<close> are what \<^verbatim>\<open>create_socket\<close> returns.\<close>

definition spot_new ::
  "'s socket_api \<Rightarrow> bool \<Rightarrow> 's option \<Rightarrow> 's option \<Rightarrow> nat \<Rightarrow> u64 \<Rightarrow> (spot_error + 's spot) \<times> u64" where
  "spot_new api ctx xpub xsub ptr counter =
     (if \<not> ctx then (Inl No_context, counter)
      else
        let (inst, counter) = generate_instance_id counter; inproc = ascii ''inproc://'' @ inst in
        case xpub of
          None \<Rightarrow> (Inl No_xpub, counter)
        | Some pub \<Rightarrow>
            let (_, pub) = so_setsockopt api SL_SNDHWM 1000 pub; (rc, pub) = so_bind api inproc pub in
            case rc of
              Inl _ \<Rightarrow> (Inl Bind_failed, counter)
            | Inr _ \<Rightarrow>
                (case xsub of
                   None \<Rightarrow> (Inl No_xsub, counter)
                 | Some sub \<Rightarrow>
                     let (_, sub) = so_setsockopt api SL_RCVHWM 1000 sub; (rc, sub) = so_connect api inproc sub in
                     case rc of
                       Inl _ \<Rightarrow> (Inl Connect_failed, counter)
                     | Inr _ \<Rightarrow>
                         (Inr \<lparr>sp_registry = topic_registry_new, sp_manager = subscription_manager_new,
                               sp_recv = sub, sp_pub = pub, sp_recv_ptr = ptr, sp_inproc = inproc, sp_bind = [],
                               sp_binds = [], sp_connected = [], sp_sndhwm = 1000, sp_rcvhwm = 1000,
                               sp_rcvtimeo = -1\<rparr>, counter)))"

section \<open>Topics\<close>

definition topic_create :: "bytes \<Rightarrow> 's spot \<Rightarrow> (errno + unit) \<times> 's spot" where
  "topic_create t s =
     (if has_topic (sp_registry s) t then (Inl EEXIST, s)
      else
        let ep = (if sp_bind s = [] then sp_inproc s else sp_bind s);
            (r, reg) = register_local t ep (sp_registry s)
        in (r, s\<lparr>sp_registry := reg\<rparr>))"

definition topic_destroy :: "bytes \<Rightarrow> 's spot \<Rightarrow> (errno + unit) \<times> 's spot" where
  "topic_destroy t s =
     (case registry_lookup (sp_registry s) t of
        None \<Rightarrow> (Inl ENOENT, s)
      | Some e \<Rightarrow>
          if te_location e \<noteq> LOCAL then (Inl EINVAL, s)
          else (Inr (), s\<lparr>sp_registry := snd (unregister t (sp_registry s))\<rparr>))"

definition topic_route :: "bytes \<Rightarrow> bytes \<Rightarrow> 's spot \<Rightarrow> (errno + unit) \<times> 's spot" where
  "topic_route t ep s =
     (if has_topic (sp_registry s) t then (Inl EEXIST, s)
      else let (r, reg) = register_remote t ep (sp_registry s) in (r, s\<lparr>sp_registry := reg\<rparr>))"

section \<open>Subscriptions\<close>

text \<open>The subscriber object of this instance; its endpoint is left empty.\<close>

definition spot_subscriber :: "subscriber_type \<Rightarrow> 's spot \<Rightarrow> subscriber" where
  "spot_subscriber ty s = \<lparr>sb_type = ty, sb_socket = sp_recv_ptr s, sb_endpoint = []\<rparr>"

text \<open>The end of the three branches of \<^verbatim>\<open>subscribe\<close>: record the subscription, then send the filter.\<close>

definition subscribe_and_send ::
  "'s socket_api \<Rightarrow> (nat \<Rightarrow> bool) \<Rightarrow> subscriber_type \<Rightarrow> bytes \<Rightarrow> 's spot \<Rightarrow> (errno + unit) \<times> 's spot" where
  "subscribe_and_send api alloc ty t s =
     (let (r, m) = add_subscription t (spot_subscriber ty s) (sp_manager s); s = s\<lparr>sp_manager := m\<rparr> in
      case r of
        Inl e \<Rightarrow> if e = EEXIST then (Inr (), s) else (Inl e, s)
      | Inr _ \<Rightarrow>
          (case init_subscribe alloc t of
             Inl e \<Rightarrow> (Inl e, s)
           | Inr msg \<Rightarrow> let (rc, sock) = so_send api msg False (sp_recv s) in (rc, s\<lparr>sp_recv := sock\<rparr>)))"

definition spot_subscribe ::
  "'s socket_api \<Rightarrow> (nat \<Rightarrow> bool) \<Rightarrow> bytes \<Rightarrow> 's spot \<Rightarrow> (errno + unit) \<times> 's spot" where
  "spot_subscribe api alloc t s =
     (case registry_lookup (sp_registry s) t of
        None \<Rightarrow>
          if sp_connected s = [] then (Inl ENOENT, s) else subscribe_and_send api alloc Sub_remote t s
      | Some e \<Rightarrow>
          if te_location e = LOCAL then subscribe_and_send api alloc Sub_local t s
          else if te_endpoint e \<notin> set (sp_connected s) then
            (let (rc, sock) = so_connect api (te_endpoint e) (sp_recv s); s = s\<lparr>sp_recv := sock\<rparr> in
             case rc of
               Inl err \<Rightarrow> (Inl err, s)
             | Inr _ \<Rightarrow>
                 subscribe_and_send api alloc Sub_remote t (s\<lparr>sp_connected := te_endpoint e # sp_connected s\<rparr>))
          else subscribe_and_send api alloc Sub_remote t s)"

definition spot_subscribe_pattern ::
  "'s socket_api \<Rightarrow> (nat \<Rightarrow> bool) \<Rightarrow> bytes \<Rightarrow> 's spot \<Rightarrow> (errno + unit) \<times> 's spot" where
  "spot_subscribe_pattern api alloc p s =
     (let (r, m) = add_pattern_subscription p (spot_subscriber Sub_local s) (sp_manager s); s = s\<lparr>sp_manager := m\<rparr> in
      case r of
        Inl e \<Rightarrow> (Inl e, s)
      | Inr _ \<Rightarrow>
          (let pre = (if 42 \<in> set p then takeWhile (\<lambda>b. b \<noteq> 42) p else p) in
           case init_subscribe alloc pre of
             Inl e \<Rightarrow> (Inl e, s)
           | Inr msg \<Rightarrow> let (rc, sock) = so_send api msg False (sp_recv s) in (rc, s\<lparr>sp_recv := sock\<rparr>)))"

text \<open>The error of a failing call is the \<^verbatim>\<open>errno\<close> of the last failing subscription.\<close>

fun subscribe_loop ::
  "'s socket_api \<Rightarrow> (nat \<Rightarrow> bool) \<Rightarrow> bytes list \<Rightarrow> errno option \<Rightarrow> 's spot \<Rightarrow> errno option \<times> 's spot" where
  "subscribe_loop api alloc [] failed s = (failed, s)"
| "subscribe_loop api alloc (t # ts) failed s =
     (let (rc, s) = spot_subscribe api alloc t s in
      subscribe_loop api alloc ts (case rc of Inl e \<Rightarrow> Some e | Inr _ \<Rightarrow> failed) s)"

definition subscribe_many ::
  "'s socket_api \<Rightarrow> (nat \<Rightarrow> bool) \<Rightarrow> bytes list \<Rightarrow> 's spot \<Rightarrow> (errno + unit) \<times> 's spot" where
  "subscribe_many api alloc ts s =
     (case subscribe_loop api alloc ts None s of
        (Some e, s) \<Rightarrow> (Inl e, s)
      | (None, s) \<Rightarrow> (Inr (), s))"

definition spot_unsubscribe ::
  "'s socket_api \<Rightarrow> (nat \<Rightarrow> bool) \<Rightarrow> bytes \<Rightarrow> 's spot \<Rightarrow> (errno + unit) \<times> 's spot" where
  "spot_unsubscribe api alloc t s =
     (case registry_lookup (sp_registry s) t of
        None \<Rightarrow> (Inl ENOENT, s)
      | Some e \<Rightarrow>
          (let ty = (if te_location e = LOCAL then Sub_local else Sub_remote);
               (r, m) = remove_subscription t (spot_subscriber ty s) (sp_manager s);
               s = s\<lparr>sp_manager := m\<rparr>
           in case r of
                Inl err \<Rightarrow> (Inl err, s)
              | Inr _ \<Rightarrow>
                  (case init_cancel alloc t of
                     Inl err \<Rightarrow> (Inl err, s)
                   | Inr msg \<Rightarrow> let (rc, sock) = so_send api msg False (sp_recv s) in (rc, s\<lparr>sp_recv := sock\<rparr>))))"

section \<open>Publishing and receiving\<close>

definition spot_publish ::
  "'s socket_api \<Rightarrow> (nat \<Rightarrow> bool) \<Rightarrow> bytes \<Rightarrow> bytes \<Rightarrow> 's spot \<Rightarrow> (errno + unit) \<times> 's spot" where
  "spot_publish api alloc t d s =
     (case registry_lookup (sp_registry s) t of
        None \<Rightarrow> (Inl ENOENT, s)
      | Some e \<Rightarrow>
          if te_location e \<noteq> LOCAL then (Inl EINVAL, s)
          else
            case init_buffer alloc t of
              Inl err \<Rightarrow> (Inl err, s)
            | Inr topic_msg \<Rightarrow>
                (let (rc, sock) = so_send api topic_msg True (sp_pub s); s = s\<lparr>sp_pub := sock\<rparr> in
                 case rc of
                   Inl err \<Rightarrow> (Inl err, s)
                 | Inr _ \<Rightarrow>
                     (case init_buffer alloc d of
                        Inl err \<Rightarrow> (Inl err, s)
                      | Inr data_msg \<Rightarrow>
                          let (rc, sock) = so_send api data_msg False (sp_pub s) in (rc, s\<lparr>sp_pub := sock\<rparr>))))"

text \<open>What a call of \<^verbatim>\<open>recv\<close> leaves: its return value and what it wrote to the two output buffers.\<close>

record recv_result =
  rv_rc :: "errno + unit"
  rv_topic :: "bytes option"
  rv_data :: "bytes option"

text \<open>The branch of the loop taken once the topic frame has arrived.\<close>

definition recv_frames :: "'s socket_api \<Rightarrow> nat \<Rightarrow> nat \<Rightarrow> msg \<Rightarrow> 's \<Rightarrow> recv_result \<times> 's" where
  "recv_frames api topic_buf_size data_buf_size topic_msg sock =
     (if length (m_data topic_msg) > topic_buf_size
      then (\<lparr>rv_rc = Inl EMSGSIZE, rv_topic = None, rv_data = None\<rparr>, sock)
      else
        let topic = Some (m_data topic_msg); (rc, sock) = so_recv api False sock in
        case rc of
          Inl e \<Rightarrow> (\<lparr>rv_rc = Inl e, rv_topic = topic, rv_data = None\<rparr>, sock)
        | Inr data_msg \<Rightarrow>
            if length (m_data data_msg) > data_buf_size
            then (\<lparr>rv_rc = Inl EMSGSIZE, rv_topic = topic, rv_data = None\<rparr>, sock)
            else (\<lparr>rv_rc = Inr (), rv_topic = topic, rv_data = Some (m_data data_msg)\<rparr>, sock))"

definition recv_again :: recv_result where
  "recv_again = \<lparr>rv_rc = Inl EAGAIN, rv_topic = None, rv_data = None\<rparr>"

partial_function (option) recv_loop ::
  "'s socket_api \<Rightarrow> bool \<Rightarrow> int \<Rightarrow> u64 \<Rightarrow> nat \<Rightarrow> nat \<Rightarrow> 's \<Rightarrow> (recv_result \<times> 's) option" where
  "recv_loop api dontwait timeout deadline tsz dsz sock =
     (let (rc, sock) = so_recv api True sock in
      case rc of
        Inr topic_msg \<Rightarrow> Some (recv_frames api tsz dsz topic_msg sock)
      | Inl _ \<Rightarrow>
          if dontwait then Some (recv_again, sock)
          else if timeout > 0 \<and> so_now api sock \<ge> deadline then Some (recv_again, sock)
          else if timeout = 0 then Some (recv_again, sock)
          else recv_loop api dontwait timeout deadline tsz dsz (so_sleep api sock))"

definition spot_recv :: "'s socket_api \<Rightarrow> nat \<Rightarrow> nat \<Rightarrow> bool \<Rightarrow> 's spot \<Rightarrow> (recv_result \<times> 's spot) option" where
  "spot_recv api tsz dsz dontwait s =
     (let use_timeout = (\<not> dontwait \<and> sp_rcvtimeo s \<noteq> 0); timeout = sp_rcvtimeo s;
          deadline = (if use_timeout \<and> timeout > 0 then so_now api (sp_recv s) + of_int timeout else 0)
      in map_option (\<lambda>(r, sock). (r, s\<lparr>sp_recv := sock\<rparr>))
           (recv_loop api dontwait timeout deadline tsz dsz (sp_recv s)))"

section \<open>Introspection and configuration\<close>

definition list_topics :: "'s spot \<Rightarrow> bytes list" where
  "list_topics s = get_all_topics (sp_registry s)"

definition topic_exists :: "'s spot \<Rightarrow> bytes \<Rightarrow> bool" where
  "topic_exists s t = has_topic (sp_registry s) t"

definition topic_is_local :: "'s spot \<Rightarrow> bytes \<Rightarrow> bool" where
  "topic_is_local s t =
     (case registry_lookup (sp_registry s) t of None \<Rightarrow> False | Some e \<Rightarrow> te_location e = LOCAL)"

definition spot_set_hwm :: "'s socket_api \<Rightarrow> int \<Rightarrow> int \<Rightarrow> 's spot \<Rightarrow> (errno + unit) \<times> 's spot" where
  "spot_set_hwm api snd_hwm rcv_hwm s =
     (let s = s\<lparr>sp_sndhwm := snd_hwm, sp_rcvhwm := rcv_hwm\<rparr>;
          (rc, sock) = so_setsockopt api SL_RCVHWM rcv_hwm (sp_recv s);
          s = s\<lparr>sp_recv := sock\<rparr>
      in case rc of
           Inl e \<Rightarrow> (Inl e, s)
         | Inr _ \<Rightarrow>
             let (rc, sock) = so_setsockopt api SL_SNDHWM snd_hwm (sp_pub s) in (rc, s\<lparr>sp_pub := sock\<rparr>))"

text \<open>An option value is the integer it holds and the length the caller states; \<^const>\<open>None\<close> is a null pointer.\<close>

definition spot_setsockopt :: "int \<Rightarrow> int option \<Rightarrow> nat \<Rightarrow> 's spot \<Rightarrow> (errno + unit) \<times> 's spot" where
  "spot_setsockopt opt val len s =
     (case val of
        None \<Rightarrow> (Inl EINVAL, s)
      | Some v \<Rightarrow>
          if opt = SL_RCVTIMEO then if len \<noteq> 4 then (Inl EINVAL, s) else (Inr (), s\<lparr>sp_rcvtimeo := v\<rparr>)
          else (Inl EINVAL, s))"

definition spot_getsockopt :: "int \<Rightarrow> bool \<Rightarrow> nat option \<Rightarrow> 's spot \<Rightarrow> errno + (int \<times> nat)" where
  "spot_getsockopt opt buf len s =
     (case len of
        None \<Rightarrow> Inl EINVAL
      | Some n \<Rightarrow>
          if \<not> buf then Inl EINVAL
          else if opt = SL_RCVTIMEO then if n < 4 then Inl EINVAL else Inr (sp_rcvtimeo s, 4)
          else Inl EINVAL)"

section \<open>Cluster\<close>

definition spot_bind :: "'s socket_api \<Rightarrow> bytes \<Rightarrow> 's spot \<Rightarrow> (errno + unit) \<times> 's spot" where
  "spot_bind api ep s =
     (if ep \<in> set (sp_binds s) then (Inl EEXIST, s)
      else
        let (rc, sock) = so_bind api ep (sp_pub s); s = s\<lparr>sp_pub := sock\<rparr> in
        case rc of
          Inl e \<Rightarrow> (Inl e, s)
        | Inr _ \<Rightarrow>
            let s = s\<lparr>sp_binds := ep # sp_binds s\<rparr> in
            (Inr (), if sp_bind s = [] \<and> sublist (ascii ''tcp://'') ep then s\<lparr>sp_bind := ep\<rparr> else s))"

definition cluster_add :: "'s socket_api \<Rightarrow> bytes \<Rightarrow> 's spot \<Rightarrow> (errno + unit) \<times> 's spot" where
  "cluster_add api ep s =
     (if ep \<in> set (sp_connected s) then (Inl EEXIST, s)
      else
        let (rc, sock) = so_connect api ep (sp_recv s); s = s\<lparr>sp_recv := sock\<rparr> in
        case rc of
          Inl e \<Rightarrow> (Inl e, s)
        | Inr _ \<Rightarrow> (Inr (), s\<lparr>sp_connected := ep # sp_connected s\<rparr>))"

definition cluster_remove :: "'s socket_api \<Rightarrow> bytes \<Rightarrow> 's spot \<Rightarrow> (errno + unit) \<times> 's spot" where
  "cluster_remove api ep s =
     (if ep \<notin> set (sp_connected s) then (Inl ENOENT, s)
      else
        let (rc, sock) = so_term_endpoint api ep (sp_recv s); s = s\<lparr>sp_recv := sock\<rparr> in
        if (case rc of Inl e \<Rightarrow> e \<noteq> ENOENT | Inr _ \<Rightarrow> False) then (rc, s)
        else (Inr (), s\<lparr>sp_connected := removeAll ep (sp_connected s)\<rparr>))"

definition cluster_sync :: "int \<Rightarrow> 's spot \<Rightarrow> (errno + unit) \<times> 's spot" where
  "cluster_sync timeout_ms s = (Inr (), s)"

definition spot_fd :: "'s socket_api \<Rightarrow> 's spot \<Rightarrow> errno + int" where
  "spot_fd api s = so_getfd api (sp_recv s)"

section \<open>Sockets that queue\<close>

text \<open>What a connected pair of sockets documents: a send appends a frame, a receive takes the oldest one and
  reports \<^verbatim>\<open>EAGAIN\<close> when there is none. \<open>q\<close> reads the queued frames off a socket state, each with its
  \<^verbatim>\<open>SNDMORE\<close> mark.\<close>

type_synonym frames = "(bytes \<times> bool) list"

definition fifo_send :: "'s socket_api \<Rightarrow> ('s \<Rightarrow> frames) \<Rightarrow> bool" where
  "fifo_send api q \<longleftrightarrow>
     (\<forall>m mo s. \<exists>s'. so_send api m mo s = (Inr (), s') \<and> q s' = q s @ [(m_data m, mo)])"

definition fifo_recv :: "'s socket_api \<Rightarrow> ('s \<Rightarrow> frames) \<Rightarrow> bool" where
  "fifo_recv api q \<longleftrightarrow>
     (\<forall>dw s. case q s of
         [] \<Rightarrow> so_recv api dw s = (Inl EAGAIN, s)
       | (d, mo) # rest \<Rightarrow> \<exists>m s'. so_recv api dw s = (Inr m, s') \<and> m_data m = d \<and> q s' = rest)"

lemma fifo_sendD:
  assumes "fifo_send api q"
  obtains s' where "so_send api m mo s = (Inr (), s')" "q s' = q s @ [(m_data m, mo)]"
  using assms unfolding fifo_send_def by blast

lemma fifo_recvD:
  assumes "fifo_recv api q" "q s = (d, mo) # rest"
  obtains m s' where "so_recv api dw s = (Inr m, s')" "m_data m = d" "q s' = rest"
proof -
  have "\<exists>m s'. so_recv api dw s = (Inr m, s') \<and> m_data m = d \<and> q s' = rest"
    using assms(1) [unfolded fifo_recv_def, rule_format, of dw s] assms(2) by simp
  then show ?thesis using that by blast
qed

lemma init_buffer_data: "init_buffer alloc d = Inr m \<Longrightarrow> m_data m = d"
  using init_size_Inr by (auto simp: init_buffer_def)

lemma spot_recv_first:
  assumes "so_recv api True (sp_recv s) = (Inr m, sock)"
  shows "spot_recv api tsz dsz dw s =
    Some (let (r, sock) = recv_frames api tsz dsz m sock in (r, s\<lparr>sp_recv := sock\<rparr>))"
  using assms by (simp add: spot_recv_def recv_loop.simps split_beta)

text \<open>A socket whose state is the list of its queued frames and a clock; it shows that the laws can hold.\<close>

definition queue_api :: "(frames \<times> u64) socket_api" where
  "queue_api =
     \<lparr>so_send = (\<lambda>m mo (q, n). (Inr (), (q @ [(m_data m, mo)], n))),
      so_recv = (\<lambda>dw (q, n). case q of
         [] \<Rightarrow> (Inl EAGAIN, ([], n))
       | (d, mo) # rest \<Rightarrow> (Inr \<lparr>m_type = Type_vsm, m_flags = 0, m_data = d\<rparr>, (rest, n))),
      so_bind = (\<lambda>ep q. (Inr (), q)), so_connect = (\<lambda>ep q. (Inr (), q)), so_term_endpoint = (\<lambda>ep q. (Inr (), q)),
      so_setsockopt = (\<lambda>opt v q. (Inr (), q)), so_getfd = (\<lambda>q. Inr 3),
      so_now = snd, so_sleep = (\<lambda>(q, n). (q, n + 1))\<rparr>"

lemma queue_api_fifo: "fifo_send queue_api fst" "fifo_recv queue_api fst"
  by (auto simp: fifo_send_def fifo_recv_def queue_api_def split: list.splits)

definition sample_spot :: "frames \<times> u64 \<Rightarrow> (frames \<times> u64) spot" where
  "sample_spot sock =
     \<lparr>sp_registry = topic_registry_new, sp_manager = subscription_manager_new, sp_recv = sock, sp_pub = ([], 0),
      sp_recv_ptr = 1, sp_inproc = [], sp_bind = [], sp_binds = [], sp_connected = [], sp_sndhwm = 1000,
      sp_rcvhwm = 1000, sp_rcvtimeo = -1\<rparr>"

section \<open>Properties\<close>

text \<open>C18. What is published is what is received: publishing to a local topic queues the topic and the data as
  two frames of one message, and a receiving object whose socket holds these frames returns this topic and this
  data, whatever its receive mode, when its buffers are large enough.\<close>

theorem spot_publish_recv_roundtrip:
  assumes "fifo_send api q" and "fifo_recv api q"
    and "topic_is_local p t"
    and "init_buffer alloc t = Inr m1" and "init_buffer alloc d = Inr m2"
    and "q (sp_recv s) = drop (length (q (sp_pub p))) (q (sp_pub (snd (spot_publish api alloc t d p)))) @ rest"
    and "length t \<le> tsz" and "length d \<le> dsz"
  shows "fst (spot_publish api alloc t d p) = Inr () \<and>
    (\<exists>s'. spot_recv api tsz dsz dw s = Some (\<lparr>rv_rc = Inr (), rv_topic = Some t, rv_data = Some d\<rparr>, s') \<and>
          q (sp_recv s') = rest)"
proof -
  obtain s1 where s1: "so_send api m1 True (sp_pub p) = (Inr (), s1)" "q s1 = q (sp_pub p) @ [(t, True)]"
    using fifo_sendD [OF assms(1), of m1 True "sp_pub p"] init_buffer_data [OF assms(4)] by metis
  obtain s2 where s2: "so_send api m2 False s1 = (Inr (), s2)" "q s2 = q s1 @ [(d, False)]"
    using fifo_sendD [OF assms(1), of m2 False s1] init_buffer_data [OF assms(5)] by metis
  have pub: "spot_publish api alloc t d p = (Inr (), p\<lparr>sp_pub := s2\<rparr>)"
    using assms(3-5) s1 s2 by (auto simp: spot_publish_def topic_is_local_def split: option.splits)
  have q: "q (sp_recv s) = (t, True) # (d, False) # rest" using assms(6) pub s1 s2 by simp
  obtain n1 r1 where r1: "so_recv api True (sp_recv s) = (Inr n1, r1)" "m_data n1 = t" "q r1 = (d, False) # rest"
    using fifo_recvD [OF assms(2) q, of True] by metis
  obtain n2 r2 where r2: "so_recv api False r1 = (Inr n2, r2)" "m_data n2 = d" "q r2 = rest"
    using fifo_recvD [OF assms(2) r1(3), of False] by metis
  show ?thesis using pub r1 r2 assms(7,8) by (simp add: spot_recv_first [OF r1(1)] recv_frames_def)
qed

theorem spot_publish_recv_roundtrip_witness:
  "\<exists>s'. spot_recv queue_api 8 8 True (sample_spot ([([97], True), ([1, 2], False)], 0)) =
      Some (\<lparr>rv_rc = Inr (), rv_topic = Some [97], rv_data = Some [1, 2]\<rparr>, s') \<and> fst (sp_recv s') = []"
proof -
  let ?p = "snd (topic_create [97] (sample_spot ([], 0)))" and ?s = "sample_spot ([([97], True), ([1, 2], False)], 0)"
  have l: "topic_is_local ?p [97]"
    by (simp add: topic_create_def sample_spot_def has_topic_def topic_registry_new_def register_local_def
        registry_insert_def topic_is_local_def registry_lookup_def)
  have p: "fst (sp_recv ?s) = drop (length (fst (sp_pub ?p)))
      (fst (sp_pub (snd (spot_publish queue_api (\<lambda>_. True) [97] [1, 2] ?p)))) @ []"
    by (simp add: topic_create_def sample_spot_def has_topic_def topic_registry_new_def register_local_def
        registry_insert_def registry_lookup_def spot_publish_def init_buffer_def init_size_def max_vsm_size_def queue_api_def)
  have i: "init_buffer (\<lambda>_. True) [97] = Inr \<lparr>m_type = Type_vsm, m_flags = 0, m_data = [97]\<rparr>"
    "init_buffer (\<lambda>_. True) [1, 2] = Inr \<lparr>m_type = Type_vsm, m_flags = 0, m_data = [1, 2]\<rparr>"
    by (simp_all add: init_buffer_def init_size_def max_vsm_size_def)
  show ?thesis
    using spot_publish_recv_roundtrip [OF queue_api_fifo l i p, of 8 8 True] by simp
qed

text \<open>C25. A receive whose topic buffer is too small leaves the data frame of the message in the socket: the
  next receive takes that data for a topic and the topic of the next message for its data.\<close>

theorem spot_recv_emsgsize_desynchronises:
  assumes "fifo_recv api q"
    and "q (sp_recv s) = (t, True) # (d, False) # (t', True) # rest"
    and "tsz < length t" and "length d \<le> tsz" and "length t' \<le> dsz"
  shows "\<exists>s' s''. spot_recv api tsz dsz dw s = Some (\<lparr>rv_rc = Inl EMSGSIZE, rv_topic = None, rv_data = None\<rparr>, s') \<and>
    spot_recv api tsz dsz dw s' = Some (\<lparr>rv_rc = Inr (), rv_topic = Some d, rv_data = Some t'\<rparr>, s'')"
proof -
  obtain n1 r1 where r1: "so_recv api True (sp_recv s) = (Inr n1, r1)" "m_data n1 = t" "q r1 = (d, False) # (t', True) # rest"
    using fifo_recvD [OF assms(1,2), of True] by metis
  obtain n2 r2 where r2: "so_recv api True r1 = (Inr n2, r2)" "m_data n2 = d" "q r2 = (t', True) # rest"
    using fifo_recvD [OF assms(1) r1(3), of True] by metis
  obtain n3 r3 where r3: "so_recv api False r2 = (Inr n3, r3)" "m_data n3 = t'" "q r3 = rest"
    using fifo_recvD [OF assms(1) r2(3), of False] by metis
  have a: "spot_recv api tsz dsz dw s =
      Some (\<lparr>rv_rc = Inl EMSGSIZE, rv_topic = None, rv_data = None\<rparr>, s\<lparr>sp_recv := r1\<rparr>)"
    using r1 assms(3) by (simp add: spot_recv_first [OF r1(1)] recv_frames_def)
  have b: "so_recv api True (sp_recv (s\<lparr>sp_recv := r1\<rparr>)) = (Inr n2, r2)" using r2 by simp
  show ?thesis using a r2 r3 assms(4,5) by (simp add: spot_recv_first [OF b] recv_frames_def)
qed

theorem spot_recv_emsgsize_desynchronises_witness:
  "\<exists>s' s''. spot_recv queue_api 2 8 True (sample_spot ([([97, 98, 99], True), ([1], False), ([98], True)], 0)) =
      Some (\<lparr>rv_rc = Inl EMSGSIZE, rv_topic = None, rv_data = None\<rparr>, s') \<and>
    spot_recv queue_api 2 8 True s' = Some (\<lparr>rv_rc = Inr (), rv_topic = Some [1], rv_data = Some [98]\<rparr>, s'')"
  by (rule spot_recv_emsgsize_desynchronises [OF queue_api_fifo(2), where t = "[97, 98, 99]" and rest = "[]"])
    (simp_all add: sample_spot_def)

text \<open>A blocking receive only leaves the loop for a message: whatever error the socket reports, a call without a
  timeout goes on.\<close>

lemma recv_loop_result:
  assumes "recv_loop api dw timeout deadline tsz dsz sock = Some r"
    and "\<forall>sock. \<exists>e sock'. so_recv api True sock = (Inl e, sock')"
  shows "dw \<or> \<not> timeout < 0"
proof -
  let ?P = "\<lambda>a dw t _ _ _ _ _. (\<forall>sock. \<exists>e sock'. so_recv a True sock = (Inl e, sock')) \<longrightarrow> dw \<or> \<not> (t :: int) < 0"
  have "?P api dw timeout deadline tsz dsz sock r"
  proof (rule recv_loop.raw_induct [where P = ?P, OF _ assms(1)], goal_cases)
    case (1 rl a dw t dl ts ds s y)
    show ?case
    proof (intro impI)
      assume "\<forall>sock. \<exists>e sock'. so_recv a True sock = (Inl e, sock')"
      moreover from this obtain e s' where "so_recv a True s = (Inl e, s')" by blast
      ultimately show "dw \<or> \<not> t < 0"
        using "1"(1) [of a dw t dl ts ds "so_sleep a s'" y] "1"(2) by (cases dw; cases "t = 0"; cases "0 < t") simp_all
    qed
  qed
  then show ?thesis using assms(2) by simp
qed

lemma recv_loop_no_result:
  assumes "\<forall>sock. \<exists>e sock'. so_recv api True sock = (Inl e, sock')" and "timeout < 0"
  shows "recv_loop api False timeout deadline tsz dsz sock = None"
  using recv_loop_result [of api False timeout deadline tsz dsz sock] assms
  by (cases "recv_loop api False timeout deadline tsz dsz sock") auto

text \<open>C26. A blocking \<^verbatim>\<open>recv\<close> without a timeout ignores the error of the socket: on a socket whose receive always
  fails, for whatever reason (such as \<^verbatim>\<open>ETERM\<close> of a terminated context), it never returns.\<close>

theorem spot_recv_ignores_errors:
  assumes "\<forall>sock. \<exists>e sock'. so_recv api True sock = (Inl e, sock')" and "sp_rcvtimeo s < 0"
  shows "spot_recv api tsz dsz False s = None"
  using recv_loop_no_result [of api "sp_rcvtimeo s"] assms by (simp add: spot_recv_def)

theorem spot_recv_ignores_errors_witness:
  "spot_recv (queue_api\<lparr>so_recv := \<lambda>dw s. (Inl ETERM, s)\<rparr>) 8 8 False (sample_spot ([], 0)) = None"
  by (rule spot_recv_ignores_errors) (simp_all add: sample_spot_def)





text \<open>The subscription part of the state: this instance is recorded for the topic under the given kind.\<close>

definition recorded :: "subscriber_type \<Rightarrow> bytes \<Rightarrow> 's spot \<Rightarrow> bool" where
  "recorded ty t s \<longleftrightarrow> (t, sub_key (spot_subscriber ty s)) \<in> table_rel (sm_exact (sp_manager s))"

lemma fresh_manager: "manager_inv subscription_manager_new" "table_rel (sm_exact subscription_manager_new) = {}"
  using manager_new_rel [of 0] by (auto simp: manager_rel_def)

lemma spot_subscriber_update [simp]:
  "spot_subscriber ty (s\<lparr>sp_manager := m\<rparr>) = spot_subscriber ty s"
  "spot_subscriber ty (s\<lparr>sp_recv := r\<rparr>) = spot_subscriber ty s"
  by (simp_all add: spot_subscriber_def)

lemma recorded_recv [simp]: "recorded ty t (s\<lparr>sp_recv := r\<rparr>) = recorded ty t s"
  by (simp add: recorded_def)

lemma subscribe_again: "recorded ty t s \<Longrightarrow> subscribe_and_send api alloc ty t s = (Inr (), s)"
  by (simp add: subscribe_and_send_def add_subscription_def recorded_def table_add_again)

lemma subscribe_first:
  assumes "manager_inv (sp_manager s)" "\<not> recorded ty t s" "init_subscribe alloc t = Inr m"
    and "so_send api m False (sp_recv s) = (rc, sock)"
  obtains mgr where "subscribe_and_send api alloc ty t s = (rc, s\<lparr>sp_manager := mgr, sp_recv := sock\<rparr>)"
    and "manager_inv mgr" and "table_rel (sm_exact mgr) = insert (t, sub_key (spot_subscriber ty s)) (table_rel (sm_exact (sp_manager s)))"
    and "sm_pattern mgr = sm_pattern (sp_manager s)"
proof (rule that)
  let ?m = "(sp_manager s)\<lparr>sm_exact := snd (table_add t (spot_subscriber ty s) (sm_exact (sp_manager s)))\<rparr>"
  have inv: "table_inv (sm_exact (sp_manager s))" using assms(1) by (simp add: manager_inv_def)
  show "subscribe_and_send api alloc ty t s = (rc, s\<lparr>sp_manager := ?m, sp_recv := sock\<rparr>)"
    using assms(2-4) table_add_law(1) [OF inv, of t "spot_subscriber ty s"]
    by (simp add: subscribe_and_send_def add_subscription_def recorded_def split_beta Let_def)
  show "manager_inv ?m" using assms(1) table_add_law(2) [OF inv] by (simp add: manager_inv_def)
qed (use assms(1) table_add_law(3) in \<open>simp_all add: manager_inv_def\<close>)



text \<open>C27. A subscription whose filter could not be sent is recorded all the same: the call reports the error of
  the socket, and the next call for the topic reports success without sending anything.\<close>

theorem spot_subscribe_failed_send_recorded:
  assumes "manager_inv (sp_manager s)" and "topic_is_local s t" and "\<not> recorded Sub_local t s"
    and "init_subscribe alloc t = Inr ms" and "so_send api ms False (sp_recv s) = (Inl e, sock)"
  shows "\<exists>s1. spot_subscribe api alloc t s = (Inl e, s1) \<and> sp_recv s1 = sock \<and>
    spot_subscribe api alloc t s1 = (Inr (), s1)"
proof -
  obtain en where en: "registry_lookup (sp_registry s) t = Some en" "te_location en = LOCAL"
    using assms(2) by (auto simp: topic_is_local_def split: option.splits)
  obtain mgr where m: "subscribe_and_send api alloc Sub_local t s = (Inl e, s\<lparr>sp_manager := mgr, sp_recv := sock\<rparr>)"
    "table_rel (sm_exact mgr) = insert (t, sub_key (spot_subscriber Sub_local s)) (table_rel (sm_exact (sp_manager s)))"
    using subscribe_first [OF assms(1,3,4,5)] by metis
  have "recorded Sub_local t (s\<lparr>sp_manager := mgr, sp_recv := sock\<rparr>)" using m(2) by (simp add: recorded_def)
  then have "subscribe_and_send api alloc Sub_local t (s\<lparr>sp_manager := mgr, sp_recv := sock\<rparr>) =
      (Inr (), s\<lparr>sp_manager := mgr, sp_recv := sock\<rparr>)"
    by (rule subscribe_again)
  then show ?thesis using en m(1) by (simp add: spot_subscribe_def)
qed

theorem spot_subscribe_failed_send_recorded_witness:
  "\<exists>s1. spot_subscribe (queue_api\<lparr>so_send := \<lambda>m mo s. (Inl EAGAIN, s)\<rparr>) (\<lambda>_. True) [97]
      (snd (topic_create [97] (sample_spot ([], 0)))) = (Inl EAGAIN, s1) \<and> sp_recv s1 = ([], 0) \<and>
    spot_subscribe (queue_api\<lparr>so_send := \<lambda>m mo s. (Inl EAGAIN, s)\<rparr>) (\<lambda>_. True) [97] s1 = (Inr (), s1)"
proof -
  let ?s = "snd (topic_create [97] (sample_spot ([], 0)))" and ?api = "queue_api\<lparr>so_send := \<lambda>m mo s. (Inl EAGAIN, s)\<rparr>"
  have s: "sp_manager ?s = subscription_manager_new" "sp_recv ?s = ([], 0)" "topic_is_local ?s [97]"
    by (simp_all add: topic_create_def sample_spot_def has_topic_def topic_registry_new_def register_local_def
        registry_insert_def topic_is_local_def registry_lookup_def)
  have m: "manager_inv (sp_manager ?s)" "\<not> recorded Sub_local [97] ?s"
    using fresh_manager by (simp_all add: s(1) recorded_def)
  have i: "init_subscribe (\<lambda>_. True) [97] = Inr \<lparr>m_type = Type_vsm, m_flags = cmd_subscribe, m_data = [97]\<rparr>"
    by (simp add: init_subscribe_def init_size_def max_vsm_size_def set_flags_def)
  have se: "so_send ?api \<lparr>m_type = Type_vsm, m_flags = cmd_subscribe, m_data = [97]\<rparr> False (sp_recv ?s) = (Inl EAGAIN, ([], 0))"
    by (simp add: s(2))
  show ?thesis by (rule spot_subscribe_failed_send_recorded [OF m(1) s(3) m(2) i se])
qed

text \<open>C28. A subscription made through the cluster, to a topic the registry does not know, cannot be undone:
  unsubscribing reports \<^verbatim>\<open>ENOENT\<close>, sends nothing and leaves it recorded.\<close>

theorem spot_cluster_subscription_stays:
  assumes "manager_inv (sp_manager s)" and "registry_lookup (sp_registry s) t = None" and "sp_connected s \<noteq> []"
    and "\<not> recorded Sub_remote t s" and "init_subscribe alloc t = Inr ms"
    and "so_send api ms False (sp_recv s) = (Inr (), sock)"
  shows "\<exists>s1. spot_subscribe api alloc t s = (Inr (), s1) \<and> recorded Sub_remote t s1 \<and>
    spot_unsubscribe api alloc t s1 = (Inl ENOENT, s1)"
proof -
  obtain mgr where m: "subscribe_and_send api alloc Sub_remote t s = (Inr (), s\<lparr>sp_manager := mgr, sp_recv := sock\<rparr>)"
    "table_rel (sm_exact mgr) = insert (t, sub_key (spot_subscriber Sub_remote s)) (table_rel (sm_exact (sp_manager s)))"
    using subscribe_first [OF assms(1,4,5,6)] by metis
  have "recorded Sub_remote t (s\<lparr>sp_manager := mgr, sp_recv := sock\<rparr>)" using m(2) by (simp add: recorded_def)
  then show ?thesis using assms(2,3) m(1) by (simp add: spot_subscribe_def spot_unsubscribe_def)
qed

theorem spot_cluster_subscription_stays_witness:
  "\<exists>s1. spot_subscribe queue_api (\<lambda>_. True) [97] (snd (cluster_add queue_api [98] (sample_spot ([], 0)))) = (Inr (), s1) \<and>
    recorded Sub_remote [97] s1 \<and> spot_unsubscribe queue_api (\<lambda>_. True) [97] s1 = (Inl ENOENT, s1)"
proof -
  let ?s = "snd (cluster_add queue_api [98] (sample_spot ([], 0)))"
  have s: "sp_manager ?s = subscription_manager_new" "registry_lookup (sp_registry ?s) [97] = None" "sp_connected ?s \<noteq> []"
    by (simp_all add: cluster_add_def sample_spot_def queue_api_def registry_lookup_def topic_registry_new_def)
  have m: "manager_inv (sp_manager ?s)" "\<not> recorded Sub_remote [97] ?s"
    using fresh_manager by (simp_all add: s(1) recorded_def)
  have i: "init_subscribe (\<lambda>_. True) [97] = Inr \<lparr>m_type = Type_vsm, m_flags = cmd_subscribe, m_data = [97]\<rparr>"
    by (simp add: init_subscribe_def init_size_def max_vsm_size_def set_flags_def)
  obtain sock where "so_send queue_api \<lparr>m_type = Type_vsm, m_flags = cmd_subscribe, m_data = [97]\<rparr> False (sp_recv ?s) = (Inr (), sock)"
    using fifo_sendD [OF queue_api_fifo(1)] by metis
  from spot_cluster_subscription_stays [OF m(1) s(2,3) m(2) i this] show ?thesis .
qed

end
