(* ===== verification/Spot_Node.thy ===== *)
theory Spot_Node
  imports Spot_Pubsub
begin

text \<open>
  The connection to a remote SPOT node (\<^verbatim>\<open>src/src/spot/spot_node.cpp\<close>): the frames of its commands and the
  parsing of what comes back, over the same socket interface as \<^verbatim>\<open>spot_pubsub_t\<close>. Integers that the code copies
  from a frame with \<^verbatim>\<open>memcpy\<close> are little-endian, as on the platforms the library is built for.
\<close>

datatype spot_command = PUBLISH | SUBSCRIBE | UNSUBSCRIBE | QUERY | QUERY_RESP

definition command_byte :: "spot_command \<Rightarrow> byte" where
  "command_byte c = (case c of PUBLISH \<Rightarrow> 1 | SUBSCRIBE \<Rightarrow> 2 | UNSUBSCRIBE \<Rightarrow> 3 | QUERY \<Rightarrow> 4 | QUERY_RESP \<Rightarrow> 5)"

record 's spot_node =
  sn_endpoint :: bytes
  sn_socket :: "'s option"
  sn_connected :: bool
  sn_node_id :: bytes
  sn_reconnect_ivl :: int
  sn_reconnect_ivl_max :: int

text \<open>The constructor asserts that there is a context and an endpoint.\<close>

definition spot_node_new :: "bool \<Rightarrow> bytes \<Rightarrow> 's spot_node option" where
  "spot_node_new ctx ep =
     slk_assert (ctx \<and> ep \<noteq> [])
       (Some \<lparr>sn_endpoint = ep, sn_socket = None, sn_connected = False, sn_node_id = [],
              sn_reconnect_ivl = 100, sn_reconnect_ivl_max = 5000\<rparr>)"

definition generate_node_id :: "u64 \<Rightarrow> bytes \<times> u64" where
  "generate_node_id counter = (ascii ''spot-node-'' @ decimal (unat counter), counter + 1)"

definition SL_RECONNECT_IVL :: int where "SL_RECONNECT_IVL = 18"
definition SL_RECONNECT_IVL_MAX :: int where "SL_RECONNECT_IVL_MAX = 21"

text \<open>\<open>set_id\<close> is the option call that sets the routing id, whose failure is ignored; \<open>dealer\<close> is what
  \<^verbatim>\<open>create_socket\<close> returns.\<close>

definition node_connect ::
  "'s socket_api \<Rightarrow> (bytes \<Rightarrow> 's \<Rightarrow> 's) \<Rightarrow> 's option \<Rightarrow> u64 \<Rightarrow> 's spot_node \<Rightarrow> (errno + unit) \<times> 's spot_node \<times> u64" where
  "node_connect api set_id dealer counter n =
     (if sn_connected n then (Inr (), n, counter)
      else
        case dealer of
          None \<Rightarrow> (Inl ENOMEM, n\<lparr>sn_socket := None\<rparr>, counter)
        | Some sock \<Rightarrow>
            let (nid, counter) = (if sn_node_id n = [] then generate_node_id counter else (sn_node_id n, counter));
                n = n\<lparr>sn_node_id := nid\<rparr>;
                sock = set_id nid sock;
                (_, sock) = so_setsockopt api SL_RECONNECT_IVL (sn_reconnect_ivl n) sock;
                (_, sock) = so_setsockopt api SL_RECONNECT_IVL_MAX (sn_reconnect_ivl_max n) sock;
                (rc, sock) = so_connect api (sn_endpoint n) sock
            in case rc of
                 Inl e \<Rightarrow> (Inl e, n\<lparr>sn_socket := None\<rparr>, counter)
               | Inr _ \<Rightarrow> (Inr (), n\<lparr>sn_socket := Some sock, sn_connected := True\<rparr>, counter))"

definition node_disconnect :: "'s spot_node \<Rightarrow> (errno + unit) \<times> 's spot_node" where
  "node_disconnect n =
     (if \<not> sn_connected n then (Inr (), n) else (Inr (), n\<lparr>sn_socket := None, sn_connected := False\<rparr>))"

section \<open>Sending\<close>

text \<open>One frame: build the message, send it. An error leaves the function.\<close>

definition send_frame :: "'s socket_api \<Rightarrow> (nat \<Rightarrow> bool) \<Rightarrow> bytes \<Rightarrow> bool \<Rightarrow> 's \<Rightarrow> (errno + unit) \<times> 's" where
  "send_frame api alloc d sndmore sock =
     (case init_buffer alloc d of Inl e \<Rightarrow> (Inl e, sock) | Inr m \<Rightarrow> so_send api m sndmore sock)"

definition send_publish ::
  "'s socket_api \<Rightarrow> (nat \<Rightarrow> bool) \<Rightarrow> bytes \<Rightarrow> bytes \<Rightarrow> 's spot_node \<Rightarrow> (errno + unit) \<times> 's spot_node" where
  "send_publish api alloc t d n =
     (case sn_socket n of
        None \<Rightarrow> (Inl EHOSTUNREACH, n)
      | Some sock \<Rightarrow>
          if \<not> sn_connected n then (Inl EHOSTUNREACH, n)
          else
            let (rc, sock) = send_frame api alloc [command_byte PUBLISH] True sock in
            case rc of Inl e \<Rightarrow> (Inl e, n\<lparr>sn_socket := Some sock\<rparr>) | Inr _ \<Rightarrow>
            let (rc, sock) = send_frame api alloc (sn_node_id n) True sock in
            case rc of Inl e \<Rightarrow> (Inl e, n\<lparr>sn_socket := Some sock\<rparr>) | Inr _ \<Rightarrow>
            let (rc, sock) = send_frame api alloc t True sock in
            case rc of Inl e \<Rightarrow> (Inl e, n\<lparr>sn_socket := Some sock\<rparr>) | Inr _ \<Rightarrow>
            let (rc, sock) = send_frame api alloc d False sock in
            (rc, n\<lparr>sn_socket := Some sock\<rparr>))"

definition send_topic_command ::
  "spot_command \<Rightarrow> 's socket_api \<Rightarrow> (nat \<Rightarrow> bool) \<Rightarrow> bytes \<Rightarrow> 's spot_node \<Rightarrow> (errno + unit) \<times> 's spot_node" where
  "send_topic_command c api alloc t n =
     (case sn_socket n of
        None \<Rightarrow> (Inl EHOSTUNREACH, n)
      | Some sock \<Rightarrow>
          if \<not> sn_connected n then (Inl EHOSTUNREACH, n)
          else
            let (rc, sock) = send_frame api alloc [command_byte c] True sock in
            case rc of Inl e \<Rightarrow> (Inl e, n\<lparr>sn_socket := Some sock\<rparr>) | Inr _ \<Rightarrow>
            let (rc, sock) = send_frame api alloc t False sock in
            (rc, n\<lparr>sn_socket := Some sock\<rparr>))"

definition send_subscribe :: "'s socket_api \<Rightarrow> (nat \<Rightarrow> bool) \<Rightarrow> bytes \<Rightarrow> 's spot_node \<Rightarrow> (errno + unit) \<times> 's spot_node" where
  "send_subscribe = send_topic_command SUBSCRIBE"

definition send_unsubscribe :: "'s socket_api \<Rightarrow> (nat \<Rightarrow> bool) \<Rightarrow> bytes \<Rightarrow> 's spot_node \<Rightarrow> (errno + unit) \<times> 's spot_node" where
  "send_unsubscribe = send_topic_command UNSUBSCRIBE"

definition send_query :: "'s socket_api \<Rightarrow> (nat \<Rightarrow> bool) \<Rightarrow> 's spot_node \<Rightarrow> (errno + unit) \<times> 's spot_node" where
  "send_query api alloc n =
     (case sn_socket n of
        None \<Rightarrow> (Inl EHOSTUNREACH, n)
      | Some sock \<Rightarrow>
          if \<not> sn_connected n then (Inl EHOSTUNREACH, n)
          else let (rc, sock) = send_frame api alloc [command_byte QUERY] False sock in (rc, n\<lparr>sn_socket := Some sock\<rparr>))"

section \<open>Receiving\<close>

definition le32 :: "bytes \<Rightarrow> u32" where
  "le32 b = (case b of [b0, b1, b2, b3] \<Rightarrow>
       ucast b0 + 256 * ucast b1 + 65536 * ucast b2 + 16777216 * ucast b3 | _ \<Rightarrow> 0)"

text \<open>The empty frame and the command frame, which must hold the one byte of the expected command.\<close>

definition recv_header :: "'s socket_api \<Rightarrow> bool \<Rightarrow> spot_command \<Rightarrow> 's \<Rightarrow> (errno + unit) \<times> 's" where
  "recv_header api dontwait c sock =
     (let (rc, sock) = so_recv api dontwait sock in
      case rc of Inl e \<Rightarrow> (Inl e, sock) | Inr _ \<Rightarrow>
      let (rc, sock) = so_recv api False sock in
      case rc of Inl e \<Rightarrow> (Inl e, sock) | Inr cmd_msg \<Rightarrow>
      if length (m_data cmd_msg) \<noteq> 1 then (Inl EPROTO, sock)
      else if hd (m_data cmd_msg) \<noteq> command_byte c then (Inl EPROTO, sock)
      else (Inr (), sock))"

text \<open>The loop over the topics of a query response; \<open>k\<close> topics are still to come.\<close>

fun recv_topics :: "'s socket_api \<Rightarrow> nat \<Rightarrow> bytes list \<Rightarrow> 's \<Rightarrow> (errno + unit) \<times> bytes list \<times> 's" where
  "recv_topics api 0 topics sock = (Inr (), topics, sock)"
| "recv_topics api (Suc k) topics sock =
     (let (rc, sock) = so_recv api False sock in
      case rc of
        Inl e \<Rightarrow> (Inl e, topics, sock)
      | Inr topic_msg \<Rightarrow> recv_topics api k (topics @ [m_data topic_msg]) sock)"

definition recv_query_sock :: "'s socket_api \<Rightarrow> bool \<Rightarrow> 's \<Rightarrow> (errno + unit) \<times> bytes list \<times> 's" where
  "recv_query_sock api dontwait sock =
     (let (rc, sock) = recv_header api dontwait QUERY_RESP sock in
      case rc of Inl e \<Rightarrow> (Inl e, [], sock) | Inr _ \<Rightarrow>
      let (rc, sock) = so_recv api False sock in
      case rc of Inl e \<Rightarrow> (Inl e, [], sock) | Inr count_msg \<Rightarrow>
      if length (m_data count_msg) \<noteq> 4 then (Inl EPROTO, [], sock)
      else recv_topics api (unat (le32 (m_data count_msg))) [] sock)"

definition recv_query_response ::
  "'s socket_api \<Rightarrow> bool \<Rightarrow> bytes list \<Rightarrow> 's spot_node \<Rightarrow> (errno + unit) \<times> bytes list \<times> 's spot_node" where
  "recv_query_response api dontwait topics n =
     (case sn_socket n of
        None \<Rightarrow> (Inl EHOSTUNREACH, topics, n)
      | Some sock \<Rightarrow>
          if \<not> sn_connected n then (Inl EHOSTUNREACH, topics, n)
          else let (rc, topics, sock) = recv_query_sock api dontwait sock in (rc, topics, n\<lparr>sn_socket := Some sock\<rparr>))"





text \<open>\<^verbatim>\<open>recv\<close>: the outputs that were assigned before an error keep their new values.\<close>

definition node_recv_sock :: "'s socket_api \<Rightarrow> bool \<Rightarrow> 's \<Rightarrow> (errno + unit) \<times> bytes option \<times> bytes option \<times> 's" where
  "node_recv_sock api dontwait sock =
     (let (rc, sock) = recv_header api dontwait PUBLISH sock in
      case rc of Inl e \<Rightarrow> (Inl e, None, None, sock) | Inr _ \<Rightarrow>
      let (_, sock) = so_recv api False sock;
          (rc, sock) = so_recv api False sock in
      case rc of Inl e \<Rightarrow> (Inl e, None, None, sock) | Inr topic_msg \<Rightarrow>
      let (rc, sock) = so_recv api False sock in
      case rc of Inl e \<Rightarrow> (Inl e, Some (m_data topic_msg), None, sock) | Inr data_msg \<Rightarrow>
      (Inr (), Some (m_data topic_msg), Some (m_data data_msg), sock))"

definition node_recv ::
  "'s socket_api \<Rightarrow> bool \<Rightarrow> 's spot_node \<Rightarrow> (errno + unit) \<times> bytes option \<times> bytes option \<times> 's spot_node" where
  "node_recv api dontwait n =
     (case sn_socket n of
        None \<Rightarrow> (Inl EHOSTUNREACH, None, None, n)
      | Some sock \<Rightarrow>
          if \<not> sn_connected n then (Inl EHOSTUNREACH, None, None, n)
          else let (rc, t, d, sock) = node_recv_sock api dontwait sock in (rc, t, d, n\<lparr>sn_socket := Some sock\<rparr>))"

definition node_fd :: "'s socket_api \<Rightarrow> 's spot_node \<Rightarrow> errno + int" where
  "node_fd api n = (case sn_socket n of None \<Rightarrow> Inl EINVAL | Some sock \<Rightarrow> so_getfd api sock)"

section \<open>Frames over queueing sockets\<close>

lemma send_frame_fifo:
  assumes "fifo_send api q" "init_buffer alloc d = Inr m"
  obtains s' where "send_frame api alloc d mo s = (Inr (), s')" "q s' = q s @ [(d, mo)]"
  using fifo_sendD [OF assms(1), of m mo s] init_buffer_data [OF assms(2)] assms(2) by (metis send_frame_def sum.case(2))

lemma recv_header_fifo:
  assumes "fifo_recv api q" "q s = (x, m1) # ([command_byte c], m2) # rest"
  obtains s' where "recv_header api dw c s = (Inr (), s')" "q s' = rest"
proof -
  obtain n1 s1 where s1: "so_recv api dw s = (Inr n1, s1)" "q s1 = ([command_byte c], m2) # rest"
    using fifo_recvD [OF assms, of dw] by metis
  obtain n2 s2 where s2: "so_recv api False s1 = (Inr n2, s2)" "m_data n2 = [command_byte c]" "q s2 = rest"
    using fifo_recvD [OF assms(1) s1(2), of False] by metis
  show ?thesis using that [of s2] s1 s2 by (simp add: recv_header_def)
qed

lemma recv_topics_fifo:
  assumes "fifo_recv api q"
  shows "q s = map (\<lambda>t. (t, mo t)) ts @ rest \<Longrightarrow>
    \<exists>s'. recv_topics api (length ts) acc s = (Inr (), acc @ ts, s') \<and> q s' = rest"
proof (induction ts arbitrary: s acc)
  case (Cons t ts)
  have "q s = (t, mo t) # (map (\<lambda>t. (t, mo t)) ts @ rest)" using Cons.prems by simp
  then obtain m s1 where "so_recv api False s = (Inr m, s1)" "m_data m = t" "q s1 = map (\<lambda>t. (t, mo t)) ts @ rest"
    using fifo_recvD [OF assms, of s t "mo t" "map (\<lambda>t. (t, mo t)) ts @ rest" False] by metis
  then show ?case using Cons.IH [of s1 "acc @ [t]"] by simp
qed simp

text \<open>C20. A publication sent to a node and forwarded with an empty delimiter frame in front is received as the
  same topic and data: sending queues the command, the origin, the topic and the data as one message, and
  receiving those frames returns the topic and the data and leaves what was queued behind them.\<close>

theorem node_publish_recv_roundtrip:
  assumes "fifo_send api q" and "fifo_recv api q"
    and "sn_connected n" and "sn_socket n = Some sock" and "sn_connected n'" and "sn_socket n' = Some sock'"
    and "\<forall>x\<in>{[command_byte PUBLISH], sn_node_id n, t, d}. \<exists>m. init_buffer alloc x = Inr m"
    and "q sock' = ([], True) # drop (length (q sock)) (q (the (sn_socket (snd (send_publish api alloc t d n))))) @ rest"
  shows "fst (send_publish api alloc t d n) = Inr () \<and>
    (\<exists>n''. node_recv api dw n' = (Inr (), Some t, Some d, n'') \<and> q (the (sn_socket n'')) = rest)"
proof -
  have ok: "\<exists>m. init_buffer alloc [command_byte PUBLISH] = Inr m" "\<exists>m. init_buffer alloc (sn_node_id n) = Inr m"
    "\<exists>m. init_buffer alloc t = Inr m" "\<exists>m. init_buffer alloc d = Inr m" using assms(7) by blast+
  obtain s1 where s1: "send_frame api alloc [command_byte PUBLISH] True sock = (Inr (), s1)" "q s1 = q sock @ [([command_byte PUBLISH], True)]"
    using send_frame_fifo [OF assms(1)] ok(1) by metis
  obtain s2 where s2: "send_frame api alloc (sn_node_id n) True s1 = (Inr (), s2)" "q s2 = q s1 @ [(sn_node_id n, True)]"
    using send_frame_fifo [OF assms(1)] ok(2) by metis
  obtain s3 where s3: "send_frame api alloc t True s2 = (Inr (), s3)" "q s3 = q s2 @ [(t, True)]"
    using send_frame_fifo [OF assms(1)] ok(3) by metis
  obtain s4 where s4: "send_frame api alloc d False s3 = (Inr (), s4)" "q s4 = q s3 @ [(d, False)]"
    using send_frame_fifo [OF assms(1)] ok(4) by metis
  have pub: "send_publish api alloc t d n = (Inr (), n\<lparr>sn_socket := Some s4\<rparr>)"
    using assms(3,4) s1(1) s2(1) s3(1) s4(1) by (simp add: send_publish_def)
  have qs: "q sock' = ([], True) # ([command_byte PUBLISH], True) # (sn_node_id n, True) # (t, True) # (d, False) # rest"
    using assms(8) pub s1(2) s2(2) s3(2) s4(2) by simp
  obtain r1 where r1: "recv_header api dw PUBLISH sock' = (Inr (), r1)" "q r1 = (sn_node_id n, True) # (t, True) # (d, False) # rest"
    using recv_header_fifo [OF assms(2) qs] by metis
  obtain m2 r2 where r2: "so_recv api False r1 = (Inr m2, r2)" "q r2 = (t, True) # (d, False) # rest"
    using fifo_recvD [OF assms(2) r1(2)] by metis
  obtain m3 r3 where r3: "so_recv api False r2 = (Inr m3, r3)" "m_data m3 = t" "q r3 = (d, False) # rest"
    using fifo_recvD [OF assms(2) r2(2)] by metis
  obtain m4 r4 where r4: "so_recv api False r3 = (Inr m4, r4)" "m_data m4 = d" "q r4 = rest"
    using fifo_recvD [OF assms(2) r3(3)] by metis
  show ?thesis using pub assms(5,6) r1(1) r2(1) r3(1,2) r4 by (simp add: node_recv_def node_recv_sock_def)
qed

definition sample_node :: "frames \<Rightarrow> (frames \<times> u64) spot_node" where
  "sample_node fs =
     \<lparr>sn_endpoint = [97], sn_socket = Some (fs, 0), sn_connected = True, sn_node_id = [110],
      sn_reconnect_ivl = 100, sn_reconnect_ivl_max = 5000\<rparr>"

theorem node_publish_recv_roundtrip_witness:
  "\<exists>n''. node_recv queue_api True (sample_node [([], True), ([1], True), ([110], True), ([97], True), ([1, 2], False)]) =
      (Inr (), Some [97], Some [1, 2], n'') \<and> fst (the (sn_socket n'')) = []"
proof -
  let ?n = "sample_node []" and ?n' = "sample_node [([], True), ([1], True), ([110], True), ([97], True), ([1, 2], False)]"
  have n: "sn_connected ?n" "sn_socket ?n = Some ([], 0)" "sn_connected ?n'"
    "sn_socket ?n' = Some ([([], True), ([1], True), ([110], True), ([97], True), ([1, 2], False)], 0)"
    by (simp_all add: sample_node_def)
  have i: "\<forall>x\<in>{[command_byte PUBLISH], sn_node_id ?n, [97], [1, 2]}. \<exists>m. init_buffer (\<lambda>_. True) x = Inr m"
    by (simp add: init_buffer_def init_size_def max_vsm_size_def sample_node_def)
  have p: "fst ([([], True), ([1], True), ([110], True), ([97], True), ([1, 2], False)], 0 :: u64) =
      ([], True) # drop (length (fst ([] :: frames, 0 :: u64)))
        (fst (the (sn_socket (snd (send_publish queue_api (\<lambda>_. True) [97] [1, 2] ?n))))) @ []"
    by (simp add: send_publish_def send_frame_def init_buffer_def init_size_def max_vsm_size_def sample_node_def
        command_byte_def queue_api_def)
  show ?thesis
    using node_publish_recv_roundtrip [OF queue_api_fifo n i p, of True] by simp
qed

text \<open>C21. A query response whose count frame holds the number of the topics that follow is read back as exactly
  these topics, in order.\<close>

theorem node_query_response_parsed:
  assumes "fifo_recv api q" and "sn_connected n" and "sn_socket n = Some sock"
    and "q sock = (x, m1) # ([command_byte QUERY_RESP], m2) # (cnt, m3) # map (\<lambda>t. (t, mo t)) ts @ rest"
    and "length cnt = 4" and "unat (le32 cnt) = length ts"
  shows "\<exists>n'. recv_query_response api dw old n = (Inr (), ts, n') \<and> q (the (sn_socket n')) = rest"
proof -
  obtain s1 where s1: "recv_header api dw QUERY_RESP sock = (Inr (), s1)" "q s1 = (cnt, m3) # map (\<lambda>t. (t, mo t)) ts @ rest"
    using recv_header_fifo [OF assms(1,4)] by metis
  obtain m s2 where s2: "so_recv api False s1 = (Inr m, s2)" "m_data m = cnt" "q s2 = map (\<lambda>t. (t, mo t)) ts @ rest"
    using fifo_recvD [OF assms(1) s1(2)] by metis
  obtain s3 where s3: "recv_topics api (length ts) [] s2 = (Inr (), ts, s3)" "q s3 = rest"
    using recv_topics_fifo [OF assms(1) s2(3), of "[]"] by auto
  have "recv_query_sock api dw sock = (Inr (), ts, s3)"
    using s1(1) s2(1,2) s3(1) assms(5,6) by (simp add: recv_query_sock_def)
  then show ?thesis using assms(2,3) s3(2) by (simp add: recv_query_response_def)
qed

theorem node_query_response_parsed_witness:
  "\<exists>n'. recv_query_response queue_api True [[7]]
      (sample_node [([], True), ([5], True), ([2, 0, 0, 0], True), ([97], True), ([98], True)]) = (Inr (), [[97], [98]], n') \<and>
    fst (the (sn_socket n')) = []"
  by (rule node_query_response_parsed [OF queue_api_fifo(2), where mo = "\<lambda>_. True" and cnt = "[2, 0, 0, 0]" and rest = "[]"
        and sock = "([([], True), ([5], True), ([2, 0, 0, 0], True), ([97], True), ([98], True)], 0)"])
    (simp_all add: sample_node_def command_byte_def le32_def)

section \<open>The blocking query\<close>









end
