(* ===== verification/Yqueue.thy ===== *)
theory Yqueue
  imports Prelude
begin

text \<open>
  The chunked queue (\<^verbatim>\<open>src/src/util/yqueue.hpp\<close>) under the lock-free pipe, with its chunks in a heap: a chunk has
  a value array and two links, and is allocated, linked, kept as the spare and freed as the code does. An access
  through a null or freed pointer is the value \<^const>\<open>None\<close>. A failing \<^verbatim>\<open>malloc\<close> aborts the program and is not
  modelled: the heap hands out fresh addresses. \<open>N\<close> is the granularity of the queue.
\<close>

type_synonym addr = "nat \<times> nat"

record 'a chunk =
  ch_values :: "nat \<Rightarrow> 'a option"
  ch_prev :: "nat option"
  ch_next :: "nat option"

record 'a yqueue =
  yq_heap :: "nat \<Rightarrow> 'a chunk option"
  yq_fresh :: nat
  yq_begin_chunk :: nat
  yq_begin_pos :: nat
  yq_back_chunk :: "nat option"
  yq_back_pos :: nat
  yq_end_chunk :: nat
  yq_end_pos :: nat
  yq_spare :: "nat option"

definition allocate_chunk :: "'a yqueue \<Rightarrow> nat \<times> 'a yqueue" where
  "allocate_chunk q =
     (yq_fresh q,
      q\<lparr>yq_heap := (yq_heap q)(yq_fresh q \<mapsto> \<lparr>ch_values = (\<lambda>_. None), ch_prev = None, ch_next = None\<rparr>),
        yq_fresh := yq_fresh q + 1\<rparr>)"

definition free_chunk :: "nat option \<Rightarrow> 'a yqueue \<Rightarrow> 'a yqueue option" where
  "free_chunk p q =
     (case p of
        None \<Rightarrow> Some q
      | Some c \<Rightarrow> if yq_heap q c = None then None else Some (q\<lparr>yq_heap := (yq_heap q)(c := None)\<rparr>))"

text \<open>Writing a link of a chunk.\<close>

definition set_next :: "nat \<Rightarrow> nat option \<Rightarrow> 'a yqueue \<Rightarrow> 'a yqueue option" where
  "set_next c n q = map_option (\<lambda>ch. q\<lparr>yq_heap := (yq_heap q)(c \<mapsto> ch\<lparr>ch_next := n\<rparr>)\<rparr>) (yq_heap q c)"

definition set_prev :: "nat \<Rightarrow> nat option \<Rightarrow> 'a yqueue \<Rightarrow> 'a yqueue option" where
  "set_prev c p q = map_option (\<lambda>ch. q\<lparr>yq_heap := (yq_heap q)(c \<mapsto> ch\<lparr>ch_prev := p\<rparr>)\<rparr>) (yq_heap q c)"

definition yq_new :: "'a yqueue" where
  "yq_new =
     \<lparr>yq_heap = [0 \<mapsto> \<lparr>ch_values = (\<lambda>_. None), ch_prev = None, ch_next = None\<rparr>], yq_fresh = 1,
      yq_begin_chunk = 0, yq_begin_pos = 0, yq_back_chunk = None, yq_back_pos = 0,
      yq_end_chunk = 0, yq_end_pos = 0, yq_spare = None\<rparr>"

definition yq_front :: "'a yqueue \<Rightarrow> addr" where
  "yq_front q = (yq_begin_chunk q, yq_begin_pos q)"

definition yq_back :: "'a yqueue \<Rightarrow> addr option" where
  "yq_back q = map_option (\<lambda>c. (c, yq_back_pos q)) (yq_back_chunk q)"

definition yq_load :: "addr \<Rightarrow> 'a yqueue \<Rightarrow> 'a option" where
  "yq_load a q = (case yq_heap q (fst a) of None \<Rightarrow> None | Some ch \<Rightarrow> ch_values ch (snd a))"

definition yq_store :: "addr \<Rightarrow> 'a \<Rightarrow> 'a yqueue \<Rightarrow> 'a yqueue option" where
  "yq_store a v q =
     map_option (\<lambda>ch. q\<lparr>yq_heap := (yq_heap q)(fst a \<mapsto> ch\<lparr>ch_values := (ch_values ch)(snd a \<mapsto> v)\<rparr>)\<rparr>) (yq_heap q (fst a))"

text \<open>The chunk that \<open>push\<close> links behind the last one: the spare, taken by an exchange, or a new one.\<close>

definition next_chunk :: "'a yqueue \<Rightarrow> nat \<times> 'a yqueue" where
  "next_chunk q = (case yq_spare q of Some c \<Rightarrow> (c, q\<lparr>yq_spare := None\<rparr>) | None \<Rightarrow> allocate_chunk (q\<lparr>yq_spare := None\<rparr>))"

definition yq_push :: "nat \<Rightarrow> 'a yqueue \<Rightarrow> 'a yqueue option" where
  "yq_push N q =
     (let q = q\<lparr>yq_back_chunk := Some (yq_end_chunk q), yq_back_pos := yq_end_pos q, yq_end_pos := yq_end_pos q + 1\<rparr> in
      if yq_end_pos q \<noteq> N then Some q
      else
        let (n, q) = next_chunk q in
           Option.bind (set_next (yq_end_chunk q) (Some n) q) (\<lambda>q.
           Option.bind (set_prev n (Some (yq_end_chunk q)) q) (\<lambda>q.
           Some (q\<lparr>yq_end_chunk := n, yq_end_pos := 0\<rparr>))))"

text \<open>The two halves of \<^verbatim>\<open>unpush\<close>: the back position and the end position go back by one.\<close>

definition unpush_back :: "nat \<Rightarrow> 'a yqueue \<Rightarrow> 'a yqueue option" where
  "unpush_back N q =
     (if yq_back_pos q \<noteq> 0 then Some (q\<lparr>yq_back_pos := yq_back_pos q - 1\<rparr>)
      else Option.bind (yq_back_chunk q) (\<lambda>b. Option.bind (yq_heap q b) (\<lambda>ch.
        Some (q\<lparr>yq_back_pos := N - 1, yq_back_chunk := ch_prev ch\<rparr>))))"

definition unpush_end :: "nat \<Rightarrow> 'a yqueue \<Rightarrow> 'a yqueue option" where
  "unpush_end N q =
     (if yq_end_pos q \<noteq> 0 then Some (q\<lparr>yq_end_pos := yq_end_pos q - 1\<rparr>)
      else
        Option.bind (yq_heap q (yq_end_chunk q)) (\<lambda>ch. Option.bind (ch_prev ch) (\<lambda>p.
        let q = q\<lparr>yq_end_pos := N - 1, yq_end_chunk := p\<rparr> in
        Option.bind (yq_heap q p) (\<lambda>pch.
        Option.bind (free_chunk (ch_next pch) q) (\<lambda>q. set_next p None q)))))"

definition yq_unpush :: "nat \<Rightarrow> 'a yqueue \<Rightarrow> 'a yqueue option" where
  "yq_unpush N q = Option.bind (unpush_back N q) (unpush_end N)"

definition yq_pop :: "nat \<Rightarrow> 'a yqueue \<Rightarrow> 'a yqueue option" where
  "yq_pop N q =
     (let q = q\<lparr>yq_begin_pos := yq_begin_pos q + 1\<rparr> in
      if yq_begin_pos q \<noteq> N then Some q
      else
        let o' = yq_begin_chunk q in
        Option.bind (yq_heap q o') (\<lambda>ch. Option.bind (ch_next ch) (\<lambda>n.
        Option.bind (set_prev n None (q\<lparr>yq_begin_chunk := n\<rparr>)) (\<lambda>q.
        let cs = yq_spare q in free_chunk cs (q\<lparr>yq_begin_pos := 0, yq_spare := Some o'\<rparr>)))))"

text \<open>The destructor: the loop frees the chunks from the first to the last, then the spare is freed.\<close>

partial_function (option) yq_free_chain :: "'a yqueue \<Rightarrow> 'a yqueue option" where
  "yq_free_chain q =
     (if yq_begin_chunk q = yq_end_chunk q then free_chunk (Some (yq_begin_chunk q)) q
      else
        let o' = yq_begin_chunk q in
        Option.bind (yq_heap q o') (\<lambda>ch. Option.bind (ch_next ch) (\<lambda>n.
        Option.bind (free_chunk (Some o') (q\<lparr>yq_begin_chunk := n\<rparr>)) (\<lambda>q. yq_free_chain q))))"

definition yq_destroy :: "'a yqueue \<Rightarrow> 'a yqueue option" where
  "yq_destroy q = Option.bind (yq_free_chain q) (\<lambda>q. free_chunk (yq_spare q) (q\<lparr>yq_spare := None\<rparr>))"

section \<open>The queue as a list of addresses\<close>

text \<open>The links of allocated chunks.\<close>

definition next_of :: "(nat \<Rightarrow> 'a chunk option) \<Rightarrow> nat \<Rightarrow> nat option" where
  "next_of h c = Option.bind (h c) ch_next"

definition prev_of :: "(nat \<Rightarrow> 'a chunk option) \<Rightarrow> nat \<Rightarrow> nat option" where
  "prev_of h c = Option.bind (h c) ch_prev"

definition linked :: "(nat \<Rightarrow> 'a chunk option) \<Rightarrow> nat list \<Rightarrow> bool" where
  "linked h cs \<longleftrightarrow> cs \<noteq> [] \<and> distinct cs \<and> set cs \<subseteq> dom h \<and>
     (\<forall>i. Suc i < length cs \<longrightarrow> next_of h (cs ! i) = Some (cs ! Suc i) \<and> prev_of h (cs ! Suc i) = Some (cs ! i))"

text \<open>Slot \<open>j\<close> of a chain of chunks, and the slots from \<open>b\<close> up to \<open>e\<close>.\<close>

definition slot :: "nat \<Rightarrow> nat list \<Rightarrow> nat \<Rightarrow> addr" where
  "slot N cs j = (cs ! (j div N), j mod N)"

definition end_index :: "nat \<Rightarrow> nat list \<Rightarrow> 'a yqueue \<Rightarrow> nat" where
  "end_index N cs q = (length cs - 1) * N + yq_end_pos q"

text \<open>The chunks of the chain and the spare are all that is allocated.\<close>

definition heap_ok :: "(nat \<Rightarrow> 'a chunk option) \<Rightarrow> nat option \<Rightarrow> nat \<Rightarrow> nat list \<Rightarrow> bool" where
  "heap_ok h sp fr cs \<longleftrightarrow> linked h cs \<and> dom h = set cs \<union> set_option sp \<and> set cs \<inter> set_option sp = {} \<and> dom h \<subseteq> {..<fr}"

definition yq_chain :: "nat \<Rightarrow> 'a yqueue \<Rightarrow> nat list \<Rightarrow> bool" where
  "yq_chain N q cs \<longleftrightarrow> heap_ok (yq_heap q) (yq_spare q) (yq_fresh q) cs \<and>
     yq_begin_chunk q = hd cs \<and> yq_end_chunk q = last cs \<and>
     yq_begin_pos q < N \<and> yq_end_pos q < N \<and> yq_begin_pos q \<le> end_index N cs q \<and>
     (yq_begin_pos q < end_index N cs q \<longrightarrow> yq_back q = Some (slot N cs (end_index N cs q - 1)))"

lemma yq_chain_linked: "yq_chain N q cs \<Longrightarrow> cs \<noteq> [] \<and> distinct cs \<and> set cs \<subseteq> dom (yq_heap q) \<and> 0 < N"
  by (auto simp: yq_chain_def heap_ok_def linked_def)

definition yq_repr :: "nat \<Rightarrow> 'a yqueue \<Rightarrow> addr list \<Rightarrow> bool" where
  "yq_repr N q as \<longleftrightarrow> (\<exists>cs. yq_chain N q cs \<and> as = map (slot N cs) [yq_begin_pos q..<end_index N cs q])"

lemma slot_div: "yq_chain N q cs \<Longrightarrow> j < end_index N cs q + 1 \<Longrightarrow> j div N < length cs"
proof -
  assume c: "yq_chain N q cs" and j: "j < end_index N cs q + 1"
  then have n: "0 < N" "0 < length cs" using yq_chain_linked [OF c] by auto
  have "end_index N cs q < length cs * N"
    using c n by (cases "length cs") (auto simp: yq_chain_def end_index_def)
  then have "j < length cs * N" using j by linarith
  then show ?thesis by (simp add: less_mult_imp_div_less)
qed

lemma slot_inj:
  assumes "yq_chain N q cs" "i < end_index N cs q + 1" "j < end_index N cs q + 1" "slot N cs i = slot N cs j"
  shows "i = j"
proof -
  have "distinct cs" using yq_chain_linked [OF assms(1)] by simp
  then have "i div N = j div N" "i mod N = j mod N"
    using assms slot_div [of N q cs] by (auto simp: slot_def nth_eq_iff_index_eq)
  then show ?thesis by (metis div_mult_mod_eq)
qed

lemma yq_repr_distinct: "yq_repr N q as \<Longrightarrow> distinct as"
proof -
  assume "yq_repr N q as"
  then obtain cs where cs: "yq_chain N q cs" "as = map (slot N cs) [yq_begin_pos q..<end_index N cs q]"
    by (auto simp: yq_repr_def)
  have "inj_on (slot N cs) {yq_begin_pos q..<end_index N cs q}"
    by (rule inj_onI) (use slot_inj [OF cs(1)] in simp)
  then show ?thesis using cs(2) by (simp add: distinct_map)
qed

lemma yq_repr_front:
  assumes "yq_repr N q as" "as \<noteq> []"
  shows "yq_front q = hd as"
proof -
  obtain cs where cs: "yq_chain N q cs" "as = map (slot N cs) [yq_begin_pos q..<end_index N cs q]"
    using assms(1) by (auto simp: yq_repr_def)
  have "yq_begin_pos q < end_index N cs q" using assms(2) cs(2) by simp
  then have "hd as = slot N cs (yq_begin_pos q)" using cs(2) by (simp add: upt_rec)
  then show ?thesis using cs(1) yq_chain_linked [OF cs(1)] by (simp add: yq_front_def slot_def yq_chain_def hd_conv_nth)
qed

lemma yq_repr_back:
  assumes "yq_repr N q as" "as \<noteq> []"
  shows "yq_back q = Some (last as)"
proof -
  obtain cs where cs: "yq_chain N q cs" "as = map (slot N cs) [yq_begin_pos q..<end_index N cs q]"
    using assms(1) by (auto simp: yq_repr_def)
  have "yq_begin_pos q < end_index N cs q" using assms(2) cs(2) by simp
  then show ?thesis using cs by (simp add: yq_chain_def last_map)
qed

lemma yq_repr_valid:
  assumes "yq_repr N q as" "a \<in> set as"
  shows "yq_heap q (fst a) \<noteq> None"
proof -
  obtain cs j where cs: "yq_chain N q cs" "a = slot N cs j" "j < end_index N cs q"
    using assms by (auto simp: yq_repr_def)
  have "fst a \<in> set cs" using slot_div [OF cs(1), of j] cs(2,3) by (simp add: slot_def)
  moreover have "set cs \<subseteq> dom (yq_heap q)" using yq_chain_linked [OF cs(1)] by simp
  ultimately show ?thesis by blast
qed

lemma yq_repr_new: "0 < N \<Longrightarrow> yq_repr N yq_new []"
  unfolding yq_repr_def
  by (rule exI [of _ "[0]"]) (auto simp: yq_chain_def heap_ok_def linked_def yq_new_def end_index_def split: if_splits)

text \<open>What a change of the heap has to keep.\<close>

lemma linked_cong:
  assumes "linked h cs" "\<And>c. c \<in> set cs \<Longrightarrow> h' c \<noteq> None \<and> next_of h' c = next_of h c \<and> prev_of h' c = prev_of h c"
  shows "linked h' cs"
proof -
  have "next_of h' (cs ! i) = next_of h (cs ! i)" "prev_of h' (cs ! Suc i) = prev_of h (cs ! Suc i)" if "Suc i < length cs" for i
    using assms(2) that by (simp_all add: Suc_lessD)
  then show ?thesis using assms by (auto simp: linked_def)
qed

lemma yq_store_law:
  assumes "yq_repr N q as" "a \<in> set as"
  shows "\<exists>q'. yq_store a v q = Some q' \<and> yq_repr N q' as \<and> yq_load a q' = Some v \<and>
    (\<forall>x. x \<noteq> a \<longrightarrow> yq_load x q' = yq_load x q)"
proof -
  obtain ch where ch: "yq_heap q (fst a) = Some ch" using yq_repr_valid [OF assms] by blast
  let ?ch = "ch\<lparr>ch_values := (ch_values ch)(snd a \<mapsto> v)\<rparr>" and ?h = "(yq_heap q)(fst a \<mapsto> ch\<lparr>ch_values := (ch_values ch)(snd a \<mapsto> v)\<rparr>)"
  have l: "next_of ?h c = next_of (yq_heap q) c" "prev_of ?h c = prev_of (yq_heap q) c" for c
    using ch by (simp_all add: next_of_def prev_of_def)
  have d: "dom ?h = dom (yq_heap q)" using ch by auto
  have "heap_ok ?h sp fr cs = heap_ok (yq_heap q) sp fr cs" for sp fr cs
    unfolding heap_ok_def linked_def l d ..
  then have "yq_chain N (q\<lparr>yq_heap := ?h\<rparr>) cs" if "yq_chain N q cs" for cs
    using that by (simp add: yq_chain_def end_index_def yq_back_def del: fun_upd_apply)
  then have "yq_repr N (q\<lparr>yq_heap := ?h\<rparr>) as" using assms(1) by (auto simp: yq_repr_def end_index_def)
  then show ?thesis using ch by (auto simp: yq_store_def yq_load_def prod_eq_iff)
qed

lemma end_index_append: "cs \<noteq> [] \<Longrightarrow> end_index N (cs @ [n]) q = length cs * N + yq_end_pos q"
  by (simp add: end_index_def)

lemma slot_append: "j div N < length cs \<Longrightarrow> slot N (cs @ [n]) j = slot N cs j"
  by (simp add: slot_def nth_append)

lemma linked_append:
  assumes "linked h cs" "n \<notin> set cs" "n \<in> dom h" "next_of h (last cs) = Some n" "prev_of h n = Some (last cs)"
  shows "linked h (cs @ [n])"
proof -
  have "next_of h ((cs @ [n]) ! i) = Some ((cs @ [n]) ! Suc i) \<and> prev_of h ((cs @ [n]) ! Suc i) = Some ((cs @ [n]) ! i)"
    if i: "Suc i < length (cs @ [n])" for i
  proof (cases "Suc i < length cs")
    case True
    then show ?thesis using assms(1) by (simp add: linked_def nth_append)
  next
    case False
    then have "i = length cs - 1" "i < length cs" using i assms(1) by (auto simp: linked_def)
    then show ?thesis using assms(1,4,5) by (simp add: linked_def nth_append last_conv_nth)
  qed
  then show ?thesis using assms(1-3) by (simp add: linked_def)
qed

lemma next_chunk_law:
  assumes "heap_ok (yq_heap q) (yq_spare q) (yq_fresh q) cs"
  obtains n h fr where "next_chunk q = (n, q\<lparr>yq_heap := h, yq_fresh := fr, yq_spare := None\<rparr>)"
    and "n \<notin> set cs" "dom h = insert n (set cs)" "dom h \<subseteq> {..<fr}" "\<forall>c\<in>set cs. h c = yq_heap q c"
proof (cases "yq_spare q")
  case None
  let ?h = "(yq_heap q)(yq_fresh q \<mapsto> \<lparr>ch_values = (\<lambda>_. None), ch_prev = None, ch_next = None\<rparr>)"
  have d: "dom (yq_heap q) = set cs" "set cs \<subseteq> {..<yq_fresh q}" using assms None by (auto simp: heap_ok_def)
  show ?thesis
  proof (rule that)
    show "next_chunk q = (yq_fresh q, q\<lparr>yq_heap := ?h, yq_fresh := yq_fresh q + 1, yq_spare := None\<rparr>)"
      using None by (simp add: next_chunk_def allocate_chunk_def)
  qed (use d in auto)
next
  case (Some c)
  have h: "dom (yq_heap q) = insert c (set cs)" "c \<notin> set cs" "dom (yq_heap q) \<subseteq> {..<yq_fresh q}"
    using assms Some by (auto simp: heap_ok_def)
  show ?thesis
  proof (rule that)
    show "next_chunk q = (c, q\<lparr>yq_heap := yq_heap q, yq_fresh := yq_fresh q, yq_spare := None\<rparr>)"
      using Some by (simp add: next_chunk_def)
  qed (use h in auto)
qed

lemma slot_end:
  assumes "yq_chain N q cs"
  shows "slot N cs (end_index N cs q) = (last cs, yq_end_pos q)"
  using assms yq_chain_linked [OF assms] by (simp add: slot_def end_index_def yq_chain_def last_conv_nth)

lemma yq_push_small:
  assumes "yq_chain N q cs" "yq_end_pos q + 1 \<noteq> N"
  shows "\<exists>q'. yq_push N q = Some q' \<and> yq_chain N q' cs \<and> end_index N cs q' = end_index N cs q + 1 \<and>
    yq_begin_pos q' = yq_begin_pos q \<and> yq_heap q' = yq_heap q"
  using assms slot_end [OF assms(1)]
  by (auto simp: yq_push_def Let_def yq_chain_def end_index_def yq_back_def)

lemma yq_push_chunk:
  assumes "yq_chain N q cs" "yq_end_pos q + 1 = N"
  shows "\<exists>q' n. yq_push N q = Some q' \<and> yq_chain N q' (cs @ [n]) \<and> end_index N (cs @ [n]) q' = end_index N cs q + 1 \<and>
    yq_begin_pos q' = yq_begin_pos q \<and> (\<forall>x. fst x \<in> set cs \<longrightarrow> yq_load x q' = yq_load x q)"
proof -
  let ?q = "q\<lparr>yq_back_chunk := Some (yq_end_chunk q), yq_back_pos := yq_end_pos q, yq_end_pos := yq_end_pos q + 1\<rparr>"
  have cs: "cs \<noteq> []" "distinct cs" and e: "yq_end_chunk q = last cs" and lk: "linked (yq_heap q) cs"
    using assms(1) yq_chain_linked [OF assms(1)] by (auto simp: yq_chain_def heap_ok_def)
  have ok: "heap_ok (yq_heap ?q) (yq_spare ?q) (yq_fresh ?q) cs" using assms(1) by (simp add: yq_chain_def)
  obtain n h fr where n: "next_chunk ?q = (n, ?q\<lparr>yq_heap := h, yq_fresh := fr, yq_spare := None\<rparr>)"
    "n \<notin> set cs" "dom h = insert n (set cs)" "dom h \<subseteq> {..<fr}" and h': "\<forall>c\<in>set cs. h c = yq_heap ?q c"
    by (rule next_chunk_law [OF ok])
  have h: "\<And>c. c \<in> set cs \<Longrightarrow> h c = yq_heap q c" using h' by simp
  obtain lc nc where c: "h (last cs) = Some lc" "h n = Some nc" using n(3) cs by (metis domD insertCI last_in_set)
  have ne: "last cs \<noteq> n" using n(2) cs by auto
  let ?h = "h(last cs \<mapsto> lc\<lparr>ch_next := Some n\<rparr>, n \<mapsto> nc\<lparr>ch_prev := Some (last cs)\<rparr>)"
  let ?q' = "?q\<lparr>yq_heap := ?h, yq_fresh := fr, yq_spare := None, yq_end_chunk := n, yq_end_pos := 0\<rparr>"
  have push: "yq_push N q = Some ?q'"
    using assms(2) n(1) c ne e by (simp add: yq_push_def Let_def set_next_def set_prev_def)
  have keep: "next_of ?h (cs ! i) = next_of (yq_heap q) (cs ! i)" if "Suc i < length cs" for i
    using that cs h [of "cs ! i"] n(2) by (auto simp: next_of_def last_conv_nth nth_eq_iff_index_eq)
  have keep': "prev_of ?h (cs ! i) = prev_of (yq_heap q) (cs ! i)" if "i < length cs" for i
  proof -
    have "cs ! i \<noteq> n" "yq_heap q (cs ! i) = h (cs ! i)" using that h [of "cs ! i"] n(2) by auto
    then show ?thesis using c(1) by (cases "cs ! i = last cs") (simp_all add: prev_of_def)
  qed
  have "linked ?h cs" using lk keep keep' n(3) by (auto simp: linked_def)
  then have "linked ?h (cs @ [n])"
    by (rule linked_append) (use n(2,3) ne in \<open>auto simp: next_of_def prev_of_def\<close>)
  moreover have "dom ?h = set (cs @ [n])" using n(3) cs by auto
  ultimately have hok: "heap_ok ?h None fr (cs @ [n])" using n(3,4) cs(1) by (auto simp: heap_ok_def)
  have ei: "end_index N (cs @ [n]) ?q' = end_index N cs q + 1"
  proof -
    have "length cs * N = (length cs - 1) * N + N" using cs by (cases cs) auto
    then show ?thesis using assms(2) by (simp add: end_index_def)
  qed
  have "slot N (cs @ [n]) (end_index N cs q) = (last cs, yq_end_pos q)"
    using slot_end [OF assms(1)] slot_div [OF assms(1), of "end_index N cs q"] by (simp add: slot_append)
  then have "yq_chain N ?q' (cs @ [n])"
    using hok ei assms cs(1) e by (simp add: yq_chain_def yq_back_def)
  moreover have "yq_load x ?q' = yq_load x q" if "fst x \<in> set cs" for x
  proof -
    have "fst x \<noteq> n" "yq_heap q (fst x) = h (fst x)" using h [OF that] n(2) that by auto
    then show ?thesis using c(1) by (cases "fst x = last cs") (simp_all add: yq_load_def)
  qed
  ultimately show ?thesis using push ei
    by (intro exI [of _ ?q'] exI [of _ n]) (simp del: fun_upd_apply)
qed

lemma yq_push_law:
  assumes "yq_repr N q as"
  shows "\<exists>q' a. yq_push N q = Some q' \<and> yq_repr N q' (as @ [a]) \<and> (\<forall>x\<in>set as. yq_load x q' = yq_load x q)"
proof -
  obtain cs where cs: "yq_chain N q cs" "as = map (slot N cs) [yq_begin_pos q..<end_index N cs q]"
    using assms by (auto simp: yq_repr_def)
  have b: "yq_begin_pos q \<le> end_index N cs q" using cs(1) by (simp add: yq_chain_def)
  show ?thesis
  proof (cases "yq_end_pos q + 1 = N")
    case False
    then obtain q' where q: "yq_push N q = Some q'" "yq_chain N q' cs" "end_index N cs q' = end_index N cs q + 1"
      "yq_begin_pos q' = yq_begin_pos q" "yq_heap q' = yq_heap q" using yq_push_small [OF cs(1)] by blast
    have "as @ [slot N cs (end_index N cs q)] = map (slot N cs) [yq_begin_pos q'..<end_index N cs q']"
      using cs(2) q(3,4) b by simp
    then have "yq_repr N q' (as @ [slot N cs (end_index N cs q)])" using q(2) unfolding yq_repr_def by blast
    moreover have "\<forall>x\<in>set as. yq_load x q' = yq_load x q" by (simp add: yq_load_def q(5))
    ultimately show ?thesis using q(1) by blast
  next
    case True
    then obtain q' n where q: "yq_push N q = Some q'" "yq_chain N q' (cs @ [n])" "end_index N (cs @ [n]) q' = end_index N cs q + 1"
      "yq_begin_pos q' = yq_begin_pos q" "\<forall>x. fst x \<in> set cs \<longrightarrow> yq_load x q' = yq_load x q"
      using yq_push_chunk [OF cs(1)] by blast
    have same: "slot N (cs @ [n]) j = slot N cs j" if "j < end_index N cs q" for j
      using slot_div [OF cs(1), of j] that by (simp add: slot_append)
    then have "map (slot N (cs @ [n])) [yq_begin_pos q'..<end_index N (cs @ [n]) q'] = as @ [slot N (cs @ [n]) (end_index N cs q)]"
      using q(3,4) b cs(2) by simp
    then have "yq_repr N q' (as @ [slot N (cs @ [n]) (end_index N cs q)])" using q(2) by (auto simp: yq_repr_def)
    moreover have "fst x \<in> set cs" if "x \<in> set as" for x
      using that cs slot_div [OF cs(1)] by (auto simp: slot_def)
    ultimately show ?thesis using q(1,5) by blast
  qed
qed

text \<open>\<open>pop\<close>, with the first chunk left behind as the spare.\<close>

lemma linkedD:
  assumes "linked h cs"
  shows "cs \<noteq> []" "distinct cs" "set cs \<subseteq> dom h"
    and "Suc i < length cs \<Longrightarrow> next_of h (cs ! i) = Some (cs ! Suc i)"
    and "Suc i < length cs \<Longrightarrow> prev_of h (cs ! Suc i) = Some (cs ! i)"
  using assms unfolding linked_def by blast+

lemma linkedI:
  assumes "cs \<noteq> []" "distinct cs" "set cs \<subseteq> dom h"
    and "\<And>i. Suc i < length cs \<Longrightarrow> next_of h (cs ! i) = Some (cs ! Suc i)"
    and "\<And>i. Suc i < length cs \<Longrightarrow> prev_of h (cs ! Suc i) = Some (cs ! i)"
  shows "linked h cs"
  using assms unfolding linked_def by blast

lemma linked_tl:
  assumes "linked h (c # d # cs)"
  shows "linked h (d # cs)"
proof (rule linkedI)
  fix i assume i: "Suc i < length (d # cs)"
  then have "Suc (Suc i) < length (c # d # cs)" by simp
  from linkedD(4,5) [OF assms this]
  show "next_of h ((d # cs) ! i) = Some ((d # cs) ! Suc i)" "prev_of h ((d # cs) ! Suc i) = Some ((d # cs) ! i)"
    by (simp_all only: nth_Cons_Suc)
qed (use linkedD(2,3) [OF assms] in auto)

lemma linked_set_prev_hd:
  assumes "linked h cs" "h (hd cs) = Some ch"
  shows "linked (h(hd cs \<mapsto> ch\<lparr>ch_prev := p\<rparr>)) cs"
proof -
  let ?h = "h(hd cs \<mapsto> ch\<lparr>ch_prev := p\<rparr>)"
  have n: "next_of ?h c = next_of h c" for c using assms(2) by (simp add: next_of_def)
  have "prev_of ?h (cs ! Suc i) = prev_of h (cs ! Suc i)" if "Suc i < length cs" for i
  proof -
    have "cs ! Suc i \<noteq> hd cs" using assms(1) that by (auto simp: linked_def hd_conv_nth nth_eq_iff_index_eq)
    then show ?thesis by (simp add: prev_of_def)
  qed
  then show ?thesis using assms n by (auto simp: linked_def)
qed

lemma yq_pop_chunk:
  assumes "yq_chain N q cs" "yq_begin_pos q + 1 = N" "yq_begin_pos q < end_index N cs q"
  shows "\<exists>q'. yq_pop N q = Some q' \<and> yq_chain N q' (tl cs) \<and> yq_begin_pos q' = 0 \<and>
    end_index N (tl cs) q' = end_index N cs q - N \<and> N \<le> end_index N cs q \<and>
    (\<forall>x. fst x \<in> set (tl cs) \<longrightarrow> yq_load x q' = yq_load x q)"
proof -
  have ge: "N \<le> end_index N cs q" using assms(2,3) by simp
  have "length cs \<noteq> 1" "cs \<noteq> []" using assms ge yq_chain_linked [OF assms(1)] by (auto simp: yq_chain_def end_index_def)
  then obtain c d ds where cs: "cs = c # d # ds" by (metis One_nat_def length_0_conv length_Suc_conv neq_Nil_conv)
  have ok: "linked (yq_heap q) cs" "dom (yq_heap q) = set cs \<union> set_option (yq_spare q)"
    "set cs \<inter> set_option (yq_spare q) = {}" "dom (yq_heap q) \<subseteq> {..<yq_fresh q}"
    and b: "yq_begin_chunk q = c" "yq_end_chunk q = last cs" using assms(1) cs by (auto simp: yq_chain_def heap_ok_def)
  obtain ch where ch: "yq_heap q c = Some ch" "ch_next ch = Some d"
    using ok(1) by (auto simp: linked_def cs next_of_def bind_eq_Some_conv dest: spec [of _ 0])
  obtain dh where dh: "yq_heap q d = Some dh" using ok(2) cs by (metis domD insertCI list.set(2) UnI1)
  have cd: "c \<noteq> d" "c \<notin> set ds" "d \<notin> set ds" using ok(1) by (auto simp: linked_def cs)
  let ?h = "(yq_heap q)(d \<mapsto> dh\<lparr>ch_prev := None\<rparr>)"
  let ?h' = "case yq_spare q of None \<Rightarrow> ?h | Some s \<Rightarrow> ?h(s := None)"
  let ?q' = "q\<lparr>yq_begin_pos := 0, yq_begin_chunk := d, yq_spare := Some c, yq_heap := ?h'\<rparr>"
  have sp: "s \<noteq> c \<and> s \<noteq> d \<and> s \<notin> set ds \<and> yq_heap q s \<noteq> None" if "yq_spare q = Some s" for s
    using ok(2,3) that cs by auto
  have pop: "yq_pop N q = Some ?q'"
    using assms(2) b(1) ch dh sp by (auto simp: yq_pop_def Let_def set_prev_def free_chunk_def split: option.splits)
  have "linked ?h (d # ds)"
    using linked_set_prev_hd [of "yq_heap q" "d # ds" dh None] linked_tl [of "yq_heap q" c d ds] ok(1) dh cs by simp
  then have l: "linked ?h' (d # ds)"
    by (rule linked_cong) (use sp ok(2) cs dh in \<open>auto simp: next_of_def prev_of_def split: option.splits\<close>)
  have dom: "dom ?h' = set (d # ds) \<union> {c}" using ok(2,3) cs sp by (auto split: option.splits if_splits)
  have ei: "end_index N (d # ds) ?q' = end_index N cs q - N" by (simp add: end_index_def cs)
  have shift: "slot N cs (j + N) = slot N (d # ds) j" for j
  proof -
    have "0 < N" using yq_chain_linked [OF assms(1)] by simp
    then have "(j + N) div N = Suc (j div N)" using div_add_self2 [of N j] by simp
    then show ?thesis by (simp add: slot_def cs)
  qed
  have bk: "yq_begin_pos ?q' < end_index N (d # ds) ?q' \<longrightarrow> yq_back ?q' = Some (slot N (d # ds) (end_index N (d # ds) ?q' - 1))"
  proof
    assume "yq_begin_pos ?q' < end_index N (d # ds) ?q'"
    then have "end_index N (d # ds) ?q' - 1 + N = end_index N cs q - 1" using ei by simp
    then have "slot N (d # ds) (end_index N (d # ds) ?q' - 1) = slot N cs (end_index N cs q - 1)" using shift by metis
    then show "yq_back ?q' = Some (slot N (d # ds) (end_index N (d # ds) ?q' - 1))"
      using assms(1,3) by (simp add: yq_chain_def yq_back_def)
  qed
  have "dom ?h' \<subseteq> {..<yq_fresh q}" unfolding dom using ok(2,4) cs by auto
  then have hok: "heap_ok ?h' (Some c) (yq_fresh q) (d # ds)" unfolding heap_ok_def using l dom cd by auto
  have "yq_chain N ?q' (d # ds)"
    unfolding yq_chain_def using hok bk assms(1,2) cs b by (simp add: yq_chain_def)
  moreover have "yq_load x ?q' = yq_load x q" if "fst x \<in> set (d # ds)" for x
  proof -
    have "map_option ch_values (?h' (fst x)) = map_option ch_values (yq_heap q (fst x))"
      using that sp dh by (cases "yq_spare q") auto
    then show ?thesis by (cases "?h' (fst x)"; cases "yq_heap q (fst x)") (simp_all add: yq_load_def del: fun_upd_apply)
  qed
  ultimately show ?thesis using pop ei ge cs by simp
qed

lemma yq_pop_law:
  assumes "yq_repr N q as" "as \<noteq> []"
  shows "\<exists>q'. yq_pop N q = Some q' \<and> yq_repr N q' (tl as) \<and> (\<forall>x\<in>set (tl as). yq_load x q' = yq_load x q)"
proof -
  obtain cs where cs: "yq_chain N q cs" "as = map (slot N cs) [yq_begin_pos q..<end_index N cs q]"
    using assms(1) by (auto simp: yq_repr_def)
  have b: "yq_begin_pos q < end_index N cs q" using assms(2) cs(2) by simp
  have tl: "tl as = map (slot N cs) [yq_begin_pos q + 1..<end_index N cs q]"
    using b cs(2) by (simp add: map_tl [symmetric] tl_upt)
  show ?thesis
  proof (cases "yq_begin_pos q + 1 = N")
    case False
    let ?q' = "q\<lparr>yq_begin_pos := yq_begin_pos q + 1\<rparr>"
    have "yq_pop N q = Some ?q'" using False by (simp add: yq_pop_def)
    moreover have "yq_chain N ?q' cs" using cs(1) b False by (auto simp: yq_chain_def end_index_def yq_back_def)
    moreover have "yq_load x ?q' = yq_load x q" for x by (simp add: yq_load_def)
    moreover have "tl as = map (slot N cs) [yq_begin_pos ?q'..<end_index N cs ?q']" using tl by (simp add: end_index_def)
    ultimately show ?thesis unfolding yq_repr_def by blast
  next
    case True
    then obtain q' where q: "yq_pop N q = Some q'" "yq_chain N q' (tl cs)" "yq_begin_pos q' = 0"
      "end_index N (tl cs) q' = end_index N cs q - N" "N \<le> end_index N cs q"
      "\<forall>x. fst x \<in> set (tl cs) \<longrightarrow> yq_load x q' = yq_load x q"
      using yq_pop_chunk [OF cs(1) True b] by blast
    have N: "0 < N" using yq_chain_linked [OF cs(1)] by simp
    have shift: "slot N cs (j + N) = slot N (tl cs) j" for j
      using div_add_self2 [of N j] N yq_chain_linked [OF cs(1)] yq_chain_linked [OF q(2)]
      by (simp add: slot_def nth_tl) (cases cs; simp)
    have "[yq_begin_pos q + 1..<end_index N cs q] = map (\<lambda>j. j + N) [0..<end_index N cs q - N]"
      using True q(5) by (simp add: map_add_upt)
    then have as: "tl as = map (slot N (tl cs)) [yq_begin_pos q'..<end_index N (tl cs) q']"
      using tl q(3,4) shift by (simp add: comp_def)
    moreover have "fst x \<in> set (tl cs)" if "x \<in> set (tl as)" for x
      using that slot_div [OF q(2)] unfolding as by (auto simp: slot_def)
    ultimately show ?thesis using q(1,2,6) unfolding yq_repr_def by blast
  qed
qed

lemma back_chunk_same: "q\<lparr>yq_back_pos := p\<rparr> = q\<lparr>yq_back_chunk := yq_back_chunk q, yq_back_pos := p\<rparr>"
  by (cases q) simp

lemma unpush_back_law:
  assumes "yq_chain N q cs" "yq_begin_pos q < end_index N cs q"
  shows "\<exists>bc bp. unpush_back N q = Some (q\<lparr>yq_back_chunk := bc, yq_back_pos := bp\<rparr>) \<and>
    (yq_begin_pos q < end_index N cs q - 1 \<longrightarrow> map_option (\<lambda>c. (c, bp)) bc = Some (slot N cs (end_index N cs q - 2)))"
proof -
  let ?e = "end_index N cs q"
  have N: "0 < N" and lk: "linked (yq_heap q) cs" using yq_chain_linked [OF assms(1)] assms(1) by (auto simp: yq_chain_def heap_ok_def)
  have "yq_back q = Some (slot N cs (?e - 1))" using assms by (simp add: yq_chain_def)
  then have b: "yq_back_chunk q = Some (cs ! ((?e - 1) div N))" "yq_back_pos q = (?e - 1) mod N"
    by (auto simp: yq_back_def slot_def)
  have in_cs: "(?e - 1) div N < length cs" using slot_div [OF assms(1), of "?e - 1"] by simp
  then obtain ch where ch: "yq_heap q (cs ! ((?e - 1) div N)) = Some ch" using linkedD(3) [OF lk] nth_mem by blast
  show ?thesis
  proof (cases "(?e - 1) mod N = 0")
    case False
    have "(?e - 2) div N = (?e - 1) div N" "(?e - 2) mod N = (?e - 1) mod N - 1"
      if "2 \<le> ?e" using False that mod_Suc [of "?e - 2" N] div_Suc [of "?e - 2" N] by (auto simp: numeral_2_eq_2 Suc_diff_Suc split: if_splits)
    moreover have "unpush_back N q = Some (q\<lparr>yq_back_chunk := yq_back_chunk q, yq_back_pos := (?e - 1) mod N - 1\<rparr>)"
      unfolding back_chunk_same [symmetric] using False b by (simp add: unpush_back_def)
    ultimately show ?thesis using b
      by (intro exI [of _ "yq_back_chunk q"] exI [of _ "(?e - 1) mod N - 1"]) (auto simp: slot_def)
  next
    case True
    have "ch_prev ch = Some (cs ! ((?e - 2) div N)) \<and> (?e - 2) mod N = N - 1" if "yq_begin_pos q < ?e - 1"
    proof -
      have e2: "Suc (?e - 2) = ?e - 1" using that by simp
      have "(?e - 1) div N = Suc ((?e - 2) div N)" "(?e - 2) mod N = N - 1"
        using True N mod_Suc [of "?e - 2" N] div_Suc [of "?e - 2" N] unfolding e2 by (auto split: if_splits)
      then show ?thesis using linkedD(5) [OF lk, of "(?e - 2) div N"] in_cs ch by (simp add: prev_of_def)
    qed
    moreover have "unpush_back N q = Some (q\<lparr>yq_back_chunk := ch_prev ch, yq_back_pos := N - 1\<rparr>)"
      using True b ch by (simp add: unpush_back_def)
    ultimately show ?thesis by (intro exI [of _ "ch_prev ch"] exI [of _ "N - 1"]) (auto simp: slot_def)
  qed
qed

lemma linked_butlast:
  assumes "linked h (cs @ [c])" "cs \<noteq> []" "h (last cs) = Some ch"
  shows "linked (h(c := None, last cs \<mapsto> ch\<lparr>ch_next := None\<rparr>)) cs" (is "linked ?h cs")
proof (rule linkedI)
  have d: "distinct cs" "c \<notin> set cs" using linkedD(2) [OF assms(1)] by auto
  show "cs \<noteq> []" "distinct cs" using assms(2) d by simp_all
  show "set cs \<subseteq> dom ?h" using linkedD(3) [OF assms(1)] d by auto
  fix i assume i: "Suc i < length cs"
  have "cs ! i \<noteq> last cs" "cs ! i \<noteq> c" "cs ! Suc i \<noteq> c"
    using i d assms(2) by (auto simp: last_conv_nth nth_eq_iff_index_eq dest: nth_mem)
  then have keep: "next_of ?h (cs ! i) = next_of h (cs ! i)" "prev_of ?h (cs ! Suc i) = prev_of h (cs ! Suc i)"
    using assms(3) by (auto simp: next_of_def prev_of_def)
  show "next_of ?h (cs ! i) = Some (cs ! Suc i)"
    unfolding keep using linkedD(4) [OF assms(1), of i] i by (simp add: nth_append)
  show "prev_of ?h (cs ! Suc i) = Some (cs ! i)"
    unfolding keep using linkedD(5) [OF assms(1), of i] i by (simp add: nth_append)
qed

lemma unpush_end_chunk:
  assumes "heap_ok (yq_heap q) (yq_spare q) (yq_fresh q) (cs @ [c])" "cs \<noteq> []" "yq_end_chunk q = c" "yq_end_pos q = 0"
  obtains ch where "yq_heap q (last cs) = Some ch"
    and "unpush_end N q = Some (q\<lparr>yq_end_pos := N - 1, yq_end_chunk := last cs,
      yq_heap := (yq_heap q)(c := None, last cs \<mapsto> ch\<lparr>ch_next := None\<rparr>)\<rparr>)"
    and "heap_ok ((yq_heap q)(c := None, last cs \<mapsto> ch\<lparr>ch_next := None\<rparr>)) (yq_spare q) (yq_fresh q) cs"
proof -
  have lk: "linked (yq_heap q) (cs @ [c])" and dom: "dom (yq_heap q) = insert c (set cs) \<union> set_option (yq_spare q)"
    and sp: "insert c (set cs) \<inter> set_option (yq_spare q) = {}" "dom (yq_heap q) \<subseteq> {..<yq_fresh q}"
    using assms(1) by (auto simp: heap_ok_def)
  have d: "c \<notin> set cs" "last cs \<in> set cs" using linkedD(2) [OF lk] assms(2) by auto
  have i: "Suc (length cs - 1) < length (cs @ [c])" using assms(2) by simp
  have n: "next_of (yq_heap q) (last cs) = Some c" "prev_of (yq_heap q) c = Some (last cs)"
    using linkedD(4,5) [OF lk i] assms(2) by (simp_all add: nth_append last_conv_nth)
  obtain ch where ch: "yq_heap q (last cs) = Some ch" "ch_next ch = Some c"
    using n(1) by (auto simp: next_of_def bind_eq_Some_conv)
  obtain cc where cc: "yq_heap q c = Some cc" "ch_prev cc = Some (last cs)"
    using n(2) by (auto simp: prev_of_def bind_eq_Some_conv)
  let ?h = "(yq_heap q)(c := None, last cs \<mapsto> ch\<lparr>ch_next := None\<rparr>)"
  have ne: "last cs \<noteq> c" using d by auto
  have "unpush_end N q = Some (q\<lparr>yq_end_pos := N - 1, yq_end_chunk := last cs, yq_heap := ?h\<rparr>)"
    using assms(3,4) ch cc ne by (simp add: unpush_end_def Let_def free_chunk_def set_next_def)
  moreover have "heap_ok ?h (yq_spare q) (yq_fresh q) cs"
    unfolding heap_ok_def
  proof (intro conjI)
    show "linked ?h cs" using linked_butlast [OF lk assms(2) ch(1)] .
    show "dom ?h = set cs \<union> set_option (yq_spare q)" using dom sp(1) d by auto
    show "set cs \<inter> set_option (yq_spare q) = {}" using sp(1) by blast
    show "dom ?h \<subseteq> {..<yq_fresh q}" using sp(2) dom d by auto
  qed
  ultimately show ?thesis using that ch(1) by blast
qed

lemma yq_unpush_law:
  assumes "yq_repr N q as" "as \<noteq> []"
  shows "\<exists>q'. yq_unpush N q = Some q' \<and> yq_repr N q' (butlast as) \<and> (\<forall>x\<in>set (butlast as). yq_load x q' = yq_load x q)"
proof -
  obtain cs where cs: "yq_chain N q cs" "as = map (slot N cs) [yq_begin_pos q..<end_index N cs q]"
    using assms(1) by (auto simp: yq_repr_def)
  let ?e = "end_index N cs q"
  have b: "yq_begin_pos q < ?e" using assms(2) cs(2) by simp
  have "[yq_begin_pos q..<?e] = [yq_begin_pos q..<?e - 1] @ [?e - 1]"
    using upt_Suc_append [of "yq_begin_pos q" "?e - 1"] b by simp
  then have bl: "butlast as = map (slot N cs) [yq_begin_pos q..<?e - 1]" using cs(2) by simp
  obtain bc bp where ub: "unpush_back N q = Some (q\<lparr>yq_back_chunk := bc, yq_back_pos := bp\<rparr>)"
    "yq_begin_pos q < ?e - 1 \<Longrightarrow> map_option (\<lambda>c. (c, bp)) bc = Some (slot N cs (?e - 2))"
    using unpush_back_law [OF cs(1) b] by blast
  let ?q = "q\<lparr>yq_back_chunk := bc, yq_back_pos := bp\<rparr>"
  show ?thesis
  proof (cases "yq_end_pos q = 0")
    case False
    let ?q' = "?q\<lparr>yq_end_pos := yq_end_pos q - 1\<rparr>"
    have "yq_unpush N q = Some ?q'" using False ub(1) by (simp add: yq_unpush_def unpush_end_def)
    moreover have ei: "end_index N cs ?q' = ?e - 1" using False by (simp add: end_index_def)
    moreover have "yq_chain N ?q' cs"
      unfolding yq_chain_def ei using cs(1) b ub(2) by (auto simp: yq_chain_def yq_back_def numeral_2_eq_2)
    moreover have "butlast as = map (slot N cs) [yq_begin_pos ?q'..<end_index N cs ?q']" unfolding ei using bl by simp
    moreover have "yq_load x ?q' = yq_load x q" for x by (simp add: yq_load_def)
    ultimately show ?thesis unfolding yq_repr_def by blast
  next
    case True
    have "length cs \<noteq> 1" "cs \<noteq> []" using b True yq_chain_linked [OF cs(1)] by (auto simp: end_index_def)
    then obtain ds c where ds: "cs = ds @ [c]" "ds \<noteq> []" by (metis append_Nil length_Cons list.size(3) One_nat_def rev_exhaust)
    have ok: "heap_ok (yq_heap ?q) (yq_spare ?q) (yq_fresh ?q) (ds @ [c])" "yq_end_chunk ?q = c" "yq_end_pos ?q = 0"
      using cs(1) ds True by (auto simp: yq_chain_def)
    obtain ch where ch: "yq_heap ?q (last ds) = Some ch"
      and ue: "unpush_end N ?q = Some (?q\<lparr>yq_end_pos := N - 1, yq_end_chunk := last ds,
        yq_heap := (yq_heap ?q)(c := None, last ds \<mapsto> ch\<lparr>ch_next := None\<rparr>)\<rparr>)"
      and hok: "heap_ok ((yq_heap ?q)(c := None, last ds \<mapsto> ch\<lparr>ch_next := None\<rparr>)) (yq_spare ?q) (yq_fresh ?q) ds"
      by (rule unpush_end_chunk [OF ok(1) ds(2) ok(2,3)])
    let ?h = "(yq_heap q)(c := None, last ds \<mapsto> ch\<lparr>ch_next := None\<rparr>)"
    let ?q' = "?q\<lparr>yq_end_pos := N - 1, yq_end_chunk := last ds, yq_heap := ?h\<rparr>"
    have N: "0 < N" using yq_chain_linked [OF cs(1)] by simp
    have "length ds * N = (length ds - 1) * N + N" using ds(2) by (cases ds) auto
    then have ei: "end_index N ds ?q' = ?e - 1" using True N by (simp add: end_index_def ds(1))
    have same: "slot N ds j = slot N cs j" "j div N < length ds" if "j < ?e - 1 + 1" for j
    proof -
      have "j < length ds * N" using that True b by (simp add: end_index_def ds(1))
      then show "j div N < length ds" by (simp add: less_mult_imp_div_less)
      then show "slot N ds j = slot N cs j" by (simp add: ds(1) slot_append)
    qed
    have "yq_chain N ?q' ds"
      unfolding yq_chain_def ei using hok cs(1) ds N b ub(2) same(1) [of "?e - 2"]
      by (auto simp: yq_chain_def yq_back_def numeral_2_eq_2)
    moreover have as: "butlast as = map (slot N ds) [yq_begin_pos ?q'..<end_index N ds ?q']"
      unfolding ei using bl same(1) by simp
    moreover have "yq_load x ?q' = yq_load x q" if "x \<in> set (butlast as)" for x
    proof -
      have "fst x \<in> set ds" using that same(2) unfolding as ei by (auto simp: slot_def)
      moreover have "c \<notin> set ds" using yq_chain_linked [OF cs(1)] ds(1) by simp
      ultimately show ?thesis using ch by (auto simp: yq_load_def)
    qed
    moreover have "yq_unpush N q = Some ?q'" using ub(1) ue by (simp add: yq_unpush_def)
    ultimately show ?thesis unfolding yq_repr_def by blast
  qed
qed

text \<open>The destructor frees every chunk once and leaves nothing allocated.\<close>

lemma yq_free_chain_law:
  "linked (yq_heap q) cs \<Longrightarrow> yq_begin_chunk q = hd cs \<Longrightarrow> yq_end_chunk q = last cs \<Longrightarrow>
   \<exists>q'. yq_free_chain q = Some q' \<and> yq_heap q' = yq_heap q |` (- set cs) \<and> yq_spare q' = yq_spare q"
proof (induction cs arbitrary: q rule: induct_list012)
  case (2 c)
  then have "yq_heap q c \<noteq> None" using linkedD(3) [OF 2(1)] by auto
  then show ?case using 2 by (subst yq_free_chain.simps) (auto simp: free_chunk_def restrict_map_def)
next
  case (3 c d cs)
  let ?q = "q\<lparr>yq_begin_chunk := d, yq_heap := (yq_heap q)(c := None)\<rparr>"
  have dist: "distinct (c # d # cs)" using linkedD(2) [OF "3.prems"(1)] .
  have n: "next_of (yq_heap q) c = Some d" using linkedD(4) [OF "3.prems"(1), of 0] by simp
  then obtain ch where ch: "yq_heap q c = Some ch" "ch_next ch = Some d" by (auto simp: next_of_def bind_eq_Some_conv)
  have ne: "yq_begin_chunk q \<noteq> yq_end_chunk q" using "3.prems" dist by (auto dest: last_in_set)
  have l: "linked ((yq_heap q)(c := None)) (d # cs)"
    by (rule linked_cong [OF linked_tl [OF "3.prems"(1)]])
      (use dist linkedD(3) [OF "3.prems"(1)] in \<open>auto simp: next_of_def prev_of_def\<close>)
  obtain q' where "yq_free_chain ?q = Some q'" "yq_heap q' = (yq_heap q)(c := None) |` (- set (d # cs))" "yq_spare q' = yq_spare q"
  proof -
    have e: "linked (yq_heap ?q) (d # cs)" "yq_begin_chunk ?q = hd (d # cs)" "yq_end_chunk ?q = last (d # cs)"
      using l "3.prems"(3) by simp_all
    have "yq_heap ?q = (yq_heap q)(c := None)" "yq_spare ?q = yq_spare q" by simp_all
    then show ?thesis using "3.IH"(2) [OF e] that by metis
  qed
  moreover have "(yq_heap q)(c := None) |` (- set (d # cs)) = yq_heap q |` (- set (c # d # cs))"
    by (auto simp: restrict_map_def)
  moreover have "yq_free_chain q = yq_free_chain ?q"
    using ne ch "3.prems"(2) by (subst yq_free_chain.simps) (simp add: Let_def free_chunk_def)
  ultimately show ?case by auto
qed (simp add: linked_def)

lemma yq_destroy_law:
  assumes "yq_repr N q as"
  shows "\<exists>q'. yq_destroy q = Some q' \<and> yq_heap q' = Map.empty"
proof -
  obtain cs where cs: "yq_chain N q cs" using assms by (auto simp: yq_repr_def)
  then have h: "linked (yq_heap q) cs" "yq_begin_chunk q = hd cs" "yq_end_chunk q = last cs"
    "dom (yq_heap q) = set cs \<union> set_option (yq_spare q)" "set cs \<inter> set_option (yq_spare q) = {}"
    by (auto simp: yq_chain_def heap_ok_def)
  obtain q' where q': "yq_free_chain q = Some q'" "yq_heap q' = yq_heap q |` (- set cs)" "yq_spare q' = yq_spare q"
    using yq_free_chain_law [OF h(1-3)] by blast
  have d: "dom (yq_heap q') = set_option (yq_spare q)" using q'(2) h(4,5) by auto
  show ?thesis
  proof (cases "yq_spare q")
    case None
    then have "yq_heap q' = Map.empty" using d by simp
    then show ?thesis using q'(1,3) None by (simp add: yq_destroy_def free_chunk_def)
  next
    case (Some c)
    then have "yq_heap q' c \<noteq> None" "(yq_heap q')(c := None) = Map.empty" using d by (auto simp: fun_eq_iff dom_def)
    then show ?thesis using q' Some by (simp add: yq_destroy_def free_chunk_def)
  qed
qed

end
