(* ===== verification/Ypipe.thy ===== *)
theory Ypipe
  imports Yqueue
begin

text \<open>
  The lock-free pipe between a writing and a reading thread (\<^verbatim>\<open>src/src/util/ypipe.hpp\<close>). The four pointers are
  addresses of the chunked queue. Each operation makes at most one access to the shared pointer \<^verbatim>\<open>_c\<close>, except a
  \<^verbatim>\<open>flush\<close> that finds the reader asleep, which makes two; the steps of the two threads are therefore the operations,
  with \<^verbatim>\<open>flush\<close> cut in two, and a history is any interleaving of them. The pipe is shown to implement a queue
  with a flushed, a completed and an unfinished part and a flag that says whether the reader sleeps.
\<close>

record 'a ypipe =
  yp_queue :: "'a yqueue"
  yp_w :: addr
  yp_f :: addr
  yp_r :: "addr option"
  yp_c :: "addr option"

definition yp_new :: "nat \<Rightarrow> 'a ypipe option" where
  "yp_new N =
     Option.bind (yq_push N yq_new) (\<lambda>q. Option.bind (yq_back q) (\<lambda>b.
     Some \<lparr>yp_queue = q, yp_w = b, yp_f = b, yp_r = Some b, yp_c = Some b\<rparr>))"

definition yp_write :: "nat \<Rightarrow> 'a \<Rightarrow> bool \<Rightarrow> 'a ypipe \<Rightarrow> 'a ypipe option" where
  "yp_write N v incomplete y =
     Option.bind (yq_back (yp_queue y)) (\<lambda>b. Option.bind (yq_store b v (yp_queue y)) (\<lambda>q.
     Option.bind (yq_push N q) (\<lambda>q. Option.bind (yq_back q) (\<lambda>b.
     Some (y\<lparr>yp_queue := q, yp_f := (if incomplete then yp_f y else b)\<rparr>)))))"

text \<open>\<^verbatim>\<open>unwrite\<close> returns the value it took back, \<^const>\<open>None\<close> when there is none.\<close>

definition yp_unwrite :: "nat \<Rightarrow> 'a ypipe \<Rightarrow> ('a option \<times> 'a ypipe) option" where
  "yp_unwrite N y =
     Option.bind (yq_back (yp_queue y)) (\<lambda>b.
     if yp_f y = b then Some (None, y)
     else Option.bind (yq_unpush N (yp_queue y)) (\<lambda>q. Option.bind (yq_back q) (\<lambda>b.
          Option.bind (yq_load b q) (\<lambda>v. Some (Some v, y\<lparr>yp_queue := q\<rparr>)))))"

text \<open>\<^verbatim>\<open>atomic_ptr_t::cas\<close>: store the new value when the old one is as expected, return the old one.\<close>

definition yp_cas :: "addr option \<Rightarrow> addr option \<Rightarrow> 'a ypipe \<Rightarrow> addr option \<times> 'a ypipe" where
  "yp_cas cmp val y = (yp_c y, if yp_c y = cmp then y\<lparr>yp_c := val\<rparr> else y)"

text \<open>\<^verbatim>\<open>flush\<close> up to the compare-and-swap; the result \<^const>\<open>None\<close> means that the swap failed.\<close>

definition yp_flush_cas :: "'a ypipe \<Rightarrow> bool option \<times> 'a ypipe" where
  "yp_flush_cas y =
     (if yp_w y = yp_f y then (Some True, y)
      else
        let (old, y) = yp_cas (Some (yp_w y)) (Some (yp_f y)) y in
        if old \<noteq> Some (yp_w y) then (None, y) else (Some True, y\<lparr>yp_w := yp_f y\<rparr>))"

definition yp_flush_set :: "'a ypipe \<Rightarrow> bool \<times> 'a ypipe" where
  "yp_flush_set y = (False, y\<lparr>yp_c := Some (yp_f y), yp_w := yp_f y\<rparr>)"

definition yp_check_read :: "'a ypipe \<Rightarrow> bool \<times> 'a ypipe" where
  "yp_check_read y =
     (let front = yq_front (yp_queue y) in
      if Some front \<noteq> yp_r y \<and> yp_r y \<noteq> None then (True, y)
      else
        let (old, y) = yp_cas (Some front) None y; y = y\<lparr>yp_r := old\<rparr> in
        if Some front = yp_r y \<or> yp_r y = None then (False, y) else (True, y))"

definition yp_read :: "nat \<Rightarrow> 'a ypipe \<Rightarrow> ('a option \<times> 'a ypipe) option" where
  "yp_read N y =
     (let (ok, y) = yp_check_read y in
      if \<not> ok then Some (None, y)
      else Option.bind (yq_load (yq_front (yp_queue y)) (yp_queue y)) (\<lambda>v.
           Option.bind (yq_pop N (yp_queue y)) (\<lambda>q. Some (Some v, y\<lparr>yp_queue := q\<rparr>))))"

text \<open>\<^verbatim>\<open>probe\<close> asserts that there is something to read.\<close>

definition yp_probe :: "('a \<Rightarrow> bool) \<Rightarrow> 'a ypipe \<Rightarrow> (bool \<times> 'a ypipe) option" where
  "yp_probe fn y =
     (let (rc, y) = yp_check_read y in
      slk_assert rc (map_option (\<lambda>v. (fn v, y)) (yq_load (yq_front (yp_queue y)) (yp_queue y))))"

section \<open>The abstract pipe\<close>

record 'a upipe =
  up_flushed :: "'a list"
  up_complete :: "'a list"
  up_partial :: "'a list"
  up_asleep :: bool

definition up_new :: "'a upipe" where
  "up_new = \<lparr>up_flushed = [], up_complete = [], up_partial = [], up_asleep = False\<rparr>"

definition up_write :: "'a \<Rightarrow> bool \<Rightarrow> 'a upipe \<Rightarrow> 'a upipe" where
  "up_write v incomplete u =
     (if incomplete then u\<lparr>up_partial := up_partial u @ [v]\<rparr>
      else u\<lparr>up_complete := up_complete u @ up_partial u @ [v], up_partial := []\<rparr>)"

definition up_unwrite :: "'a upipe \<Rightarrow> 'a option \<times> 'a upipe" where
  "up_unwrite u =
     (if up_partial u = [] then (None, u) else (Some (last (up_partial u)), u\<lparr>up_partial := butlast (up_partial u)\<rparr>))"

definition up_flush :: "'a upipe \<Rightarrow> bool \<times> 'a upipe" where
  "up_flush u =
     (if up_complete u = [] then (True, u)
      else (\<not> up_asleep u, u\<lparr>up_flushed := up_flushed u @ up_complete u, up_complete := [], up_asleep := False\<rparr>))"

definition up_check_read :: "'a upipe \<Rightarrow> bool \<times> 'a upipe" where
  "up_check_read u = (if up_flushed u = [] then (False, u\<lparr>up_asleep := True\<rparr>) else (True, u))"

definition up_read :: "'a upipe \<Rightarrow> 'a option \<times> 'a upipe" where
  "up_read u =
     (if up_flushed u = [] then (None, u\<lparr>up_asleep := True\<rparr>)
      else (Some (hd (up_flushed u)), u\<lparr>up_flushed := tl (up_flushed u)\<rparr>))"

definition up_probe :: "('a \<Rightarrow> bool) \<Rightarrow> 'a upipe \<Rightarrow> (bool \<times> 'a upipe) option" where
  "up_probe fn u = slk_assert (up_flushed u \<noteq> []) (Some (fn (hd (up_flushed u)), u))"

section \<open>The relation between the two\<close>

definition up_items :: "'a upipe \<Rightarrow> 'a list" where
  "up_items u = up_flushed u @ up_complete u @ up_partial u"

text \<open>\<open>as\<close> are the addresses from the front to the terminator; the prefetch pointer stands in the flushed part
  or right behind it.\<close>

definition yp_at :: "nat \<Rightarrow> 'a ypipe \<Rightarrow> 'a upipe \<Rightarrow> addr list \<Rightarrow> bool" where
  "yp_at N y u as \<longleftrightarrow>
     yq_repr N (yp_queue y) as \<and> length as = length (up_items u) + 1 \<and>
     (\<forall>i<length (up_items u). yq_load (as ! i) (yp_queue y) = Some (up_items u ! i)) \<and>
     yp_w y = as ! length (up_flushed u) \<and> yp_f y = as ! (length (up_flushed u) + length (up_complete u)) \<and>
     yp_c y = (if up_asleep u then None else Some (yp_w y)) \<and> (up_asleep u \<longrightarrow> up_flushed u = []) \<and>
     set_option (yp_r y) \<subseteq> set (take (Suc (length (up_flushed u))) as)"

definition yp_rel :: "nat \<Rightarrow> 'a ypipe \<Rightarrow> 'a upipe \<Rightarrow> bool" where
  "yp_rel N y u \<longleftrightarrow> (\<exists>as. yp_at N y u as)"

lemma yp_atD:
  assumes "yp_at N y u as"
  shows "yq_repr N (yp_queue y) as" "as \<noteq> []" "distinct as" "length as = length (up_items u) + 1"
    "yq_front (yp_queue y) = as ! 0" "yq_back (yp_queue y) = Some (as ! length (up_items u))"
proof -
  show r: "yq_repr N (yp_queue y) as" and l: "length as = length (up_items u) + 1" using assms by (simp_all add: yp_at_def)
  then show ne: "as \<noteq> []" by auto
  show "distinct as" using r by (rule yq_repr_distinct)
  show "yq_front (yp_queue y) = as ! 0" using yq_repr_front [OF r ne] ne by (simp add: hd_conv_nth)
  show "yq_back (yp_queue y) = Some (as ! length (up_items u))"
    using yq_repr_back [OF r ne] ne l by (simp add: last_conv_nth)
qed

lemma up_items_length: "length (up_items u) = length (up_flushed u) + length (up_complete u) + length (up_partial u)"
  by (simp add: up_items_def)

lemma yp_at_index:
  assumes "yp_at N y u as" "i \<le> length (up_items u)" "j \<le> length (up_items u)"
  shows "as ! i = as ! j \<longleftrightarrow> i = j"
  using yp_atD(3,4) [OF assms(1)] assms(2,3) by (simp add: nth_eq_iff_index_eq)

lemma yp_write_rel:
  assumes "yp_rel N y u"
  shows "\<exists>y'. yp_write N v inc y = Some y' \<and> yp_rel N y' (up_write v inc u)"
proof -
  obtain as where as: "yp_at N y u as" using assms by (auto simp: yp_rel_def)
  note d = yp_atD [OF as]
  let ?n = "length (up_items u)"
  have mem: "as ! ?n \<in> set as" using d(4) by simp
  obtain q1 where q1: "yq_store (as ! ?n) v (yp_queue y) = Some q1" "yq_repr N q1 as" "yq_load (as ! ?n) q1 = Some v"
    "\<forall>x. x \<noteq> as ! ?n \<longrightarrow> yq_load x q1 = yq_load x (yp_queue y)"
    using yq_store_law [OF d(1) mem] by blast
  obtain q2 a where q2: "yq_push N q1 = Some q2" "yq_repr N q2 (as @ [a])" "\<forall>x\<in>set as. yq_load x q2 = yq_load x q1"
    using yq_push_law [OF q1(2)] by blast
  have b: "yq_back q2 = Some a" using yq_repr_back [OF q2(2)] by simp
  let ?y = "y\<lparr>yp_queue := q2, yp_f := (if inc then yp_f y else a)\<rparr>" and ?u = "up_write v inc u"
  have items: "up_items ?u = up_items u @ [v]" "up_flushed ?u = up_flushed u" "up_asleep ?u = up_asleep u"
    by (simp_all add: up_items_def up_write_def)
  have "yq_load ((as @ [a]) ! i) q2 = Some ((up_items u @ [v]) ! i)" if i: "i < length (up_items u @ [v])" for i
  proof (cases "i = ?n")
    case True
    then show ?thesis using q2(3) mem q1(3) d(4) by (simp add: nth_append)
  next
    case False
    then have "i < ?n" using i by simp
    moreover have "as ! i \<noteq> as ! ?n" using yp_at_index [OF as, of i ?n] \<open>i < ?n\<close> by simp
    then have "yq_load (as ! i) q1 = yq_load (as ! i) (yp_queue y)" using q1(4) by blast
    ultimately show ?thesis using as q2(3) d(4) by (simp add: yp_at_def nth_append)
  qed
  then have "yp_at N ?y ?u (as @ [a])"
    unfolding yp_at_def items using as q2(2) d(4)
    by (auto simp: yp_at_def nth_append up_items_length up_write_def split: if_splits)
  then show ?thesis using d(6) q1(1) q2(1) b by (auto simp: yp_write_def yp_rel_def)
qed

lemma yp_unwrite_rel:
  assumes "yp_rel N y u"
  shows "\<exists>y'. yp_unwrite N y = Some (fst (up_unwrite u), y') \<and> yp_rel N y' (snd (up_unwrite u))"
proof -
  obtain as where as: "yp_at N y u as" using assms by (auto simp: yp_rel_def)
  note d = yp_atD [OF as]
  let ?n = "length (up_items u)" and ?p = "length (up_flushed u) + length (up_complete u)"
  have f: "yp_f y = as ! ?n \<longleftrightarrow> up_partial u = []"
    using as yp_at_index [OF as, of ?p ?n] by (simp add: yp_at_def up_items_length)
  show ?thesis
  proof (cases "up_partial u = []")
    case True
    then show ?thesis using f d(6) assms by (simp add: yp_unwrite_def up_unwrite_def)
  next
    case False
    obtain q where q: "yq_unpush N (yp_queue y) = Some q" "yq_repr N q (butlast as)"
      "\<forall>x\<in>set (butlast as). yq_load x q = yq_load x (yp_queue y)" using yq_unpush_law [OF d(1,2)] by blast
    have n: "0 < ?n" using False by (simp add: up_items_def)
    have items: "up_items (snd (up_unwrite u)) = butlast (up_items u)" "last (up_items u) = last (up_partial u)"
      using False by (simp_all add: up_items_def up_unwrite_def butlast_append)
    have nth: "butlast as ! i = as ! i" "butlast as ! i \<in> set (butlast as)" if "i < ?n" for i
      using that d(4) nth_mem [of i "butlast as"] by (simp_all add: nth_butlast)
    have b: "yq_back q = Some (as ! (?n - 1))"
      using yq_repr_back [OF q(2)] n d(4) nth(1) [of "?n - 1"] by (cases "butlast as = []") (auto simp: last_conv_nth dest: arg_cong [of _ _ length])
    have ld: "yq_load (as ! i) q = Some (up_items u ! i)" if "i < ?n" for i
      using q(3) nth [OF that] that as by (simp add: yp_at_def)
    have v: "yq_load (as ! (?n - 1)) q = Some (last (up_partial u))"
      using ld [of "?n - 1"] n items(2) by (simp add: last_conv_nth)
    have "yp_at N (y\<lparr>yp_queue := q\<rparr>) (snd (up_unwrite u)) (butlast as)"
      unfolding yp_at_def items
    proof (intro conjI)
      have lt: "?p < ?n" using False by (simp add: up_items_length)
      have u': "up_flushed (snd (up_unwrite u)) = up_flushed u" "up_complete (snd (up_unwrite u)) = up_complete u"
        "up_asleep (snd (up_unwrite u)) = up_asleep u" by (simp_all add: up_unwrite_def)
      show "\<forall>i<length (butlast (up_items u)). yq_load (butlast as ! i) (yp_queue (y\<lparr>yp_queue := q\<rparr>)) = Some (butlast (up_items u) ! i)"
        using ld nth(1) by (simp add: nth_butlast)
      show "set_option (yp_r (y\<lparr>yp_queue := q\<rparr>)) \<subseteq> set (take (Suc (length (up_flushed (snd (up_unwrite u))))) (butlast as))"
        using as lt d(4) u' by (simp add: yp_at_def take_butlast)
    qed (use q(2) d(4) as False nth(1) in \<open>auto simp: yp_at_def up_unwrite_def up_items_length\<close>)
    then show ?thesis using f False d(6) q(1) b v by (auto simp: yp_unwrite_def up_unwrite_def yp_rel_def)
  qed
qed

text \<open>The compare-and-swap of \<^verbatim>\<open>flush\<close> fails exactly when the reader sleeps.\<close>

lemma yp_w_eq_f:
  assumes "yp_at N y u as"
  shows "yp_w y = yp_f y \<longleftrightarrow> up_complete u = []"
  using assms yp_at_index [OF assms, of "length (up_flushed u)" "length (up_flushed u) + length (up_complete u)"]
  by (simp add: yp_at_def up_items_length)

lemma up_flush_items: "up_items (snd (up_flush u)) = up_items u"
  by (simp add: up_items_def up_flush_def)

lemma yp_flush_at:
  assumes "yp_at N y u as" "up_complete u \<noteq> []"
  shows "yp_at N (y\<lparr>yp_c := Some (yp_f y), yp_w := yp_f y\<rparr>) (snd (up_flush u)) as"
  unfolding yp_at_def up_flush_items
  using assms set_take_subset_set_take [of "Suc (length (up_flushed u))" "Suc (length (up_flushed u) + length (up_complete u))" as]
  by (auto simp: yp_at_def up_flush_def)

lemma yp_flush_rel:
  assumes "yp_rel N y u"
  shows "if up_complete u = [] \<or> \<not> up_asleep u
    then \<exists>y'. yp_flush_cas y = (Some True, y') \<and> yp_rel N y' (snd (up_flush u)) \<and> fst (up_flush u)
    else yp_flush_cas y = (None, y) \<and> yp_rel N (snd (yp_flush_set y)) (snd (up_flush u)) \<and> \<not> fst (up_flush u)"
proof -
  obtain as where as: "yp_at N y u as" using assms by (auto simp: yp_rel_def)
  have c: "yp_c y = (if up_asleep u then None else Some (yp_w y))" using as by (simp add: yp_at_def)
  show ?thesis
  proof (cases "up_complete u = []")
    case True
    then show ?thesis using assms yp_w_eq_f [OF as] by (simp add: yp_flush_cas_def up_flush_def)
  next
    case False
    note fl = yp_flush_at [OF as False]
    have "y\<lparr>yp_c := Some (yp_f y), yp_w := yp_f y\<rparr> = y\<lparr>yp_w := yp_f y, yp_c := Some (yp_f y)\<rparr>" by simp
    then show ?thesis
      using False c yp_w_eq_f [OF as] fl
      by (auto simp: yp_flush_cas_def yp_flush_set_def yp_cas_def up_flush_def yp_rel_def)
  qed
qed

text \<open>\<^verbatim>\<open>check_read\<close>: when it succeeds the prefetch pointer is beyond the front.\<close>

lemma yp_at_r:
  "yp_at N y u as \<Longrightarrow> set_option r \<subseteq> set (take (Suc (length (up_flushed u))) as) \<Longrightarrow> yp_at N (y\<lparr>yp_r := r\<rparr>) u as"
  by (simp add: yp_at_def)

lemma yp_check_read_at:
  assumes "yp_at N y u as"
  shows "\<exists>y'. yp_check_read y = (up_flushed u \<noteq> [], y') \<and> yp_at N y' (snd (up_check_read u)) as \<and> yp_queue y' = yp_queue y \<and>
    (up_flushed u \<noteq> [] \<longrightarrow> yp_r y' \<noteq> Some (as ! 0))"
proof -
  note d = yp_atD [OF assms]
  let ?m = "length (up_flushed u)"
  have w: "yp_w y = as ! ?m" and c: "yp_c y = (if up_asleep u then None else Some (as ! ?m))"
    and sl: "up_asleep u \<Longrightarrow> up_flushed u = []" and r: "set_option (yp_r y) \<subseteq> set (take (Suc ?m) as)"
    using assms by (auto simp: yp_at_def)
  have front: "as ! ?m = as ! 0 \<longleftrightarrow> up_flushed u = []"
    using yp_at_index [OF assms, of ?m 0] by (simp add: up_items_length)
  show ?thesis
  proof (cases "Some (as ! 0) \<noteq> yp_r y \<and> yp_r y \<noteq> None")
    case True
    then obtain a where a: "yp_r y = Some a" "a \<noteq> as ! 0" by auto
    have "up_flushed u \<noteq> []"
    proof
      assume "up_flushed u = []"
      then have "a \<in> set (take 1 as)" using r a(1) by simp
      then show False using a(2) d(2) by (cases as) auto
    qed
    then show ?thesis using True assms d(5) by (auto simp: yp_check_read_def up_check_read_def)
  next
    case False
    have m: "as ! ?m \<in> set (take (Suc ?m) as)" using d(4) by (simp add: up_items_length take_Suc_conv_app_nth)
    show ?thesis
    proof (cases "up_flushed u = []")
      case True
      have "yp_check_read y = (False, y\<lparr>yp_c := None, yp_r := yp_c y\<rparr>)"
        using \<open>\<not> (Some (as ! 0) \<noteq> yp_r y \<and> yp_r y \<noteq> None)\<close> d(5) c True by (auto simp: yp_check_read_def yp_cas_def Let_def)
      moreover have "yp_at N (y\<lparr>yp_c := None, yp_r := yp_c y\<rparr>) (snd (up_check_read u)) as"
        using assms True c m by (auto simp: yp_at_def up_check_read_def up_items_def)
      ultimately show ?thesis using True by simp
    next
      case ne: False
      then have "\<not> up_asleep u" using sl by blast
      then have cm: "yp_c y = Some (as ! ?m)" using c by simp
      have "yp_check_read y = (True, y\<lparr>yp_r := yp_c y\<rparr>)"
        using False d(5) cm front ne by (auto simp: yp_check_read_def yp_cas_def Let_def)
      moreover have "yp_at N (y\<lparr>yp_r := yp_c y\<rparr>) (snd (up_check_read u)) as"
      proof -
        have "snd (up_check_read u) = u" using ne by (simp add: up_check_read_def)
        moreover have "set_option (yp_c y) \<subseteq> set (take (Suc ?m) as)" unfolding cm using m by simp
        ultimately show ?thesis using yp_at_r [OF assms] by simp
      qed
      ultimately show ?thesis using ne cm front by simp
    qed
  qed
qed

lemma yp_check_read_rel:
  assumes "yp_rel N y u"
  shows "\<exists>y'. yp_check_read y = (fst (up_check_read u), y') \<and> yp_rel N y' (snd (up_check_read u))"
proof -
  obtain as where "yp_at N y u as" using assms by (auto simp: yp_rel_def)
  from yp_check_read_at [OF this] show ?thesis by (auto simp: yp_rel_def up_check_read_def)
qed

lemma yp_read_rel:
  assumes "yp_rel N y u"
  shows "\<exists>y'. yp_read N y = Some (fst (up_read u), y') \<and> yp_rel N y' (snd (up_read u))"
proof -
  obtain as where as: "yp_at N y u as" using assms by (auto simp: yp_rel_def)
  obtain y1 where y1: "yp_check_read y = (up_flushed u \<noteq> [], y1)" "yp_at N y1 (snd (up_check_read u)) as" "yp_queue y1 = yp_queue y"
    "up_flushed u \<noteq> [] \<Longrightarrow> yp_r y1 \<noteq> Some (as ! 0)" using yp_check_read_at [OF as] by blast
  show ?thesis
  proof (cases "up_flushed u")
    case Nil
    then show ?thesis using y1(1,2) by (auto simp: yp_read_def up_read_def up_check_read_def yp_rel_def)
  next
    case (Cons v vs)
    have u: "snd (up_check_read u) = u" using Cons by (simp add: up_check_read_def)
    note at = y1(2) [unfolded u]
    note d = yp_atD [OF at]
    obtain a as' where as': "as = a # as'" using d(2) by (cases as) auto
    have v: "yq_load a (yp_queue y1) = Some v"
      using at Cons as' by (auto simp: yp_at_def up_items_def dest: spec [of _ 0])
    obtain q where q: "yq_pop N (yp_queue y1) = Some q" "yq_repr N q as'" "\<forall>x\<in>set as'. yq_load x q = yq_load x (yp_queue y1)"
      using yq_pop_law [OF d(1,2)] as' by auto
    let ?u = "u\<lparr>up_flushed := vs\<rparr>"
    have items: "up_items u = v # up_items ?u" using Cons by (simp add: up_items_def)
    have "yq_load (as' ! i) q = Some (up_items ?u ! i)" if "i < length (up_items ?u)" for i
    proof -
      have "yq_load (as ! Suc i) (yp_queue y1) = Some (up_items u ! Suc i)" using at that items by (simp add: yp_at_def)
      moreover have "as' ! i \<in> set as'" using that d(4) items as' by simp
      ultimately show ?thesis using q(3) items as' by simp
    qed
    moreover have "set_option (yp_r y1) \<subseteq> set (take (Suc (length vs)) as')"
      using at y1(4) Cons as' by (cases "yp_r y1") (auto simp: yp_at_def)
    ultimately have "yp_at N (y1\<lparr>yp_queue := q\<rparr>) ?u as'"
      using at q(2) Cons as' items by (auto simp: yp_at_def)
    then show ?thesis using y1(1) d(5) as' v q(1) Cons by (auto simp: yp_read_def up_read_def yp_rel_def)
  qed
qed

lemma yp_probe_rel:
  assumes "yp_rel N y u"
  shows "case up_probe fn u of None \<Rightarrow> yp_probe fn y = None
    | Some (b, u') \<Rightarrow> \<exists>y'. yp_probe fn y = Some (b, y') \<and> yp_rel N y' u'"
proof -
  obtain as where as: "yp_at N y u as" using assms by (auto simp: yp_rel_def)
  obtain y1 where y1: "yp_check_read y = (up_flushed u \<noteq> [], y1)" "yp_at N y1 (snd (up_check_read u)) as" "yp_queue y1 = yp_queue y"
    using yp_check_read_at [OF as] by blast
  show ?thesis
  proof (cases "up_flushed u")
    case Nil
    then show ?thesis using y1(1) by (simp add: yp_probe_def up_probe_def)
  next
    case (Cons v vs)
    have u: "snd (up_check_read u) = u" using Cons by (simp add: up_check_read_def)
    have "yq_load (yq_front (yp_queue y1)) (yp_queue y1) = Some v"
      using y1(2)[unfolded u] yp_atD(5) [OF y1(2)] Cons by (auto simp: yp_at_def up_items_def dest: spec [of _ 0])
    then show ?thesis using y1(1,2) u Cons by (auto simp: yp_probe_def up_probe_def yp_rel_def)
  qed
qed

lemma yp_new_rel: "0 < N \<Longrightarrow> \<exists>y. yp_new N = Some y \<and> yp_rel N y up_new"
proof -
  assume "0 < N"
  then obtain q a where q: "yq_push N yq_new = Some (q :: 'a yqueue)" "yq_repr N q ([] @ [a])"
    using yq_push_law [OF yq_repr_new] by blast
  have "yq_back q = Some a" using yq_repr_back [OF q(2)] by simp
  moreover have "yp_at N \<lparr>yp_queue = q, yp_w = a, yp_f = a, yp_r = Some a, yp_c = Some a\<rparr> up_new [a]"
    using q(2) by (simp add: yp_at_def up_new_def up_items_def)
  ultimately show ?thesis using q(1) by (auto simp: yp_new_def yp_rel_def)
qed

section \<open>Interleavings\<close>

datatype 'a ystep =
    Y_write 'a bool | Y_unwrite | Y_flush_cas | Y_flush_set | Y_check_read | Y_read | Y_probe "'a \<Rightarrow> bool"

datatype 'a yres = Done | Returns bool | Value "'a option" | Pending | Aborted | Not_enabled

text \<open>The state of the two threads: whether the writer is between the two accesses of \<^verbatim>\<open>flush\<close>, and the pipe. The
  other steps of the writer are not enabled then; the reader may take any step at any time.\<close>

fun ypipe_step :: "nat \<Rightarrow> 'a ystep \<Rightarrow> bool \<times> 'a ypipe \<Rightarrow> 'a yres \<times> (bool \<times> 'a ypipe)" where
  "ypipe_step N (Y_write v inc) (p, y) =
     (if p then (Not_enabled, (p, y))
      else case yp_write N v inc y of None \<Rightarrow> (Aborted, (p, y)) | Some y' \<Rightarrow> (Done, (p, y')))"
| "ypipe_step N Y_unwrite (p, y) =
     (if p then (Not_enabled, (p, y))
      else case yp_unwrite N y of None \<Rightarrow> (Aborted, (p, y)) | Some (v, y') \<Rightarrow> (Value v, (p, y')))"
| "ypipe_step N Y_flush_cas (p, y) =
     (if p then (Not_enabled, (p, y))
      else case yp_flush_cas y of (None, y') \<Rightarrow> (Pending, (True, y')) | (Some b, y') \<Rightarrow> (Returns b, (False, y')))"
| "ypipe_step N Y_flush_set (p, y) =
     (if \<not> p then (Not_enabled, (p, y)) else let (b, y') = yp_flush_set y in (Returns b, (False, y')))"
| "ypipe_step N Y_check_read (p, y) = (let (b, y') = yp_check_read y in (Returns b, (p, y')))"
| "ypipe_step N Y_read (p, y) =
     (case yp_read N y of None \<Rightarrow> (Aborted, (p, y)) | Some (v, y') \<Rightarrow> (Value v, (p, y')))"
| "ypipe_step N (Y_probe fn) (p, y) =
     (case yp_probe fn y of None \<Rightarrow> (Aborted, (p, y)) | Some (b, y') \<Rightarrow> (Returns b, (p, y')))"

text \<open>The same steps on the abstract pipe: the whole effect of a \<^verbatim>\<open>flush\<close> happens at once, at its first access when
  the reader is awake and at its second when it sleeps.\<close>

fun upipe_step :: "'a ystep \<Rightarrow> bool \<times> 'a upipe \<Rightarrow> 'a yres \<times> (bool \<times> 'a upipe)" where
  "upipe_step (Y_write v inc) (p, u) = (if p then (Not_enabled, (p, u)) else (Done, (p, up_write v inc u)))"
| "upipe_step Y_unwrite (p, u) =
     (if p then (Not_enabled, (p, u)) else let (v, u') = up_unwrite u in (Value v, (p, u')))"
| "upipe_step Y_flush_cas (p, u) =
     (if p then (Not_enabled, (p, u))
      else if up_complete u \<noteq> [] \<and> up_asleep u then (Pending, (True, u))
      else let (b, u') = up_flush u in (Returns b, (False, u')))"
| "upipe_step Y_flush_set (p, u) =
     (if \<not> p then (Not_enabled, (p, u)) else let (b, u') = up_flush u in (Returns b, (False, u')))"
| "upipe_step Y_check_read (p, u) = (let (b, u') = up_check_read u in (Returns b, (p, u')))"
| "upipe_step Y_read (p, u) = (let (v, u') = up_read u in (Value v, (p, u')))"
| "upipe_step (Y_probe fn) (p, u) =
     (case up_probe fn u of None \<Rightarrow> (Aborted, (p, u)) | Some (b, u') \<Rightarrow> (Returns b, (p, u')))"

definition pending_ok :: "bool \<times> 'a upipe \<Rightarrow> bool" where
  "pending_ok pu \<longleftrightarrow> (fst pu \<longrightarrow> up_complete (snd pu) \<noteq> [] \<and> up_asleep (snd pu) \<and> up_flushed (snd pu) = [])"

definition ypipe_rel :: "nat \<Rightarrow> nat \<Rightarrow> bool \<times> 'a ypipe \<Rightarrow> bool \<times> 'a upipe \<Rightarrow> bool" where
  "ypipe_rel N k s a \<longleftrightarrow> fst s = fst a \<and> yp_rel N (snd s) (snd a) \<and> pending_ok a"

lemma yp_rel_asleep: "yp_rel N y u \<Longrightarrow> up_asleep u \<Longrightarrow> up_flushed u = []"
  by (auto simp: yp_rel_def yp_at_def)

lemma ypipe_step_sim:
  assumes "ypipe_rel N (Suc k) s a"
  shows "fst (ypipe_step N x s) = fst (upipe_step x a) \<and> ypipe_rel N k (snd (ypipe_step N x s)) (snd (upipe_step x a))"
proof -
  obtain p y u where s: "s = (p, y)" "a = (p, u)" and r: "yp_rel N y u" and pk: "pending_ok (p, u)"
    using assms by (cases s; cases a) (auto simp: ypipe_rel_def)
  show ?thesis
  proof (cases x)
    case (Y_write v inc)
    then show ?thesis using s pk yp_write_rel [OF r, of v inc] assms by (auto simp: ypipe_rel_def pending_ok_def)
  next
    case Y_unwrite
    then show ?thesis using s pk yp_unwrite_rel [OF r] assms by (auto simp: ypipe_rel_def pending_ok_def split_beta)
  next
    case Y_flush_cas
    then show ?thesis
      using s r yp_flush_rel [OF r] yp_rel_asleep [OF r] assms
      by (auto simp: ypipe_rel_def pending_ok_def split_beta split: if_splits)
  next
    case Y_flush_set
    then show ?thesis
      using s pk yp_flush_rel [OF r] assms by (auto simp: ypipe_rel_def pending_ok_def split_beta yp_flush_set_def split: if_splits)
  next
    case Y_check_read
    then show ?thesis
      using s pk yp_check_read_rel [OF r] by (auto simp: ypipe_rel_def pending_ok_def split_beta up_check_read_def)
  next
    case Y_read
    then show ?thesis using s pk yp_read_rel [OF r] by (auto simp: ypipe_rel_def pending_ok_def split_beta up_read_def)
  next
    case (Y_probe fn)
    then show ?thesis
      using s pk r yp_probe_rel [OF r, of fn] by (auto simp: ypipe_rel_def pending_ok_def up_probe_def split: if_splits option.splits)
  qed
qed

interpretation ypipe: op_simulation "ypipe_step N" upipe_step "ypipe_rel N" for N
  by unfold_locales (rule ypipe_step_sim)

lemma ypipe_run:
  assumes "yp_new N = Some (y :: 'a ypipe)" "0 < N"
  shows "fst (run_ops (ypipe_step N) xs (False, y)) = fst (run_ops upipe_step xs (False, up_new)) \<and>
    ypipe_rel N 0 (snd (run_ops (ypipe_step N) xs (False, y))) (snd (run_ops upipe_step xs (False, up_new)))"
proof -
  have "ypipe_rel N (length xs + 0) (False, y) (False, up_new)"
    using yp_new_rel [OF assms(2), where 'a = 'a] assms(1) by (auto simp: ypipe_rel_def pending_ok_def)
  then show ?thesis by (rule ypipe.run_sim)
qed

text \<open>C29. Under every interleaving of the writing and the reading thread the lock-free pipe behaves as the abstract
  queue: no step goes through a null or freed pointer, every step returns what the abstract pipe returns, and the
  destructor afterwards frees every chunk exactly once.\<close>

theorem ypipe_linearises:
  assumes "yp_new N = Some y" and "0 < N"
    and "run_ops (ypipe_step N) xs (False, y) = (rs, (p, y'))"
  shows "rs = fst (run_ops upipe_step xs (False, up_new)) \<and>
    (\<exists>q. yq_destroy (yp_queue y') = Some q \<and> yq_heap q = Map.empty)"
proof -
  have "rs = fst (run_ops upipe_step xs (False, up_new))" "yp_rel N y' (snd (snd (run_ops upipe_step xs (False, up_new))))"
    using ypipe_run [OF assms(1,2), of xs] assms(3) by (auto simp: ypipe_rel_def)
  moreover from this(2) obtain as where "yq_repr N (yp_queue y') as" by (auto simp: yp_rel_def yp_at_def)
  ultimately show ?thesis using yq_destroy_law by blast
qed

theorem ypipe_linearises_witness:
  "\<exists>y rs y'. yp_new 2 = Some y \<and>
     run_ops (ypipe_step 2) [Y_check_read, Y_write 7 False, Y_flush_cas, Y_flush_set, Y_write 8 True, Y_unwrite, Y_read] (False, y) = (rs, (False, y')) \<and>
     rs = [Returns False, Done, Pending, Returns False, Done, Value (Some 8), Value (Some (7 :: nat))]"
proof -
  let ?xs = "[Y_check_read, Y_write 7 False, Y_flush_cas, Y_flush_set, Y_write 8 True, Y_unwrite, Y_read] :: nat ystep list"
  obtain y :: "nat ypipe" where y: "yp_new 2 = Some y" using yp_new_rel [of 2] by auto
  obtain rs p y' where r: "run_ops (ypipe_step 2) ?xs (False, y) = (rs, (p, y'))" by (metis prod_cases3)
  have n: "0 < (2 :: nat)" by simp
  have "rs = fst (run_ops upipe_step ?xs (False, up_new))" using ypipe_linearises [OF y n r] by blast
  then have rs: "rs = [Returns False, Done, Pending, Returns False, Done, Value (Some 8), Value (Some 7)]"
    by (simp add: up_new_def up_check_read_def up_write_def up_flush_def up_unwrite_def up_read_def)
  have "p = False"
    using ypipe_run [OF y n, of ?xs] r
    by (simp add: ypipe_rel_def up_new_def up_check_read_def up_write_def up_flush_def up_unwrite_def up_read_def)
  then show ?thesis using y r rs by blast
qed

text \<open>What a history wrote, less what it took back, and what it read.\<close>

fun net_written :: "'a ystep list \<Rightarrow> 'a yres list \<Rightarrow> 'a list \<Rightarrow> 'a list" where
  "net_written (Y_write v inc # xs) (Done # rs) ws = net_written xs rs (ws @ [v])"
| "net_written (Y_unwrite # xs) (Value (Some v) # rs) ws = net_written xs rs (butlast ws)"
| "net_written (x # xs) (r # rs) ws = net_written xs rs ws"
| "net_written _ _ ws = ws"

fun values_read :: "'a ystep list \<Rightarrow> 'a yres list \<Rightarrow> 'a list" where
  "values_read (Y_read # xs) (Value (Some v) # rs) = v # values_read xs rs"
| "values_read (x # xs) (r # rs) = values_read xs rs"
| "values_read _ _ = []"

lemma upipe_step_items:
  "net_written (x # xs) (fst (upipe_step x (p, u)) # rs) (ws @ up_items u) =
     net_written xs rs ((ws @ values_read [x] [fst (upipe_step x (p, u))]) @ up_items (snd (snd (upipe_step x (p, u)))))"
  by (cases x) (auto simp: up_items_def up_write_def up_unwrite_def up_flush_def up_check_read_def up_read_def up_probe_def
      butlast_append neq_Nil_conv)

lemma values_read_Cons: "values_read (x # xs) (r # rs) = values_read [x] [r] @ values_read xs rs"
  by (cases "(x # xs, r # rs)" rule: values_read.cases) simp_all

lemma upipe_run_items:
  "net_written xs (fst (run_ops upipe_step xs (p, u))) (ws @ up_items u) =
     ws @ values_read xs (fst (run_ops upipe_step xs (p, u))) @ up_items (snd (snd (run_ops upipe_step xs (p, u))))"
proof (induction xs arbitrary: p u ws)
  case (Cons x xs)
  obtain r p' u' where s: "upipe_step x (p, u) = (r, (p', u'))" by (metis prod_cases3)
  obtain rs p'' u'' where t: "run_ops upipe_step xs (p', u') = (rs, (p'', u''))" by (metis prod_cases3)
  have "net_written (x # xs) (r # rs) (ws @ up_items u) = net_written xs rs ((ws @ values_read [x] [r]) @ up_items u')"
    using upipe_step_items [of x xs p u rs ws] s by simp
  also have "\<dots> = (ws @ values_read [x] [r]) @ values_read xs rs @ up_items u''"
    using Cons.IH [of p' u' "ws @ values_read [x] [r]"] t by simp
  finally show ?case using s t values_read_Cons [of x xs r rs] by simp
qed simp

lemma up_items_new [simp]: "up_items up_new = []"
  by (simp add: up_items_def up_new_def)

text \<open>C30. The pipe is first in, first out under every interleaving: the values read are a prefix of the values
  written and not taken back, in the order of writing.\<close>

theorem ypipe_fifo:
  assumes "yp_new N = Some y" and "0 < N"
    and "run_ops (ypipe_step N) xs (False, y) = (rs, s)"
  shows "prefix (values_read xs rs) (net_written xs rs [])"
proof -
  have "rs = fst (run_ops upipe_step xs (False, up_new))" using ypipe_run [OF assms(1,2), of xs] assms(3) by simp
  then show ?thesis using upipe_run_items [of xs False up_new "[]"] by auto
qed

theorem ypipe_fifo_witness:
  "\<exists>y rs s. yp_new 2 = Some y \<and>
     run_ops (ypipe_step 2) [Y_write 7 False, Y_write 8 True, Y_flush_cas, Y_read, Y_unwrite, Y_read] (False, y) = (rs, s) \<and>
     values_read [Y_write 7 False, Y_write 8 True, Y_flush_cas, Y_read, Y_unwrite, Y_read] rs = [7 :: nat] \<and>
     prefix [7] (net_written [Y_write 7 False, Y_write 8 True, Y_flush_cas, Y_read, Y_unwrite, Y_read] rs [])"
proof -
  let ?xs = "[Y_write 7 False, Y_write 8 True, Y_flush_cas, Y_read, Y_unwrite, Y_read] :: nat ystep list"
  obtain y :: "nat ypipe" where y: "yp_new 2 = Some y" using yp_new_rel [of 2] by auto
  obtain rs s where r: "run_ops (ypipe_step 2) ?xs (False, y) = (rs, s)" by (metis surj_pair)
  have n: "0 < (2 :: nat)" by simp
  have "rs = fst (run_ops upipe_step ?xs (False, up_new))" using ypipe_run [OF y n, of ?xs] r by simp
  then have "rs = [Done, Done, Returns True, Value (Some 7), Value (Some 8), Value None]"
    by (simp add: up_new_def up_write_def up_flush_def up_unwrite_def up_read_def)
  then have v: "values_read ?xs rs = [7]" by simp
  then show ?thesis using ypipe_fifo [OF y n r] y r by auto
qed

text \<open>C31. No wake-up is lost: whatever both threads did before, when the reader finds nothing to read, the next
  completed write is flushed with the answer that the reader sleeps, and the reader that is then woken finds it.\<close>

theorem ypipe_wakes_reader:
  assumes "yp_new N = Some y" and "0 < N"
    and "run_ops (ypipe_step N) xs (False, y) = (rs, (False, y'))"
    and "fst (yp_check_read y') = False"
  shows "fst (run_ops (ypipe_step N) [Y_check_read, Y_write v False, Y_flush_cas, Y_flush_set, Y_check_read] (False, y')) =
    [Returns False, Done, Pending, Returns False, Returns True]"
    (is "fst (run_ops _ ?xs _) = _")
proof -
  obtain u where "snd (run_ops upipe_step xs (False, up_new)) = (False, u)"
    using ypipe_run [OF assms(1,2), of xs] assms(3) by (cases "snd (run_ops upipe_step xs (False, up_new))") (simp add: ypipe_rel_def)
  then have rel: "ypipe_rel N (Suc (Suc (Suc (Suc (Suc 0))))) (False, y') (False, u)"
    using ypipe_run [OF assms(1,2), of xs] assms(3) by (simp add: ypipe_rel_def)
  then have "up_flushed u = []"
    using yp_check_read_rel [of N y' u] assms(4) by (auto simp: ypipe_rel_def up_check_read_def split: if_splits)
  moreover have "fst (run_ops (ypipe_step N) ?xs (False, y')) = fst (run_ops upipe_step ?xs (False, u))"
    using ypipe.run_sim [of N ?xs 0 "(False, y')" "(False, u)"] rel by (simp del: run_ops.simps)
  ultimately show ?thesis by (simp add: up_check_read_def up_write_def up_flush_def del: ypipe_step.simps)
qed

theorem ypipe_wakes_reader_witness:
  "\<exists>y rs y'. yp_new 2 = Some y \<and> run_ops (ypipe_step 2) [Y_write 7 True] (False, y) = (rs, (False, y')) \<and>
     fst (run_ops (ypipe_step 2) [Y_check_read, Y_write (8 :: nat) False, Y_flush_cas, Y_flush_set, Y_check_read] (False, y')) =
       [Returns False, Done, Pending, Returns False, Returns True]"
proof -
  obtain y :: "nat ypipe" where y: "yp_new 2 = Some y" using yp_new_rel [of 2] by auto
  have n: "0 < (2 :: nat)" by simp
  obtain rs p y' where r: "run_ops (ypipe_step 2) [Y_write 7 True] (False, y) = (rs, (p, y'))" by (metis prod_cases3)
  have rel: "\<not> p" "yp_rel 2 y' (up_write 7 True up_new)"
    using ypipe_run [OF y n, of "[Y_write 7 True]"] r by (simp_all add: ypipe_rel_def)
  then have "fst (yp_check_read y') = False"
    using yp_check_read_rel [OF rel(2)] by (auto simp: up_check_read_def up_write_def up_new_def)
  then show ?thesis using ypipe_wakes_reader [OF y n, of "[Y_write 7 True]" rs y' 8] y r rel(1) by auto
qed

end
