(* ===== verification/Message_Pipe.thy ===== *)
theory Message_Pipe
  imports Ypipe Msg
begin

text \<open>
  The pipes of messages between two threads (\<^verbatim>\<open>ypipe_base_t\<close> and its two implementations): the lock-free pipe, by
  the abstract queue it was shown to implement, and the conflating pipe of \<^verbatim>\<open>src/src/util/ypipe_conflate.hpp\<close> over
  the double buffer of \<^verbatim>\<open>src/src/util/dbuffer.hpp\<close>, which keeps the last message only.
\<close>

section \<open>The double buffer\<close>

record dbuffer =
  db_back :: msg
  db_front :: msg
  db_has_msg :: bool

definition db_new :: dbuffer where
  "db_new = \<lparr>db_back = msg_init, db_front = msg_init, db_has_msg = False\<rparr>"

text \<open>The writer gives up when it does not get the lock; \<open>locked\<close> says that the reader holds it. Moving a message
  leaves an empty one behind.\<close>

definition db_write :: "bool \<Rightarrow> msg \<Rightarrow> dbuffer \<Rightarrow> dbuffer" where
  "db_write locked v d =
     (let d = d\<lparr>db_back := v\<rparr> in
      if locked then d else d\<lparr>db_front := db_back d, db_back := msg_init, db_has_msg := True\<rparr>)"

definition db_read :: "dbuffer \<Rightarrow> msg option \<times> dbuffer" where
  "db_read d =
     (if \<not> db_has_msg d then (None, d) else (Some (db_front d), d\<lparr>db_front := msg_init, db_has_msg := False\<rparr>))"

definition db_check_read :: "dbuffer \<Rightarrow> bool" where
  "db_check_read d = db_has_msg d"

definition db_probe :: "(msg \<Rightarrow> bool) \<Rightarrow> dbuffer \<Rightarrow> bool" where
  "db_probe fn d = fn (db_front d)"

section \<open>The conflating pipe\<close>

record conflate_pipe =
  yc_dbuffer :: dbuffer
  yc_reader_awake :: bool

definition yc_new :: conflate_pipe where
  "yc_new = \<lparr>yc_dbuffer = db_new, yc_reader_awake = False\<rparr>"

definition yc_write :: "bool \<Rightarrow> msg \<Rightarrow> bool \<Rightarrow> conflate_pipe \<Rightarrow> conflate_pipe" where
  "yc_write locked v incomplete y = y\<lparr>yc_dbuffer := db_write locked v (yc_dbuffer y)\<rparr>"

definition yc_unwrite :: "conflate_pipe \<Rightarrow> msg option \<times> conflate_pipe" where
  "yc_unwrite y = (None, y)"

definition yc_flush :: "conflate_pipe \<Rightarrow> bool" where
  "yc_flush y = yc_reader_awake y"

definition yc_check_read :: "conflate_pipe \<Rightarrow> bool \<times> conflate_pipe" where
  "yc_check_read y =
     (let res = db_check_read (yc_dbuffer y) in (res, if \<not> res then y\<lparr>yc_reader_awake := False\<rparr> else y))"

definition yc_read :: "conflate_pipe \<Rightarrow> msg option \<times> conflate_pipe" where
  "yc_read y =
     (let (res, y) = yc_check_read y in
      if \<not> res then (None, y) else let (v, d) = db_read (yc_dbuffer y) in (v, y\<lparr>yc_dbuffer := d\<rparr>))"

definition yc_probe :: "(msg \<Rightarrow> bool) \<Rightarrow> conflate_pipe \<Rightarrow> bool" where
  "yc_probe fn y = db_probe fn (yc_dbuffer y)"

section \<open>The common interface\<close>

datatype mpipe = Normal "msg upipe" | Conflating conflate_pipe

definition mp_new :: "bool \<Rightarrow> mpipe" where
  "mp_new conflate = (if conflate then Conflating yc_new else Normal up_new)"

fun mp_write :: "bool \<Rightarrow> msg \<Rightarrow> bool \<Rightarrow> mpipe \<Rightarrow> mpipe" where
  "mp_write locked v incomplete (Normal u) = Normal (up_write v incomplete u)"
| "mp_write locked v incomplete (Conflating y) = Conflating (yc_write locked v incomplete y)"

fun mp_unwrite :: "mpipe \<Rightarrow> msg option \<times> mpipe" where
  "mp_unwrite (Normal u) = map_prod id Normal (up_unwrite u)"
| "mp_unwrite (Conflating y) = map_prod id Conflating (yc_unwrite y)"

fun mp_flush :: "mpipe \<Rightarrow> bool \<times> mpipe" where
  "mp_flush (Normal u) = map_prod id Normal (up_flush u)"
| "mp_flush (Conflating y) = (yc_flush y, Conflating y)"

fun mp_check_read :: "mpipe \<Rightarrow> bool \<times> mpipe" where
  "mp_check_read (Normal u) = map_prod id Normal (up_check_read u)"
| "mp_check_read (Conflating y) = map_prod id Conflating (yc_check_read y)"

fun mp_read :: "mpipe \<Rightarrow> msg option \<times> mpipe" where
  "mp_read (Normal u) = map_prod id Normal (up_read u)"
| "mp_read (Conflating y) = map_prod id Conflating (yc_read y)"

fun mp_probe :: "(msg \<Rightarrow> bool) \<Rightarrow> mpipe \<Rightarrow> (bool \<times> mpipe) option" where
  "mp_probe fn (Normal u) = map_option (map_prod id Normal) (up_probe fn u)"
| "mp_probe fn (Conflating y) = Some (yc_probe fn y, Conflating y)"

text \<open>What waits to be read, and what waits to be completed.\<close>

fun mp_readable :: "mpipe \<Rightarrow> msg list" where
  "mp_readable (Normal u) = up_flushed u"
| "mp_readable (Conflating y) = (if db_has_msg (yc_dbuffer y) then [db_front (yc_dbuffer y)] else [])"

fun mp_unfinished :: "mpipe \<Rightarrow> msg list" where
  "mp_unfinished (Normal u) = up_partial u"
| "mp_unfinished (Conflating y) = []"

lemmas yc_defs =
  yc_write_def yc_unwrite_def yc_flush_def yc_check_read_def yc_read_def yc_probe_def
  db_write_def db_read_def db_check_read_def db_probe_def

lemma mp_new_lists [simp]: "mp_readable (mp_new c) = []" "mp_unfinished (mp_new c) = []"
  by (simp_all add: mp_new_def up_new_def yc_new_def db_new_def)

lemma mp_check_read_fst: "fst (mp_check_read p) \<longleftrightarrow> mp_readable p \<noteq> []"
  by (cases p) (auto simp: up_check_read_def yc_defs Let_def)

lemma mp_check_read_lists [simp]:
  "mp_readable (snd (mp_check_read p)) = mp_readable p" "mp_unfinished (snd (mp_check_read p)) = mp_unfinished p"
  by (cases p; simp add: up_check_read_def yc_defs Let_def)+

lemma mp_read_fst: "fst (mp_read p) = (case mp_readable p of [] \<Rightarrow> None | m # ms \<Rightarrow> Some m)"
  by (cases p) (auto simp: up_read_def yc_defs Let_def split: list.splits)

lemma mp_read_lists [simp]:
  "mp_readable (snd (mp_read p)) = tl (mp_readable p)" "mp_unfinished (snd (mp_read p)) = mp_unfinished p"
  by (cases p; auto simp: up_read_def yc_defs Let_def)+

lemma mp_probe_eq: "mp_readable p \<noteq> [] \<Longrightarrow> mp_probe fn p = Some (fn (hd (mp_readable p)), p)"
  by (cases p) (auto simp: up_probe_def yc_defs)

lemma mp_unwrite_fst: "fst (mp_unwrite p) = (if mp_unfinished p = [] then None else Some (last (mp_unfinished p)))"
  by (cases p) (auto simp: up_unwrite_def yc_defs)

lemma mp_unwrite_lists [simp]:
  "mp_readable (snd (mp_unwrite p)) = mp_readable p" "mp_unfinished (snd (mp_unwrite p)) = butlast (mp_unfinished p)"
  by (cases p; auto simp: up_unwrite_def yc_defs)+

lemma mp_flush_unfinished [simp]: "mp_unfinished (snd (mp_flush p)) = mp_unfinished p"
  by (cases p) (auto simp: up_flush_def yc_defs)

lemma mp_write_unfinished: "set (mp_unfinished (mp_write l v inc p)) \<subseteq> (if inc then insert v (set (mp_unfinished p)) else {})"
  by (cases p) (auto simp: up_write_def yc_defs)

section \<open>Loops over a pipe\<close>

text \<open>Taking back the parts of an unfinished message; each must be marked as continued.\<close>

function mp_rollback :: "mpipe \<Rightarrow> mpipe option" where
  "mp_rollback p =
     (case mp_unwrite p of (None, p') \<Rightarrow> Some p' | (Some m, p') \<Rightarrow> slk_assert (is_more m) (mp_rollback p'))"
  by pat_completeness auto

termination mp_rollback
proof (relation "measure (\<lambda>p. length (mp_unfinished p))", goal_cases)
  case (2 p r p' m)
  then have "mp_unwrite p = (Some m, p')" by simp
  then show ?case using mp_unwrite_fst [of p] mp_unwrite_lists(2) [of p] by (auto split: if_splits)
qed simp

declare mp_rollback.simps [simp del]

text \<open>Reading up to the first message that is no credential.\<close>

function mp_read_skip :: "mpipe \<Rightarrow> msg option \<times> mpipe" where
  "mp_read_skip p =
     (case mp_read p of (None, p') \<Rightarrow> (None, p') | (Some m, p') \<Rightarrow> if is_credential m then mp_read_skip p' else (Some m, p'))"
  by pat_completeness auto

lemma mp_read_shorter: "mp_read p = (Some m, p') \<Longrightarrow> length (mp_readable p') < length (mp_readable p)"
  using mp_read_fst [of p] mp_read_lists(1) [of p] by (auto split: list.splits)

termination mp_read_skip
  by (relation "measure (\<lambda>p. length (mp_readable p))") (auto intro: mp_read_shorter [OF sym])

declare mp_read_skip.simps [simp del]

text \<open>Reading everything.\<close>

function mp_drain :: "mpipe \<Rightarrow> msg list \<times> mpipe" where
  "mp_drain p = (case mp_read p of (None, p') \<Rightarrow> ([], p') | (Some m, p') \<Rightarrow> let (ms, p'') = mp_drain p' in (m # ms, p''))"
  by pat_completeness auto

termination mp_drain
  by (relation "measure (\<lambda>p. length (mp_readable p))") (auto intro: mp_read_shorter [OF sym])

declare mp_drain.simps [simp del]

lemma mp_rollback_ok:
  "\<forall>m\<in>set (mp_unfinished p). is_more m \<Longrightarrow>
   \<exists>p'. mp_rollback p = Some p' \<and> mp_readable p' = mp_readable p \<and> mp_unfinished p' = []"
proof (induction p rule: mp_rollback.induct)
  case (1 p)
  obtain r p' where u: "mp_unwrite p = (r, p')" by (cases "mp_unwrite p")
  have l: "mp_readable p' = mp_readable p" "mp_unfinished p' = butlast (mp_unfinished p)"
    using mp_unwrite_lists [of p] u by auto
  show ?case
  proof (cases r)
    case None
    then show ?thesis using u l mp_unwrite_fst [of p] by (auto simp: mp_rollback.simps [of p] split: if_splits)
  next
    case (Some m)
    then have m: "m = last (mp_unfinished p)" "mp_unfinished p \<noteq> []" using u mp_unwrite_fst [of p] by (auto split: if_splits)
    then have "is_more m" using 1(2) by simp
    moreover have "\<forall>m\<in>set (mp_unfinished p'). is_more m" using l 1(2) by (auto dest: in_set_butlastD)
    ultimately show ?thesis using 1(1) [OF u [symmetric] Some] u Some l by (simp add: mp_rollback.simps [of p])
  qed
qed

lemma mp_read_skip_spec:
  "mp_read_skip p = (r, p') \<Longrightarrow> \<exists>cs. (\<forall>m\<in>set cs. is_credential m) \<and> mp_unfinished p' = mp_unfinished p \<and>
     (case r of None \<Rightarrow> mp_readable p = cs \<and> mp_readable p' = []
      | Some m \<Rightarrow> mp_readable p = cs @ m # mp_readable p' \<and> \<not> is_credential m)"
proof (induction p arbitrary: r p' rule: mp_read_skip.induct)
  case (1 p)
  obtain s q where u: "mp_read p = (s, q)" by (cases "mp_read p")
  have l: "mp_readable q = tl (mp_readable p)" "mp_unfinished q = mp_unfinished p" using mp_read_lists [of p] u by auto
  have s: "s = (case mp_readable p of [] \<Rightarrow> None | m # ms \<Rightarrow> Some m)" using mp_read_fst [of p] u by simp
  show ?case
  proof (cases "\<exists>m. s = Some m \<and> is_credential m")
    case True
    then obtain m where m: "s = Some m" "is_credential m" by blast
    then have "mp_read_skip q = (r, p')" using 1(2) u by (simp add: mp_read_skip.simps [of p])
    then obtain cs where cs: "(\<forall>m\<in>set cs. is_credential m) \<and> mp_unfinished p' = mp_unfinished q \<and>
       (case r of None \<Rightarrow> mp_readable q = cs \<and> mp_readable p' = []
        | Some m \<Rightarrow> mp_readable q = cs @ m # mp_readable p' \<and> \<not> is_credential m)"
      using 1(1) [OF u [symmetric] m(1) m(2)] by blast
    have "mp_readable p = m # mp_readable q" using s m(1) l(1) by (auto split: list.splits)
    then show ?thesis using cs m(2) l(2) by (intro exI [of _ "m # cs"]) (auto split: option.splits)
  next
    case False
    then show ?thesis using 1(2) u s l by (intro exI [of _ "[]"]) (auto simp: mp_read_skip.simps [of p] split: list.splits option.splits)
  qed
qed

lemma mp_drain_spec: "mp_drain p = (ms, p') \<Longrightarrow> ms = mp_readable p \<and> mp_readable p' = [] \<and> mp_unfinished p' = mp_unfinished p"
proof (induction p arbitrary: ms p' rule: mp_drain.induct)
  case (1 p)
  obtain s q where u: "mp_read p = (s, q)" by (cases "mp_read p")
  have l: "mp_readable q = tl (mp_readable p)" "mp_unfinished q = mp_unfinished p" using mp_read_lists [of p] u by auto
  have s: "s = (case mp_readable p of [] \<Rightarrow> None | m # ms \<Rightarrow> Some m)" using mp_read_fst [of p] u by simp
  obtain ns q' where d: "mp_drain q = (ns, q')" by (cases "mp_drain q")
  show ?case
  proof (cases s)
    case None
    then show ?thesis using 1(2) u s l by (auto simp: mp_drain.simps [of p] split: list.splits)
  next
    case (Some m)
    then show ?thesis using 1(1) [OF u [symmetric] Some d] 1(2) u s l d by (auto simp: mp_drain.simps [of p] split: list.splits)
  qed
qed

end
