(* ===== verification/Pipe.thy ===== *)
theory Pipe
  imports Message_Pipe "HOL-Library.Signed_Division" "HOL-Library.Monad_Syntax"
begin

text \<open>
  One end of a bidirectional pipe (\<^verbatim>\<open>src/src/pipe/pipe.cpp\<close>, \<^verbatim>\<open>src/src/pipe/pipe.hpp\<close>). The message pipes live in a
  store under identities, so that dropping, handing over and freeing one is visible; an operation works on a context
  with the store, the own endpoint, the commands it sends to the peer and the events it raises in its sink. Failing
  assertions and accesses to a freed message pipe are \<^const>\<open>None\<close>. The \<^verbatim>\<open>int\<close> water marks are unbounded integers
  and the counters are 64-bit words.
\<close>

datatype pipe_state =
    Active | Delimiter_received | Waiting_for_delimiter | Term_ack_sent | Term_req_sent1 | Term_req_sent2

record pipe =
  in_pipe :: nat
  out_pipe :: "nat option"
  in_active :: bool
  out_active :: bool
  hwm :: int
  lwm :: int
  in_hwm_boost :: int
  out_hwm_boost :: int
  msgs_read :: u64
  msgs_written :: u64
  peers_msgs_read :: u64
  has_sink :: bool
  p_state :: pipe_state
  delay :: bool
  conflate :: bool
  router_socket_routing_id :: bytes
  disconnect_msg :: msg

datatype pipe_cmd =
    Activate_read | Activate_write u64 | Hiccup nat | Pipe_term | Pipe_term_ack | Pipe_hwm int int

datatype pipe_event = Read_activated | Write_activated | Hiccuped | Pipe_terminated

record pipe_ctx =
  store :: "nat \<rightharpoonup> mpipe"
  fresh :: nat
  locked :: bool
  self :: pipe
  deleted :: bool
  sent :: "pipe_cmd list"
  events :: "pipe_event list"

definition upd_self :: "(pipe \<Rightarrow> pipe) \<Rightarrow> pipe_ctx \<Rightarrow> pipe_ctx" where
  "upd_self f c = c\<lparr>self := f (self c)\<rparr>"

definition send :: "pipe_cmd \<Rightarrow> pipe_ctx \<Rightarrow> pipe_ctx" where
  "send x c = c\<lparr>sent := sent c @ [x]\<rparr>"

text \<open>A virtual call of the sink, which must have been set.\<close>

definition notify :: "pipe_event \<Rightarrow> pipe_ctx \<Rightarrow> pipe_ctx option" where
  "notify e c = (if has_sink (self c) then Some (c\<lparr>events := events c @ [e]\<rparr>) else None)"

text \<open>A call of a message pipe, which must not have been freed.\<close>

definition on_pipe :: "nat \<Rightarrow> (mpipe \<Rightarrow> 'r \<times> mpipe) \<Rightarrow> pipe_ctx \<Rightarrow> ('r \<times> pipe_ctx) option" where
  "on_pipe i f c =
     (case store c i of None \<Rightarrow> None | Some p \<Rightarrow> let (r, p') = f p in Some (r, c\<lparr>store := (store c)(i \<mapsto> p')\<rparr>))"

definition compute_lwm :: "int \<Rightarrow> int" where
  "compute_lwm h = (h + 1) sdiv 2"

definition new_pipe :: "nat \<Rightarrow> nat \<Rightarrow> int \<Rightarrow> int \<Rightarrow> bool \<Rightarrow> pipe" where
  "new_pipe inpipe outpipe inhwm outhwm confl =
     \<lparr>in_pipe = inpipe, out_pipe = Some outpipe, in_active = True, out_active = True, hwm = outhwm,
      lwm = compute_lwm inhwm, in_hwm_boost = -1, out_hwm_boost = -1, msgs_read = 0, msgs_written = 0,
      peers_msgs_read = 0, has_sink = False, p_state = Active, delay = True, conflate = confl,
      router_socket_routing_id = [], disconnect_msg = msg_init\<rparr>"

definition set_event_sink :: "pipe \<Rightarrow> pipe option" where
  "set_event_sink p = slk_assert (\<not> has_sink p) (Some (p\<lparr>has_sink := True\<rparr>))"

definition set_router_socket_routing_id :: "bytes \<Rightarrow> pipe \<Rightarrow> pipe" where
  "set_router_socket_routing_id r p = p\<lparr>router_socket_routing_id := r\<rparr>"

definition set_nodelay :: "pipe \<Rightarrow> pipe" where
  "set_nodelay p = p\<lparr>delay := False\<rparr>"

definition set_hwms_boost :: "int \<Rightarrow> int \<Rightarrow> pipe \<Rightarrow> pipe" where
  "set_hwms_boost inboost outboost p = p\<lparr>in_hwm_boost := inboost, out_hwm_boost := outboost\<rparr>"

definition set_hwms :: "int \<Rightarrow> int \<Rightarrow> pipe \<Rightarrow> pipe" where
  "set_hwms inhwm outhwm p =
     (let i = (if inhwm \<le> 0 \<or> in_hwm_boost p = 0 then 0 else inhwm + max (in_hwm_boost p) 0);
          out = (if outhwm \<le> 0 \<or> out_hwm_boost p = 0 then 0 else outhwm + max (out_hwm_boost p) 0) in
      p\<lparr>lwm := compute_lwm i, hwm := out\<rparr>)"

definition check_hwm :: "pipe \<Rightarrow> bool" where
  "check_hwm p \<longleftrightarrow> \<not> (hwm p > 0 \<and> msgs_written p - peers_msgs_read p \<ge> word_of_int (hwm p))"

section \<open>Writing\<close>

text \<open>The unfinished message is taken back; the parts must carry the flag that announces more.\<close>

definition rollback :: "pipe_ctx \<Rightarrow> pipe_ctx option" where
  "rollback c =
     (case out_pipe (self c) of
        None \<Rightarrow> Some c
      | Some k \<Rightarrow> do { p \<leftarrow> store c k; p' \<leftarrow> mp_rollback p; Some (c\<lparr>store := (store c)(k \<mapsto> p')\<rparr>) })"

definition flush :: "pipe_ctx \<Rightarrow> pipe_ctx option" where
  "flush c =
     (if p_state (self c) = Term_ack_sent then Some c
      else case out_pipe (self c) of
        None \<Rightarrow> Some c
      | Some k \<Rightarrow> do { (ok, c) \<leftarrow> on_pipe k mp_flush c; Some (if \<not> ok then send Activate_read c else c) })"

definition check_write :: "pipe_ctx \<Rightarrow> bool \<times> pipe_ctx" where
  "check_write c =
     (if \<not> out_active (self c) \<or> p_state (self c) \<noteq> Active then (False, c)
      else if \<not> check_hwm (self c) then (False, upd_self (\<lambda>p. p\<lparr>out_active := False\<rparr>) c)
      else (True, c))"

definition write_out :: "msg \<Rightarrow> bool \<Rightarrow> pipe_ctx \<Rightarrow> pipe_ctx option" where
  "write_out m incomplete c =
     (case out_pipe (self c) of
        None \<Rightarrow> None
      | Some k \<Rightarrow> map_option snd (on_pipe k (\<lambda>p. ((), mp_write (locked c) m incomplete p)) c))"

definition pipe_write :: "msg \<Rightarrow> pipe_ctx \<Rightarrow> (bool \<times> pipe_ctx) option" where
  "pipe_write m c =
     (let (ok, c) = check_write c in
      if \<not> ok then Some (False, c)
      else do {
        c \<leftarrow> write_out m (is_more m) c;
        Some (True, if \<not> is_more m \<and> \<not> is_routing_id m then upd_self (\<lambda>p. p\<lparr>msgs_written := msgs_written p + 1\<rparr>) c else c) })"

section \<open>Reading\<close>

text \<open>What happens when the delimiter was read. Dropping the outbound pipe and acknowledging go together in the code.\<close>

definition drop_out_and_ack :: "pipe_ctx \<Rightarrow> pipe_ctx" where
  "drop_out_and_ack c = send Pipe_term_ack (upd_self (\<lambda>p. p\<lparr>out_pipe := None\<rparr>) c)"

definition process_delimiter :: "pipe_ctx \<Rightarrow> pipe_ctx option" where
  "process_delimiter c =
     slk_assert (p_state (self c) = Active \<or> p_state (self c) = Waiting_for_delimiter)
       (if p_state (self c) = Active then Some (upd_self (\<lambda>p. p\<lparr>p_state := Delimiter_received\<rparr>) c)
        else do { c \<leftarrow> rollback c; Some (upd_self (\<lambda>p. p\<lparr>p_state := Term_ack_sent\<rparr>) (drop_out_and_ack c)) })"

definition may_read :: "pipe \<Rightarrow> bool" where
  "may_read p \<longleftrightarrow> in_active p \<and> (p_state p = Active \<or> p_state p = Waiting_for_delimiter)"

definition pipe_check_read :: "pipe_ctx \<Rightarrow> (bool \<times> pipe_ctx) option" where
  "pipe_check_read c =
     (if \<not> may_read (self c) then Some (False, c)
      else do {
        (ok, c) \<leftarrow> on_pipe (in_pipe (self c)) mp_check_read c;
        if \<not> ok then Some (False, upd_self (\<lambda>p. p\<lparr>in_active := False\<rparr>) c)
        else do {
          p \<leftarrow> store c (in_pipe (self c));
          (delim, p) \<leftarrow> mp_probe is_delimiter p;
          let c = c\<lparr>store := (store c)(in_pipe (self c) \<mapsto> p)\<rparr>;
          if delim then do {
            (m, c) \<leftarrow> on_pipe (in_pipe (self c)) mp_read c;
            slk_assert (m \<noteq> None) (do { c \<leftarrow> process_delimiter c; Some (False, c) }) }
          else Some (True, c) } })"

definition pipe_read :: "pipe_ctx \<Rightarrow> (msg option \<times> pipe_ctx) option" where
  "pipe_read c =
     (if \<not> may_read (self c) then Some (None, c)
      else do {
        (r, c) \<leftarrow> on_pipe (in_pipe (self c)) mp_read_skip c;
        case r of
          None \<Rightarrow> Some (None, upd_self (\<lambda>p. p\<lparr>in_active := False\<rparr>) c)
        | Some m \<Rightarrow>
            if is_delimiter m then do { c \<leftarrow> process_delimiter c; Some (None, c) }
            else do {
              let c = (if \<not> is_more m \<and> \<not> is_routing_id m then upd_self (\<lambda>p. p\<lparr>msgs_read := msgs_read p + 1\<rparr>) c else c);
              Some (Some m,
                if lwm (self c) > 0 \<and> msgs_read (self c) mod word_of_int (lwm (self c)) = 0
                then send (Activate_write (msgs_read (self c))) c else c) } })"

section \<open>Termination and hiccups\<close>

definition write_delimiter :: "pipe_ctx \<Rightarrow> pipe_ctx option" where
  "write_delimiter c =
     (if out_pipe (self c) = None then Some c
      else do { c \<leftarrow> rollback c; c \<leftarrow> write_out init_delimiter False c; flush c })"

definition terminate :: "bool \<Rightarrow> pipe_ctx \<Rightarrow> pipe_ctx option" where
  "terminate dly c =
     (let c = upd_self (\<lambda>p. p\<lparr>delay := dly\<rparr>) c;
          stop = (\<lambda>c. write_delimiter (upd_self (\<lambda>p. p\<lparr>out_active := False\<rparr>) c)) in
      case p_state (self c) of
        Term_req_sent1 \<Rightarrow> Some c
      | Term_req_sent2 \<Rightarrow> Some c
      | Term_ack_sent \<Rightarrow> Some c
      | Active \<Rightarrow> stop (upd_self (\<lambda>p. p\<lparr>p_state := Term_req_sent1\<rparr>) (send Pipe_term c))
      | Waiting_for_delimiter \<Rightarrow>
          if \<not> delay (self c)
          then do { c \<leftarrow> rollback c; stop (upd_self (\<lambda>p. p\<lparr>p_state := Term_ack_sent\<rparr>) (drop_out_and_ack c)) }
          else stop c
      | Delimiter_received \<Rightarrow> stop (upd_self (\<lambda>p. p\<lparr>p_state := Term_req_sent1\<rparr>) (send Pipe_term c)))"

definition hiccup :: "pipe_ctx \<Rightarrow> pipe_ctx" where
  "hiccup c =
     (if p_state (self c) \<noteq> Active then c
      else
        let i = fresh c in
        send (Hiccup i)
          (upd_self (\<lambda>p. p\<lparr>in_pipe := i, in_active := True\<rparr>)
            (c\<lparr>store := (store c)(i \<mapsto> mp_new (conflate (self c))), fresh := Suc i\<rparr>)))"

section \<open>Commands\<close>

definition process_activate_read :: "pipe_ctx \<Rightarrow> pipe_ctx option" where
  "process_activate_read c =
     (if \<not> in_active (self c) \<and> (p_state (self c) = Active \<or> p_state (self c) = Waiting_for_delimiter)
      then notify Read_activated (upd_self (\<lambda>p. p\<lparr>in_active := True\<rparr>) c) else Some c)"

definition process_activate_write :: "u64 \<Rightarrow> pipe_ctx \<Rightarrow> pipe_ctx option" where
  "process_activate_write n c =
     (let c = upd_self (\<lambda>p. p\<lparr>peers_msgs_read := n\<rparr>) c in
      if \<not> out_active (self c) \<and> p_state (self c) = Active
      then notify Write_activated (upd_self (\<lambda>p. p\<lparr>out_active := True\<rparr>) c) else Some c)"

definition process_hiccup :: "nat \<Rightarrow> pipe_ctx \<Rightarrow> pipe_ctx option" where
  "process_hiccup i c =
     (case out_pipe (self c) of
        None \<Rightarrow> None
      | Some k \<Rightarrow> do {
          (_, c) \<leftarrow> on_pipe k mp_flush c;
          (ms, c) \<leftarrow> on_pipe k mp_drain c;
          let c = upd_self (\<lambda>p. p\<lparr>msgs_written := msgs_written p - of_nat (length (filter (\<lambda>m. \<not> is_more m) ms)),
                                  out_pipe := Some i, out_active := True\<rparr>)
                    (c\<lparr>store := (store c)(k := None)\<rparr>);
          if p_state (self c) = Active then notify Hiccuped c else Some c })"

definition process_pipe_term :: "pipe_ctx \<Rightarrow> pipe_ctx option" where
  "process_pipe_term c =
     (case p_state (self c) of
        Active \<Rightarrow>
          if delay (self c) then Some (upd_self (\<lambda>p. p\<lparr>p_state := Waiting_for_delimiter\<rparr>) c)
          else Some (drop_out_and_ack (upd_self (\<lambda>p. p\<lparr>p_state := Term_ack_sent\<rparr>) c))
      | Delimiter_received \<Rightarrow> Some (drop_out_and_ack (upd_self (\<lambda>p. p\<lparr>p_state := Term_ack_sent\<rparr>) c))
      | Term_req_sent1 \<Rightarrow> Some (drop_out_and_ack (upd_self (\<lambda>p. p\<lparr>p_state := Term_req_sent2\<rparr>) c))
      | _ \<Rightarrow> None)"

definition process_pipe_term_ack :: "pipe_ctx \<Rightarrow> pipe_ctx option" where
  "process_pipe_term_ack c = do {
     c \<leftarrow> notify Pipe_terminated c;
     c \<leftarrow> (if p_state (self c) = Term_req_sent1 then Some (drop_out_and_ack c)
          else slk_assert (p_state (self c) = Term_ack_sent \<or> p_state (self c) = Term_req_sent2) (Some c));
     let i = in_pipe (self c);
     (_, c) \<leftarrow> (if \<not> conflate (self c) then on_pipe i mp_drain c else on_pipe i (\<lambda>p. ([], p)) c);
     Some (c\<lparr>store := (store c)(i := None), deleted := True\<rparr>) }"

definition process_pipe_hwm :: "int \<Rightarrow> int \<Rightarrow> pipe_ctx \<Rightarrow> pipe_ctx option" where
  "process_pipe_hwm inhwm outhwm c = Some (upd_self (set_hwms inhwm outhwm) c)"

fun process_command :: "pipe_cmd \<Rightarrow> pipe_ctx \<Rightarrow> pipe_ctx option" where
  "process_command Activate_read = process_activate_read"
| "process_command (Activate_write n) = process_activate_write n"
| "process_command (Hiccup i) = process_hiccup i"
| "process_command Pipe_term = process_pipe_term"
| "process_command Pipe_term_ack = process_pipe_term_ack"
| "process_command (Pipe_hwm i out) = process_pipe_hwm i out"

section \<open>Messages of the pipe itself\<close>

definition send_hwms_to_peer :: "int \<Rightarrow> int \<Rightarrow> pipe_ctx \<Rightarrow> pipe_ctx" where
  "send_hwms_to_peer inhwm outhwm c = send (Pipe_hwm inhwm outhwm) c"

definition send_disconnect_msg :: "pipe_ctx \<Rightarrow> pipe_ctx option" where
  "send_disconnect_msg c = do {
     n \<leftarrow> msg_size (disconnect_msg (self c));
     if n > 0 \<and> out_pipe (self c) \<noteq> None then do {
       c \<leftarrow> rollback c;
       c \<leftarrow> write_out (disconnect_msg (self c)) False c;
       c \<leftarrow> flush c;
       Some (upd_self (\<lambda>p. p\<lparr>disconnect_msg := msg_init\<rparr>) c) }
     else Some c }"

definition set_disconnect_msg :: "(nat \<Rightarrow> bool) \<Rightarrow> bytes \<Rightarrow> pipe_ctx \<Rightarrow> pipe_ctx option" where
  "set_disconnect_msg alloc disconnect c =
     (case init_buffer alloc disconnect of Inl e \<Rightarrow> None | Inr m \<Rightarrow> Some (upd_self (\<lambda>p. p\<lparr>disconnect_msg := m\<rparr>) c))"

definition send_hiccup_msg :: "(nat \<Rightarrow> bool) \<Rightarrow> bytes \<Rightarrow> pipe_ctx \<Rightarrow> pipe_ctx option" where
  "send_hiccup_msg alloc hic c =
     (if hic \<noteq> [] \<and> out_pipe (self c) \<noteq> None
      then case init_buffer alloc hic of Inl e \<Rightarrow> None | Inr m \<Rightarrow> do { c \<leftarrow> write_out m False c; flush c }
      else Some c)"

text \<open>\<^verbatim>\<open>send_routing_id\<close> and \<^verbatim>\<open>send_hello_msg\<close> insist that the message is accepted.\<close>

definition write_asserted :: "msg \<Rightarrow> pipe_ctx \<Rightarrow> pipe_ctx option" where
  "write_asserted m c = do { (written, c) \<leftarrow> pipe_write m c; slk_assert written (flush c) }"

definition send_routing_id :: "(nat \<Rightarrow> bool) \<Rightarrow> bytes \<Rightarrow> pipe_ctx \<Rightarrow> pipe_ctx option" where
  "send_routing_id alloc routing_id c =
     (case init_size alloc routing_id of Inl e \<Rightarrow> None | Inr m \<Rightarrow> write_asserted (set_flags flag_routing_id m) c)"

definition send_hello_msg :: "(nat \<Rightarrow> bool) \<Rightarrow> bytes \<Rightarrow> pipe_ctx \<Rightarrow> pipe_ctx option" where
  "send_hello_msg alloc hello c =
     (case init_buffer alloc hello of Inl e \<Rightarrow> None | Inr m \<Rightarrow> write_asserted m c)"

end
