(* ===== verification/Pipe_Pair.thy ===== *)
theory Pipe_Pair
  imports Pipe
begin

text \<open>
  Two pipe ends and the commands between them. The ends belong to different threads, so a history is any sequence of
  operations of either end and of deliveries of the oldest command sent to an end; commands of one sender arrive in
  the order in which they were sent. The handshake that terminates a pipe and the replacement of a message pipe by a
  hiccup are the subject of a rely-guarantee contract that every operation and every command handler is shown to keep.
\<close>

record pipe_pair =
  pp_store :: "nat \<rightharpoonup> mpipe"
  pp_fresh :: nat
  pp_end :: "bool \<Rightarrow> pipe"
  pp_deleted :: "bool \<Rightarrow> bool"
  pp_mbox :: "bool \<Rightarrow> pipe_cmd list"
  pp_log :: "(bool \<times> pipe_event) list"

text \<open>\<^verbatim>\<open>pipepair\<close>, after both owners have set themselves as event sink. The first end is \<^const>\<open>False\<close>.\<close>

definition pipepair :: "int \<times> int \<Rightarrow> bool \<times> bool \<Rightarrow> pipe_pair" where
  "pipepair hwms confl =
     \<lparr>pp_store = [0 \<mapsto> mp_new (fst confl), 1 \<mapsto> mp_new (snd confl)], pp_fresh = 2,
      pp_end = (\<lambda>s. if s then new_pipe 1 0 (fst hwms) (snd hwms) (snd confl)
                    else new_pipe 0 1 (snd hwms) (fst hwms) (fst confl)),
      pp_deleted = (\<lambda>_. False), pp_mbox = (\<lambda>_. []), pp_log = []\<rparr>"

definition attach_sinks :: "pipe_pair \<Rightarrow> pipe_pair option" where
  "attach_sinks S = do {
     p \<leftarrow> set_event_sink (pp_end S False);
     q \<leftarrow> set_event_sink (pp_end S True);
     Some (S\<lparr>pp_end := (\<lambda>s. if s then q else p)\<rparr>) }"

datatype pipe_op =
    P_check_read | P_read | P_check_write | P_write msg | P_rollback | P_flush | P_hiccup | P_set_nodelay
  | P_terminate bool | P_set_hwms int int | P_set_hwms_boost int int | P_process

datatype pipe_result = P_done | P_returns bool | P_message "msg option" | P_not_enabled | P_fault

fun pipe_call :: "pipe_op \<Rightarrow> pipe_ctx \<Rightarrow> (pipe_result \<times> pipe_ctx) option" where
  "pipe_call P_check_read c = map_option (map_prod P_returns id) (pipe_check_read c)"
| "pipe_call P_read c = map_option (map_prod P_message id) (pipe_read c)"
| "pipe_call P_check_write c = Some (map_prod P_returns id (check_write c))"
| "pipe_call (P_write m) c = map_option (map_prod P_returns id) (pipe_write m c)"
| "pipe_call P_rollback c = map_option (Pair P_done) (rollback c)"
| "pipe_call P_flush c = map_option (Pair P_done) (flush c)"
| "pipe_call P_hiccup c = Some (P_done, hiccup c)"
| "pipe_call P_set_nodelay c = Some (P_done, upd_self set_nodelay c)"
| "pipe_call (P_terminate d) c = map_option (Pair P_done) (terminate d c)"
| "pipe_call (P_set_hwms i out) c = Some (P_done, upd_self (set_hwms i out) c)"
| "pipe_call (P_set_hwms_boost i out) c = Some (P_done, upd_self (set_hwms_boost i out) c)"
| "pipe_call P_process c = Some (P_not_enabled, c)"

definition ctx_of :: "bool \<Rightarrow> bool \<Rightarrow> pipe_pair \<Rightarrow> pipe_ctx" where
  "ctx_of s l S =
     \<lparr>store = pp_store S, fresh = pp_fresh S, locked = l, self = pp_end S s, deleted = False, sent = [], events = []\<rparr>"

definition commit :: "bool \<Rightarrow> pipe_cmd list \<Rightarrow> pipe_ctx \<Rightarrow> pipe_pair \<Rightarrow> pipe_pair" where
  "commit s rest c S =
     \<lparr>pp_store = store c, pp_fresh = fresh c, pp_end = (pp_end S)(s := self c),
      pp_deleted = (pp_deleted S)(s := deleted c),
      pp_mbox = (pp_mbox S)(s := rest, \<not> s := pp_mbox S (\<not> s) @ sent c),
      pp_log = pp_log S @ map (Pair s) (events c)\<rparr>"

text \<open>A step names the end that acts, whether the other thread holds the lock of a conflating pipe, and the
  operation. The owner of a deleted end has dropped it and takes no step, but a command that is delivered to it is a
  fault.\<close>

fun pipe_step :: "bool \<times> bool \<times> pipe_op \<Rightarrow> pipe_pair \<Rightarrow> pipe_result \<times> pipe_pair" where
  "pipe_step (s, l, x) S =
     (if x = P_process then
        case pp_mbox S s of
          [] \<Rightarrow> (P_not_enabled, S)
        | cmd # rest \<Rightarrow>
            if pp_deleted S s then (P_fault, S)
            else case process_command cmd (ctx_of s l S) of
                   None \<Rightarrow> (P_fault, S)
                 | Some c \<Rightarrow> (P_done, commit s rest c S)
      else if pp_deleted S s then (P_not_enabled, S)
      else case pipe_call x (ctx_of s l S) of
             None \<Rightarrow> (P_fault, S)
           | Some (r, c) \<Rightarrow> (r, commit s (pp_mbox S s) c S))"

section \<open>The contract of an operation\<close>

fun is_ctl :: "pipe_cmd \<Rightarrow> bool" where
  "is_ctl Pipe_term = True"
| "is_ctl Pipe_term_ack = True"
| "is_ctl _ = False"

fun hics :: "pipe_cmd list \<Rightarrow> nat list" where
  "hics [] = []"
| "hics (Hiccup i # xs) = i # hics xs"
| "hics (_ # xs) = hics xs"

abbreviation ctl :: "pipe_cmd list \<Rightarrow> pipe_cmd list" where
  "ctl \<equiv> filter is_ctl"

text \<open>What an end has sent and received of the handshake, by its state.\<close>

fun snd_ctl :: "pipe_state \<Rightarrow> bool \<Rightarrow> pipe_cmd list" where
  "snd_ctl Term_ack_sent d = [Pipe_term_ack]"
| "snd_ctl Term_req_sent1 d = (if d then [Pipe_term, Pipe_term_ack] else [Pipe_term])"
| "snd_ctl Term_req_sent2 d = [Pipe_term, Pipe_term_ack]"
| "snd_ctl _ d = []"

fun rcv_ctl :: "pipe_state \<Rightarrow> bool \<Rightarrow> pipe_cmd list" where
  "rcv_ctl Waiting_for_delimiter d = [Pipe_term]"
| "rcv_ctl Term_ack_sent d = (if d then [Pipe_term, Pipe_term_ack] else [Pipe_term])"
| "rcv_ctl Term_req_sent1 d = (if d then [Pipe_term_ack] else [])"
| "rcv_ctl Term_req_sent2 d = (if d then [Pipe_term, Pipe_term_ack] else [Pipe_term])"
| "rcv_ctl _ d = []"

definition ack_last :: "pipe_cmd list \<Rightarrow> bool" where
  "ack_last xs \<longleftrightarrow> Pipe_term_ack \<notin> set (butlast xs)"

fun hics_first :: "pipe_cmd list \<Rightarrow> bool" where
  "hics_first [] = True"
| "hics_first (x # xs) = (if is_ctl x then hics xs = [] else hics_first xs)"

definition pipes_ok :: "(nat \<rightharpoonup> mpipe) \<Rightarrow> bool" where
  "pipes_ok h \<longleftrightarrow> (\<forall>p\<in>ran h. \<forall>m\<in>set (mp_unfinished p). is_more m)"

definition acked :: "pipe \<Rightarrow> bool" where
  "acked p \<longleftrightarrow> p_state p = Term_ack_sent \<or> p_state p = Term_req_sent2"

text \<open>What an operation may rely on, and what it guarantees; \<open>x\<close> is the command it processes, if any.\<close>

definition sound :: "pipe_ctx \<Rightarrow> bool" where
  "sound c \<longleftrightarrow> has_sink (self c) \<and> in_pipe (self c) \<in> dom (store c) \<and>
     set_option (out_pipe (self c)) \<subseteq> dom (store c) \<and> (out_pipe (self c) = None \<longleftrightarrow> acked (self c)) \<and> pipes_ok (store c)"

definition rely :: "pipe_ctx \<Rightarrow> bool" where
  "rely c \<longleftrightarrow> sent c = [] \<and> \<not> deleted c \<and> sound c"

definition guar :: "pipe_cmd list \<Rightarrow> pipe_ctx \<Rightarrow> pipe_ctx \<Rightarrow> bool" where
  "guar x c c' \<longleftrightarrow>
     has_sink (self c') \<and> pipes_ok (store c') \<and>
     rcv_ctl (p_state (self c')) (deleted c') = rcv_ctl (p_state (self c)) False @ ctl x \<and>
     snd_ctl (p_state (self c')) (deleted c') = snd_ctl (p_state (self c)) False @ ctl (sent c') \<and>
     ack_last (sent c') \<and> (acked (self c) \<longrightarrow> sent c' = []) \<and>
     (deleted c' \<longrightarrow> ctl x = [Pipe_term_ack] \<and> p_state (self c') \<in> {Term_ack_sent, Term_req_sent1, Term_req_sent2}) \<and>
     in_pipe (self c') = last (in_pipe (self c) # hics (sent c')) \<and>
     (hics (sent c') \<noteq> [] \<longrightarrow> sent c' = [Hiccup (fresh c)] \<and> p_state (self c) = Active) \<and>
     fresh c' = fresh c + length (hics (sent c')) \<and>
     out_pipe (self c') =
       (if Pipe_term_ack \<in> set (sent c') then None else if hics x = [] then out_pipe (self c) else Some (hd (hics x))) \<and>
     dom (store c') = (dom (store c) \<union> set (hics (sent c')))
       - (if hics x = [] then {} else set_option (out_pipe (self c))) - (if deleted c' then {in_pipe (self c)} else {})"

text \<open>Steps that only move messages, flags and counters, and may send a wake-up.\<close>

definition quiet :: "pipe_ctx \<Rightarrow> pipe_ctx \<Rightarrow> bool" where
  "quiet c c' \<longleftrightarrow>
     (\<exists>ys. sent c' = sent c @ ys \<and> ctl ys = [] \<and> hics ys = [] \<and> (acked (self c) \<longrightarrow> ys = [])) \<and>
     has_sink (self c') = has_sink (self c) \<and> p_state (self c') = p_state (self c) \<and> in_pipe (self c') = in_pipe (self c) \<and>
     out_pipe (self c') = out_pipe (self c) \<and> fresh c' = fresh c \<and> deleted c' = deleted c \<and>
     dom (store c') = dom (store c) \<and> pipes_ok (store c')"

lemma hics_append [simp]: "hics (xs @ ys) = hics xs @ hics ys"
  by (induction xs rule: hics.induct) simp_all

lemma acked_state [simp]:
  "p_state p = Active \<Longrightarrow> \<not> acked p" "p_state p = Waiting_for_delimiter \<Longrightarrow> \<not> acked p"
  "p_state p = Delimiter_received \<Longrightarrow> \<not> acked p" "p_state p = Term_req_sent1 \<Longrightarrow> \<not> acked p"
  "p_state p = Term_ack_sent \<Longrightarrow> acked p" "p_state p = Term_req_sent2 \<Longrightarrow> acked p"
  by (simp_all add: acked_def)

lemma upd_self_sel [simp]:
  "self (upd_self f c) = f (self c)" "store (upd_self f c) = store c" "fresh (upd_self f c) = fresh c"
  "sent (upd_self f c) = sent c" "deleted (upd_self f c) = deleted c" "events (upd_self f c) = events c"
  "locked (upd_self f c) = locked c"
  by (simp_all add: upd_self_def)

lemma send_sel [simp]:
  "self (send x c) = self c" "store (send x c) = store c" "fresh (send x c) = fresh c"
  "sent (send x c) = sent c @ [x]" "deleted (send x c) = deleted c" "events (send x c) = events c"
  "locked (send x c) = locked c"
  by (simp_all add: send_def)

lemma quiet_refl: "pipes_ok (store c) \<Longrightarrow> quiet c c"
  by (simp add: quiet_def)

lemma quiet_trans:
  assumes "quiet c c'" "quiet c' c''"
  shows "quiet c c''"
proof -
  obtain ys where ys: "sent c' = sent c @ ys" "ctl ys = []" "hics ys = []" "acked (self c) \<longrightarrow> ys = []"
    using assms(1) by (auto simp: quiet_def)
  obtain zs where zs: "sent c'' = sent c' @ zs" "ctl zs = []" "hics zs = []" "acked (self c') \<longrightarrow> zs = []"
    using assms(2) by (auto simp: quiet_def)
  have "acked (self c') = acked (self c)" using assms(1) by (simp add: quiet_def acked_def)
  then show ?thesis using assms ys zs unfolding quiet_def by (intro conjI exI [of _ "ys @ zs"]) simp_all
qed

lemma quiet_pipes_ok: "quiet c c' \<Longrightarrow> pipes_ok (store c')"
  by (simp add: quiet_def)

lemma quiet_guar:
  assumes "rely c" "quiet c c'"
  shows "guar [] c c'"
proof -
  obtain ys where ys: "sent c' = ys" "ctl ys = []" "hics ys = []" "acked (self c) \<longrightarrow> ys = []"
    using assms by (auto simp: quiet_def rely_def)
  have "Pipe_term_ack \<notin> set ys" using ys(2) by (metis filter_empty_conv is_ctl.simps(2))
  moreover from this have "ack_last ys" by (auto simp: ack_last_def dest: in_set_butlastD)
  ultimately show ?thesis using ys assms by (simp add: guar_def quiet_def rely_def sound_def)
qed

lemma guar_cmd: "\<not> is_ctl x \<Longrightarrow> hics [x] = [] \<Longrightarrow> guar [x] c c' = guar [] c c'"
  by (simp only: guar_def filter.simps hics.simps if_False)

section \<open>Building blocks\<close>

lemma quiet_sound: "quiet c c' \<Longrightarrow> sound c \<Longrightarrow> sound c'"
  by (simp add: quiet_def sound_def acked_def)

lemma pipes_okD: "pipes_ok h \<Longrightarrow> h i = Some p \<Longrightarrow> m \<in> set (mp_unfinished p) \<Longrightarrow> is_more m"
  by (auto simp: pipes_ok_def ran_def)

lemma pipes_ok_upd: "pipes_ok h \<Longrightarrow> \<forall>m\<in>set (mp_unfinished p). is_more m \<Longrightarrow> pipes_ok (h(i \<mapsto> p))"
  by (auto simp: pipes_ok_def ran_def)

lemma pipes_ok_del: "pipes_ok h \<Longrightarrow> pipes_ok (h(i := None))"
  by (auto simp: pipes_ok_def ran_def)

lemma sound_in: "sound c \<Longrightarrow> \<exists>p. store c (in_pipe (self c)) = Some p"
  by (auto simp: sound_def)

lemma sound_out: "sound c \<Longrightarrow> out_pipe (self c) = Some i \<Longrightarrow> \<exists>p. store c i = Some p"
  by (auto simp: sound_def)

lemma sound_pipes_ok: "sound c \<Longrightarrow> pipes_ok (store c)"
  by (simp add: sound_def)

lemma quiet_store:
  "pipes_ok (store c) \<Longrightarrow> store c i = Some p \<Longrightarrow> \<forall>m\<in>set (mp_unfinished q). is_more m \<Longrightarrow>
   quiet c (c\<lparr>store := (store c)(i \<mapsto> q)\<rparr>)"
  using pipes_ok_upd [of "store c" q i] by (auto simp: quiet_def)

lemma on_pipe_eq:
  "store c i = Some p \<Longrightarrow> on_pipe i f c = Some (fst (f p), c\<lparr>store := (store c)(i \<mapsto> snd (f p))\<rparr>)"
  by (simp add: on_pipe_def split_beta)

lemma on_pipe_quiet:
  assumes "pipes_ok (store c)" "store c i = Some p" "set (mp_unfinished (snd (f p))) \<subseteq> set (mp_unfinished p)"
  shows "quiet c (c\<lparr>store := (store c)(i \<mapsto> snd (f p))\<rparr>)"
  using assms pipes_okD [OF assms(1,2)] by (intro quiet_store) auto

lemma quiet_upd_self:
  "pipes_ok (store c) \<Longrightarrow> (\<And>p. has_sink (f p) = has_sink p \<and> p_state (f p) = p_state p \<and> in_pipe (f p) = in_pipe p \<and> out_pipe (f p) = out_pipe p) \<Longrightarrow>
   quiet c (upd_self f c)"
  by (simp add: quiet_def)

lemma quiet_send: "pipes_ok (store c) \<Longrightarrow> \<not> is_ctl x \<Longrightarrow> hics [x] = [] \<Longrightarrow> \<not> acked (self c) \<Longrightarrow> quiet c (send x c)"
  by (simp add: quiet_def)

lemma notify_ok: "sound c \<Longrightarrow> \<exists>c'. notify e c = Some c' \<and> quiet c c'"
  by (auto simp: notify_def sound_def quiet_def)

lemma rollback_ok:
  assumes "sound c"
  shows "\<exists>c'. rollback c = Some c' \<and> quiet c c' \<and> sent c' = sent c"
proof (cases "out_pipe (self c)")
  case None
  then show ?thesis using assms by (simp add: rollback_def quiet_refl sound_def)
next
  case (Some i)
  then obtain p where p: "store c i = Some p" using sound_out [OF assms] by blast
  then obtain q where q: "mp_rollback p = Some q" "mp_unfinished q = []"
    using mp_rollback_ok [of p] pipes_okD [OF sound_pipes_ok [OF assms]] by blast
  then show ?thesis using Some p quiet_store [OF sound_pipes_ok [OF assms] p, of q] by (simp add: rollback_def)
qed

lemma flush_ok:
  assumes "sound c"
  shows "\<exists>c'. flush c = Some c' \<and> quiet c c'"
proof (cases "p_state (self c) = Term_ack_sent \<or> out_pipe (self c) = None")
  case True
  then show ?thesis using assms by (auto simp: flush_def quiet_refl sound_def split: option.splits)
next
  case False
  then obtain i where i: "out_pipe (self c) = Some i" "\<not> acked (self c)" using assms by (auto simp: sound_def)
  then obtain p where p: "store c i = Some p" using sound_out [OF assms] by blast
  have q: "quiet c (c\<lparr>store := (store c)(i \<mapsto> snd (mp_flush p))\<rparr>)"
    using on_pipe_quiet [OF sound_pipes_ok [OF assms] p, of mp_flush] by simp
  then have "quiet c (send Activate_read (c\<lparr>store := (store c)(i \<mapsto> snd (mp_flush p))\<rparr>))"
    by (rule quiet_trans) (use i(2) quiet_pipes_ok [OF q] in \<open>simp add: quiet_send\<close>)
  then show ?thesis using False i p q by (simp add: flush_def on_pipe_eq)
qed

lemma write_out_ok:
  assumes "sound c" "out_pipe (self c) \<noteq> None" "inc \<longrightarrow> is_more m"
  shows "\<exists>c'. write_out m inc c = Some c' \<and> quiet c c' \<and> sent c' = sent c"
proof -
  obtain i where i: "out_pipe (self c) = Some i" using assms(2) by blast
  then obtain p where p: "store c i = Some p" using sound_out [OF assms(1)] by blast
  have "\<forall>x\<in>set (mp_unfinished (mp_write (locked c) m inc p)). is_more x"
    using mp_write_unfinished [of "locked c" m inc p] pipes_okD [OF sound_pipes_ok [OF assms(1)] p] assms(3) by (auto split: if_splits)
  then show ?thesis
    using i p quiet_store [OF sound_pipes_ok [OF assms(1)] p] by (simp add: write_out_def on_pipe_eq)
qed

lemma write_delimiter_ok:
  assumes "sound c"
  shows "\<exists>c'. write_delimiter c = Some c' \<and> quiet c c'"
proof (cases "out_pipe (self c) = None")
  case True
  then show ?thesis using assms by (auto simp: write_delimiter_def sound_def quiet_refl)
next
  case False
  obtain c1 where 1: "rollback c = Some c1" "quiet c c1" using rollback_ok [OF assms] by blast
  obtain c2 where 2: "write_out init_delimiter False c1 = Some c2" "quiet c1 c2"
    using write_out_ok [OF quiet_sound [OF 1(2) assms], of False init_delimiter] 1(2) False by (auto simp: quiet_def)
  obtain c3 where 3: "flush c2 = Some c3" "quiet c2 c3"
    using flush_ok [of c2] quiet_sound [OF 2(2) quiet_sound [OF 1(2) assms]] by blast
  have "quiet c c3" using quiet_trans [OF quiet_trans [OF 1(2) 2(2)] 3(2)] .
  then show ?thesis using False 1(1) 2(1) 3(1) by (auto simp: write_delimiter_def)
qed

section \<open>The operations keep the contract\<close>

lemma pipe_write_ok:
  assumes "rely c"
  shows "\<exists>y. pipe_write m c = Some y \<and> guar [] c (snd y)"
proof -
  obtain ok c1 where 1: "check_write c = (ok, c1)" by (cases "check_write c")
  have q1: "quiet c c1" "ok \<longrightarrow> c1 = c \<and> \<not> acked (self c)"
    using 1 assms by (auto simp: check_write_def rely_def sound_def quiet_refl quiet_upd_self split: if_splits)
  show ?thesis
  proof (cases ok)
    case False
    then show ?thesis using 1 quiet_guar [OF assms q1(1)] by (simp add: pipe_write_def)
  next
    case True
    then have s: "c1 = c" "out_pipe (self c) \<noteq> None" "sound c" using q1(2) assms by (auto simp: rely_def sound_def)
    obtain c2 where 2: "write_out m (is_more m) c = Some c2" "quiet c c2" using write_out_ok [OF s(3,2), of "is_more m" m] by blast
    have "quiet c (upd_self (\<lambda>p. p\<lparr>msgs_written := msgs_written p + 1\<rparr>) c2)"
      using quiet_trans [OF 2(2) quiet_upd_self] quiet_pipes_ok [OF 2(2)] by simp
    then show ?thesis using 1 2 True s(1) quiet_guar [OF assms] by (simp add: pipe_write_def)
  qed
qed

lemma ctl_append_ack: "ack_last (ys @ [Pipe_term_ack]) \<longleftrightarrow> Pipe_term_ack \<notin> set ys"
  by (simp add: ack_last_def)

text \<open>A quiet stretch, then the acknowledgement, in a state that allows it.\<close>

lemma ack_guar:
  assumes "rely c" "quiet c c1" "sent c1 = []"
    and "self c' = (self c1)\<lparr>out_pipe := None, p_state := st\<rparr>" "store c' = store c1" "fresh c' = fresh c1" "\<not> deleted c'"
    and "sent c' = [Pipe_term_ack]" "hics x = []"
    and "rcv_ctl st False = rcv_ctl (p_state (self c)) False @ ctl x"
    and "snd_ctl st False = snd_ctl (p_state (self c)) False @ [Pipe_term_ack]" "\<not> acked (self c)"
  shows "guar x c c'"
  using assms by (simp add: guar_def quiet_def rely_def sound_def ack_last_def)

lemma process_delimiter_ok:
  assumes "rely c" "quiet c c1" "sent c1 = []" "may_read (self c)"
  shows "\<exists>c'. process_delimiter c1 = Some c' \<and> guar [] c c'"
proof (cases "p_state (self c) = Active")
  case True
  then have "guar [] c (upd_self (\<lambda>p. p\<lparr>p_state := Delimiter_received\<rparr>) c1)"
    using assms by (simp add: guar_def quiet_def rely_def sound_def ack_last_def)
  then show ?thesis using True assms(2) by (simp add: process_delimiter_def quiet_def)
next
  case False
  then have st: "p_state (self c) = Waiting_for_delimiter" using assms(4) by (simp add: may_read_def)
  then have st1: "p_state (self c1) = Waiting_for_delimiter" using assms(2) by (simp add: quiet_def)
  have "sound c1" using quiet_sound [OF assms(2)] assms(1) by (simp add: rely_def)
  then obtain c2 where 2: "rollback c1 = Some c2" "quiet c1 c2" "sent c2 = sent c1" using rollback_ok by blast
  have q: "quiet c c2" using quiet_trans [OF assms(2) 2(2)] .
  have "guar [] c (upd_self (\<lambda>p. p\<lparr>p_state := Term_ack_sent\<rparr>) (drop_out_and_ack c2))"
    using ack_guar [OF assms(1) q, of _ Term_ack_sent "[]"] 2(3) assms(1,3) q st
    by (simp add: drop_out_and_ack_def quiet_def rely_def)
  then show ?thesis using 2(1) st1 by (simp add: process_delimiter_def)
qed

lemma pipe_check_read_ok:
  assumes "rely c"
  shows "\<exists>y. pipe_check_read c = Some y \<and> guar [] c (snd y)"
proof (cases "may_read (self c)")
  case False
  then show ?thesis using assms quiet_guar [OF assms quiet_refl] by (simp add: pipe_check_read_def rely_def sound_def)
next
  case True
  let ?i = "in_pipe (self c)"
  have so: "sound c" "sent c = []" using assms by (simp_all add: rely_def)
  obtain p where p: "store c ?i = Some p" using sound_in [OF so(1)] by blast
  let ?p1 = "snd (mp_check_read p)" let ?c1 = "c\<lparr>store := (store c)(?i \<mapsto> ?p1)\<rparr>"
  have q1: "quiet c ?c1" using on_pipe_quiet [OF sound_pipes_ok [OF so(1)] p, of mp_check_read] by simp
  show ?thesis
  proof (cases "mp_readable p = []")
    case empty: True
    have "quiet c (upd_self (\<lambda>q. q\<lparr>in_active := False\<rparr>) ?c1)"
      using quiet_trans [OF q1 quiet_upd_self] quiet_pipes_ok [OF q1] by simp
    then show ?thesis using True p empty quiet_guar [OF assms] mp_check_read_fst [of p] by (simp add: pipe_check_read_def on_pipe_eq)
  next
    case False
    then have pr: "mp_probe is_delimiter ?p1 = Some (is_delimiter (hd (mp_readable p)), ?p1)" using mp_probe_eq [of ?p1] by simp
    show ?thesis
    proof (cases "is_delimiter (hd (mp_readable p))")
      case no: False
      then show ?thesis using True p False pr quiet_guar [OF assms q1] mp_check_read_fst [of p] by (simp add: pipe_check_read_def on_pipe_eq)
    next
      case yes: True
      let ?c2 = "c\<lparr>store := (store c)(?i \<mapsto> snd (mp_read ?p1))\<rparr>"
      have "quiet c ?c2" using quiet_store [OF sound_pipes_ok [OF so(1)] p] pipes_okD [OF sound_pipes_ok [OF so(1)] p] by simp
      then obtain c' where c': "process_delimiter ?c2 = Some c'" "guar [] c c'"
        using process_delimiter_ok [OF assms, of ?c2] so(2) True by auto
      have "fst (mp_read ?p1) \<noteq> None" using False by (simp add: mp_read_fst split: list.splits)
      then show ?thesis using True p False pr yes c' mp_check_read_fst [of p] by (simp add: pipe_check_read_def on_pipe_eq)
    qed
  qed
qed

lemma pipe_read_ok:
  assumes "rely c"
  shows "\<exists>y. pipe_read c = Some y \<and> guar [] c (snd y)"
proof (cases "may_read (self c)")
  case False
  then show ?thesis using assms quiet_guar [OF assms quiet_refl] by (simp add: pipe_read_def rely_def sound_def)
next
  case True
  let ?i = "in_pipe (self c)"
  have so: "sound c" "sent c = []" using assms by (simp_all add: rely_def)
  obtain p where p: "store c ?i = Some p" using sound_in [OF so(1)] by blast
  obtain r p' where r: "mp_read_skip p = (r, p')" by (cases "mp_read_skip p")
  let ?c1 = "c\<lparr>store := (store c)(?i \<mapsto> p')\<rparr>"
  have "mp_unfinished p' = mp_unfinished p" using mp_read_skip_spec [OF r] by blast
  then have q1: "quiet c ?c1" using on_pipe_quiet [OF sound_pipes_ok [OF so(1)] p, of mp_read_skip] r by simp
  have o: "on_pipe ?i mp_read_skip c = Some (r, ?c1)" using p r by (simp add: on_pipe_eq)
  show ?thesis
  proof (cases r)
    case None
    have "quiet c (upd_self (\<lambda>q. q\<lparr>in_active := False\<rparr>) ?c1)"
      using quiet_trans [OF q1 quiet_upd_self] quiet_pipes_ok [OF q1] by simp
    then show ?thesis using True o None quiet_guar [OF assms] by (simp add: pipe_read_def)
  next
    case (Some m)
    show ?thesis
    proof (cases "is_delimiter m")
      case d: True
      then obtain c' where "process_delimiter ?c1 = Some c'" "guar [] c c'" using process_delimiter_ok [OF assms q1] so(2) True by auto
      then show ?thesis using True o Some d by (simp add: pipe_read_def)
    next
      case False
      let ?c2 = "if \<not> is_more m \<and> \<not> is_routing_id m then upd_self (\<lambda>p. p\<lparr>msgs_read := msgs_read p + 1\<rparr>) ?c1 else ?c1"
      have q2: "quiet c ?c2" using quiet_trans [OF q1 quiet_upd_self] quiet_pipes_ok [OF q1] q1 by simp
      have "\<not> acked (self ?c2)" using True by (auto simp: may_read_def acked_def)
      then have q3: "quiet c (send (Activate_write (msgs_read (self ?c2))) ?c2)"
        using quiet_trans [OF q2 quiet_send] quiet_pipes_ok [OF q2] by simp
      show ?thesis using True o Some False quiet_guar [OF assms q2] quiet_guar [OF assms q3] by (simp add: pipe_read_def Let_def split del: if_split) (simp split: if_splits)
    qed
  qed
qed

lemma upd_self_upd_self: "upd_self g (upd_self f c) = upd_self (\<lambda>p. g (f p)) c"
  by (simp add: upd_self_def)

text \<open>Asking for termination: the request, then the delimiter.\<close>

lemma terminate_request_ok:
  assumes "rely c" "p_state (self c) = Active \<or> p_state (self c) = Delimiter_received"
    and "\<And>p. (f p)\<lparr>out_active := a, delay := b\<rparr> = p\<lparr>p_state := Term_req_sent1, out_active := a, delay := b\<rparr>"
  shows "\<exists>c'. write_delimiter (upd_self f (send Pipe_term c)) = Some c' \<and> guar [] c c'"
proof -
  have f: "p_state (f p) = Term_req_sent1 \<and> has_sink (f p) = has_sink p \<and> in_pipe (f p) = in_pipe p \<and> out_pipe (f p) = out_pipe p" for p
    using arg_cong [OF assms(3), of p_state] arg_cong [OF assms(3), of has_sink] arg_cong [OF assms(3), of in_pipe]
      arg_cong [OF assms(3), of out_pipe] by simp
  have so: "sound c" "sent c = []" "\<not> deleted c" using assms(1) by (simp_all add: rely_def)
  have "sound (upd_self f (send Pipe_term c))" using so(1) f assms(2) by (auto simp: sound_def acked_def)
  then obtain c' where c': "write_delimiter (upd_self f (send Pipe_term c)) = Some c'" "quiet (upd_self f (send Pipe_term c)) c'"
    using write_delimiter_ok by blast
  then obtain ys where ys: "sent c' = Pipe_term # ys" "ctl ys = []" "hics ys = []" using so(2) by (auto simp: quiet_def)
  have "Pipe_term_ack \<notin> set ys" using ys(2) by (metis filter_empty_conv is_ctl.simps(2))
  moreover from this have "ack_last (Pipe_term # ys)" by (auto simp: ack_last_def dest: in_set_butlastD)
  ultimately have "guar [] c c'" using c'(2) ys so f assms(2) by (auto simp: guar_def quiet_def sound_def)
  then show ?thesis using c'(1) by blast
qed

lemma terminate_waiting_ok:
  assumes "rely c" "p_state (self c) = Waiting_for_delimiter"
  shows "\<exists>c'. terminate d c = Some c' \<and> guar [] c c'"
proof -
  let ?c = "upd_self (\<lambda>p. p\<lparr>delay := d\<rparr>) c"
  let ?stop = "\<lambda>c. write_delimiter (upd_self (\<lambda>p. p\<lparr>out_active := False\<rparr>) c)"
  have so: "sound c" "sent c = []" "\<not> deleted c" using assms(1) by (simp_all add: rely_def)
  have q: "quiet c ?c" using quiet_upd_self sound_pipes_ok [OF so(1)] by simp
  show ?thesis
  proof (cases d)
    case True
    have q1: "quiet c (upd_self (\<lambda>p. p\<lparr>out_active := False\<rparr>) ?c)"
      using quiet_trans [OF q quiet_upd_self] quiet_pipes_ok [OF q] by simp
    obtain c' where "?stop ?c = Some c'" "quiet (upd_self (\<lambda>p. p\<lparr>out_active := False\<rparr>) ?c) c'"
      using write_delimiter_ok [OF quiet_sound [OF q1 so(1)]] by blast
    then show ?thesis using True assms quiet_guar [OF assms(1) quiet_trans [OF q1]] by (simp add: terminate_def)
  next
    case False
    obtain c1 where 1: "rollback ?c = Some c1" "quiet ?c c1" "sent c1 = sent ?c" using rollback_ok [OF quiet_sound [OF q so(1)]] by blast
    let ?c2 = "upd_self (\<lambda>p. p\<lparr>out_active := False\<rparr>) (upd_self (\<lambda>p. p\<lparr>p_state := Term_ack_sent\<rparr>) (drop_out_and_ack c1))"
    have q1: "quiet c (upd_self (\<lambda>p. p\<lparr>out_active := False\<rparr>) c1)"
      using quiet_trans [OF quiet_trans [OF q 1(2)] quiet_upd_self] quiet_pipes_ok [OF 1(2)] by simp
    have "guar [] c ?c2"
      using ack_guar [OF assms(1) q1, of ?c2 Term_ack_sent "[]"] 1(3) so q1 assms(2) by (simp add: drop_out_and_ack_def quiet_def)
    moreover have "?stop (upd_self (\<lambda>p. p\<lparr>p_state := Term_ack_sent\<rparr>) (drop_out_and_ack c1)) = Some ?c2"
      by (simp add: write_delimiter_def drop_out_and_ack_def)
    ultimately show ?thesis using False assms 1(1) by (simp add: terminate_def)
  qed
qed

lemma terminate_ok:
  assumes "rely c"
  shows "\<exists>c'. terminate d c = Some c' \<and> guar [] c c'"
proof -
  let ?c = "upd_self (\<lambda>p. p\<lparr>delay := d\<rparr>) c"
  have q: "quiet c ?c" using quiet_upd_self assms by (simp add: rely_def sound_def)
  have req: "\<exists>c'. write_delimiter (upd_self (\<lambda>p. p\<lparr>out_active := False\<rparr>) (upd_self (\<lambda>p. p\<lparr>p_state := Term_req_sent1\<rparr>) (send Pipe_term ?c))) = Some c' \<and> guar [] c c'"
    if "p_state (self c) = Active \<or> p_state (self c) = Delimiter_received"
  proof -
    have "upd_self (\<lambda>p. p\<lparr>out_active := False\<rparr>) (upd_self (\<lambda>p. p\<lparr>p_state := Term_req_sent1\<rparr>) (send Pipe_term ?c)) =
        upd_self (\<lambda>p. p\<lparr>delay := d, p_state := Term_req_sent1, out_active := False\<rparr>) (send Pipe_term c)"
      by (simp add: upd_self_def send_def)
    moreover have "\<exists>c'. write_delimiter (upd_self (\<lambda>p. p\<lparr>delay := d, p_state := Term_req_sent1, out_active := False\<rparr>) (send Pipe_term c)) = Some c' \<and> guar [] c c'"
      by (rule terminate_request_ok [OF assms that, where a = False and b = d]) simp
    ultimately show ?thesis by (simp only:)
  qed
  show ?thesis
    using req terminate_waiting_ok [OF assms, of d] quiet_guar [OF assms q]
    by (cases "p_state (self c)") (simp_all add: terminate_def)
qed

lemma hiccup_ok:
  assumes "rely c" "\<forall>i\<in>dom (store c). i < fresh c"
  shows "guar [] c (hiccup c)"
proof (cases "p_state (self c) = Active")
  case True
  have "fresh c \<notin> dom (store c)" using assms(2) by blast
  then show ?thesis
    using True assms(1) pipes_ok_upd [of "store c" "mp_new (conflate (self c))" "fresh c"]
    by (auto simp: hiccup_def guar_def rely_def sound_def ack_last_def Let_def)
next
  case False
  then show ?thesis using quiet_guar [OF assms(1) quiet_refl] assms(1) by (simp add: hiccup_def rely_def sound_def)
qed

lemma quiet_setters:
  assumes "pipes_ok (store c)"
  shows "quiet c (upd_self set_nodelay c)" "quiet c (upd_self (set_hwms i out) c)" "quiet c (upd_self (set_hwms_boost i out) c)"
  using assms by (auto intro!: quiet_upd_self simp: set_nodelay_def set_hwms_def set_hwms_boost_def Let_def)

lemma pipe_call_ok:
  assumes "rely c" "\<forall>i\<in>dom (store c). i < fresh c"
  shows "\<exists>y. pipe_call x c = Some y \<and> guar [] c (snd y)"
proof -
  have ok: "pipes_ok (store c)" "sound c" using assms by (simp_all add: rely_def sound_def)
  have cw: "quiet c (snd (check_write c))"
    using ok(1) by (auto simp: check_write_def quiet_refl quiet_upd_self)
  show ?thesis
  proof (cases x)
    case P_check_read then show ?thesis using pipe_check_read_ok [OF assms(1)] by auto
  next
    case P_read then show ?thesis using pipe_read_ok [OF assms(1)] by auto
  next
    case P_check_write then show ?thesis using quiet_guar [OF assms(1) cw] by simp
  next
    case (P_write m) then show ?thesis using pipe_write_ok [OF assms(1), of m] by auto
  next
    case P_rollback then show ?thesis using rollback_ok [OF ok(2)] quiet_guar [OF assms(1)] by auto
  next
    case P_flush then show ?thesis using flush_ok [OF ok(2)] quiet_guar [OF assms(1)] by auto
  next
    case P_hiccup then show ?thesis using hiccup_ok [OF assms] by simp
  next
    case (P_terminate d) then show ?thesis using terminate_ok [OF assms(1), of d] by auto
  qed (use quiet_setters [OF ok(1)] quiet_refl [OF ok(1)] quiet_guar [OF assms(1)] in simp_all)
qed

section \<open>The command handlers keep the contract\<close>

lemma activate_ok:
  assumes "rely c"
  shows "\<exists>c'. process_activate_read c = Some c' \<and> quiet c c'" "\<exists>c'. process_activate_write n c = Some c' \<and> quiet c c'"
proof -
  have so: "sound c" "pipes_ok (store c)" using assms by (simp_all add: rely_def sound_def)
  have r: "quiet c (upd_self (\<lambda>p. p\<lparr>in_active := True\<rparr>) c)" using so(2) by (simp add: quiet_upd_self)
  then show "\<exists>c'. process_activate_read c = Some c' \<and> quiet c c'"
    using notify_ok [OF quiet_sound [OF r so(1)]] quiet_trans [OF r] quiet_refl [OF so(2)] by (auto simp: process_activate_read_def)
  let ?c = "upd_self (\<lambda>p. p\<lparr>peers_msgs_read := n\<rparr>) c"
  have w: "quiet c ?c" "quiet ?c (upd_self (\<lambda>p. p\<lparr>out_active := True\<rparr>) ?c)" using so(2) by (simp_all add: quiet_upd_self)
  then show "\<exists>c'. process_activate_write n c = Some c' \<and> quiet c c'"
    using notify_ok [OF quiet_sound [OF w(2) quiet_sound [OF w(1) so(1)]]] quiet_trans [OF quiet_trans [OF w]]
    by (auto simp: process_activate_write_def Let_def)
qed

lemma process_hiccup_ok:
  assumes "rely c" "out_pipe (self c) \<noteq> None"
  shows "\<exists>c'. process_hiccup i c = Some c' \<and> guar [Hiccup i] c c'"
proof -
  obtain k where o: "out_pipe (self c) = Some k" using assms(2) by blast
  have so: "sound c" "pipes_ok (store c)" "sent c = []" "\<not> deleted c" "\<not> acked (self c)" "has_sink (self c)"
    using assms by (auto simp: rely_def sound_def)
  obtain p where p: "store c k = Some p" using sound_out [OF so(1) o] by blast
  obtain ms q where d: "mp_drain (snd (mp_flush p)) = (ms, q)" by (cases "mp_drain (snd (mp_flush p))")
  let ?c = "upd_self (\<lambda>p. p\<lparr>msgs_written := msgs_written p - of_nat (length (filter (\<lambda>m. \<not> is_more m) ms)),
              out_pipe := Some i, out_active := True\<rparr>) (c\<lparr>store := (store c)(k := None)\<rparr>)"
  have "guar [Hiccup i] c ?c" "guar [Hiccup i] c (?c\<lparr>events := es\<rparr>)" for es
    using so o pipes_ok_del [OF so(2), of k] by (auto simp: guar_def ack_last_def)
  then show ?thesis using o p d so(6) by (auto simp: process_hiccup_def on_pipe_eq notify_def Let_def)
qed

lemma process_pipe_term_ok:
  assumes "rely c" "p_state (self c) \<in> {Active, Delimiter_received, Term_req_sent1}"
  shows "\<exists>c'. process_pipe_term c = Some c' \<and> guar [Pipe_term] c c'"
proof -
  have so: "pipes_ok (store c)" "sent c = []" "\<not> deleted c" "has_sink (self c)" using assms by (auto simp: rely_def sound_def)
  have ack: "guar [Pipe_term] c (drop_out_and_ack (upd_self (\<lambda>p. p\<lparr>p_state := st\<rparr>) c))"
    if "rcv_ctl st False = rcv_ctl (p_state (self c)) False @ [Pipe_term]" "snd_ctl st False = snd_ctl (p_state (self c)) False @ [Pipe_term_ack]" for st
    using that so assms(2) by (intro ack_guar [OF assms(1) quiet_refl, where st = st]) (auto simp: drop_out_and_ack_def)
  have wait: "guar [Pipe_term] c (upd_self (\<lambda>p. p\<lparr>p_state := Waiting_for_delimiter\<rparr>) c)" if "p_state (self c) = Active"
    using that so by (simp add: guar_def ack_last_def)
  show ?thesis using assms(2) ack [of Term_ack_sent] ack [of Term_req_sent2] wait by (auto simp: process_pipe_term_def)
qed

lemma process_pipe_term_ack_ok:
  assumes "rely c" "p_state (self c) \<in> {Term_ack_sent, Term_req_sent1, Term_req_sent2}"
  shows "\<exists>c'. process_pipe_term_ack c = Some c' \<and> guar [Pipe_term_ack] c c'"
proof -
  let ?i = "in_pipe (self c)" and ?c = "c\<lparr>events := events c @ [Pipe_terminated]\<rparr>"
  have so: "sound c" "pipes_ok (store c)" "sent c = []" "\<not> deleted c" "has_sink (self c)" using assms by (auto simp: rely_def sound_def)
  obtain p where p: "store c ?i = Some p" using sound_in [OF so(1)] by blast
  have n: "notify Pipe_terminated c = Some ?c" using so(5) by (simp add: notify_def)
  have out: "out_pipe (self c) = None \<longleftrightarrow> acked (self c)" using so(1) by (simp add: sound_def)
  let ?fin = "\<lambda>c. c\<lparr>store := (store c)(?i := None), deleted := True\<rparr>"
  have g: "guar [Pipe_term_ack] c (?fin ?c)" if "p_state (self c) \<noteq> Term_req_sent1"
    using that assms(2) so out pipes_ok_del [OF so(2), of ?i] by (auto simp: guar_def ack_last_def)
  have g1: "guar [Pipe_term_ack] c (?fin (drop_out_and_ack ?c))" if "p_state (self c) = Term_req_sent1"
    using that so pipes_ok_del [OF so(2), of ?i] by (auto simp: guar_def ack_last_def drop_out_and_ack_def)
  have fin: "store c' = store c \<Longrightarrow> in_pipe (self c') = ?i \<Longrightarrow>
      Option.bind (if \<not> conflate (self c') then on_pipe ?i mp_drain c' else on_pipe ?i (\<lambda>p. ([], p)) c')
        (\<lambda>(_, c). Some (?fin c)) = Some (?fin c')" for c'
    using p by (simp add: on_pipe_eq)
  show ?thesis
    using assms(2) n g g1 fin [of ?c] fin [of "drop_out_and_ack ?c"]
    by (auto simp: process_pipe_term_ack_def drop_out_and_ack_def Let_def)
qed

lemma process_command_ok:
  assumes "rely c"
    and "\<And>i. x = Hiccup i \<Longrightarrow> out_pipe (self c) \<noteq> None"
    and "x = Pipe_term \<Longrightarrow> p_state (self c) \<in> {Active, Delimiter_received, Term_req_sent1}"
    and "x = Pipe_term_ack \<Longrightarrow> p_state (self c) \<in> {Term_ack_sent, Term_req_sent1, Term_req_sent2}"
  shows "\<exists>c'. process_command x c = Some c' \<and> guar [x] c c'"
proof (cases x)
  case Activate_read
  then show ?thesis using activate_ok(1) [OF assms(1)] quiet_guar [OF assms(1)] guar_cmd [of x] by auto
next
  case (Activate_write n)
  then show ?thesis using activate_ok(2) [OF assms(1), of n] quiet_guar [OF assms(1)] guar_cmd [of x] by auto
next
  case (Hiccup i)
  then show ?thesis using process_hiccup_ok [OF assms(1) assms(2)] by simp
next
  case Pipe_term
  then show ?thesis using process_pipe_term_ok [OF assms(1) assms(3)] by simp
next
  case Pipe_term_ack
  then show ?thesis using process_pipe_term_ack_ok [OF assms(1) assms(4)] by simp
next
  case (Pipe_hwm a b)
  have "pipes_ok (store c)" using assms(1) by (simp add: rely_def sound_def)
  then show ?thesis
    using Pipe_hwm quiet_guar [OF assms(1) quiet_setters(2)] guar_cmd [of x] by (simp add: process_pipe_hwm_def)
qed

end
