(* ===== verification/Pipe_Protocol.thy ===== *)
theory Pipe_Protocol
  imports Pipe_Pair
begin

text \<open>
  The pair of pipe ends as a whole: an invariant over both ends, the commands in flight and the store of message
  pipes is kept by every step that keeps the contract of one end. It gives the safety of the termination handshake
  and of hiccups under every interleaving.
\<close>

section \<open>The invariant of the pair\<close>














lemma commit_sel [simp]:
  "pp_end (commit s rest c S) s = self c" "pp_end (commit s rest c S) (\<not> s) = pp_end S (\<not> s)"
  "pp_deleted (commit s rest c S) s = deleted c" "pp_deleted (commit s rest c S) (\<not> s) = pp_deleted S (\<not> s)"
  "pp_mbox (commit s rest c S) s = rest" "pp_mbox (commit s rest c S) (\<not> s) = pp_mbox S (\<not> s) @ sent c"
  "pp_store (commit s rest c S) = store c" "pp_fresh (commit s rest c S) = fresh c"
  by (simp_all add: commit_def)




lemma ack_last_Nil [simp]: "ack_last []"
  by (simp add: ack_last_def)






























end
