(* ===== verification/Pipe_Flow.thy ===== *)
theory Pipe_Flow
  imports Pipe_Protocol
begin

text \<open>
  Flow control between the two ends of a pipe. While neither end terminates or replaces a message pipe, each
  direction of a pair is a small system of its own: the counters and flags of the writer and of the reader, the
  message pipe between them and the wake-ups and credits in flight. The steps of a pair are shown to be steps of
  its two directions, and an invariant of a direction gives the bound by the high water mark, and that neither the
  writer nor the reader is left waiting.
\<close>

record flow =
  f_written :: u64
  f_peers :: u64
  f_out_active :: bool
  f_hwm :: int
  f_read :: u64
  f_lwm :: int
  f_in_active :: bool
  f_pipe :: "msg upipe"
  f_acts :: "u64 list"
  f_wakes :: nat

abbreviation counted :: "msg \<Rightarrow> bool" where
  "counted m \<equiv> \<not> is_more m \<and> \<not> is_routing_id m"











section \<open>The invariant of a direction\<close>

definition cnt :: "msg list \<Rightarrow> nat" where
  "cnt ms = length (filter counted ms)"








lemma cnt_simps [simp]: "cnt [] = 0" "cnt (xs @ ys) = cnt xs + cnt ys" "cnt [m] = (if counted m then 1 else 0)"
  "cnt (m # ms) = (if counted m then 1 else 0) + cnt ms"
  by (auto simp: cnt_def)

























section \<open>The directions of a pair\<close>

fun acts :: "pipe_cmd list \<Rightarrow> u64 list" where
  "acts [] = []"
| "acts (Activate_write n # xs) = n # acts xs"
| "acts (_ # xs) = acts xs"

fun wakes :: "pipe_cmd list \<Rightarrow> nat" where
  "wakes [] = 0"
| "wakes (Activate_read # xs) = Suc (wakes xs)"
| "wakes (_ # xs) = wakes xs"

lemma acts_append [simp]: "acts (xs @ ys) = acts xs @ acts ys"
  by (induction xs rule: acts.induct) simp_all

lemma wakes_append [simp]: "wakes (xs @ ys) = wakes xs + wakes ys"
  by (induction xs rule: wakes.induct) simp_all


definition chan :: "bool \<Rightarrow> nat" where
  "chan s = (if s then 0 else 1)"

definition queue_of :: "(nat \<rightharpoonup> mpipe) \<Rightarrow> bool \<Rightarrow> msg upipe" where
  "queue_of h w = (case h (chan w) of Some (Normal u) \<Rightarrow> u | _ \<Rightarrow> up_new)"

definition view :: "pipe_pair \<Rightarrow> bool \<Rightarrow> flow" where
  "view S w =
     \<lparr>f_written = msgs_written (pp_end S w), f_peers = peers_msgs_read (pp_end S w), f_out_active = out_active (pp_end S w),
      f_hwm = hwm (pp_end S w), f_read = msgs_read (pp_end S (\<not> w)), f_lwm = lwm (pp_end S (\<not> w)),
      f_in_active = in_active (pp_end S (\<not> w)), f_pipe = queue_of (pp_store S) w, f_acts = acts (pp_mbox S w),
      f_wakes = wakes (pp_mbox S (\<not> w))\<rparr>"





lemma chan_neq [simp]: "chan s \<noteq> chan (\<not> s)" "chan (\<not> s) \<noteq> chan s"
  by (simp_all add: chan_def)

lemma queue_of_upd [simp]:
  "queue_of (h(chan w \<mapsto> Normal u)) w = u" "queue_of (h(chan (\<not> w) \<mapsto> Normal u)) w = queue_of h w"
  "queue_of (h(chan w \<mapsto> Normal u)) (\<not> w) = queue_of h (\<not> w)"
  by (simp_all add: queue_of_def)




lemma view_own_id:
  "(view S s)\<lparr>f_written := msgs_written (pp_end S s), f_peers := peers_msgs_read (pp_end S s), f_out_active := out_active (pp_end S s),
              f_hwm := hwm (pp_end S s), f_pipe := queue_of (pp_store S) s, f_acts := acts (pp_mbox S s),
              f_wakes := f_wakes (view S s)\<rparr> = view S s"
  by (simp add: view_def)




























section \<open>Bounds and progress\<close>









section \<open>Changing the water marks of one end\<close>














end
