(* ===== verification/Pipe_Array.thy ===== *)
theory Pipe_Array
  imports Prelude "HOL-Library.Monad_Syntax"
begin

text \<open>
  The array of pipes with constant-time removal (\<^verbatim>\<open>src/src/core/array.hpp\<close>): a vector of items, each of which stores
  its own position. The stored positions are a map, of which a removed item keeps its stale entry as the objects do.
  Positions outside the vector are undefined behaviour in the code and \<^const>\<open>None\<close> here.
\<close>

record 'p parray =
  pa_items :: "'p list"
  pa_index :: "'p \<Rightarrow> nat option"

definition pa_new :: "'p parray" where
  "pa_new = \<lparr>pa_items = [], pa_index = (\<lambda>_. None)\<rparr>"

abbreviation pa_size :: "'p parray \<Rightarrow> nat" where
  "pa_size a \<equiv> length (pa_items a)"

definition pa_at :: "nat \<Rightarrow> 'p parray \<Rightarrow> 'p option" where
  "pa_at i a = (if i < pa_size a then Some (pa_items a ! i) else None)"

definition pa_push_back :: "'p \<Rightarrow> 'p parray \<Rightarrow> 'p parray" where
  "pa_push_back x a = a\<lparr>pa_items := pa_items a @ [x], pa_index := (pa_index a)(x := Some (pa_size a))\<rparr>"

definition pa_erase_at :: "nat \<Rightarrow> 'p parray \<Rightarrow> 'p parray option" where
  "pa_erase_at i a =
     (if i < pa_size a
      then let b = last (pa_items a) in
           Some (a\<lparr>pa_items := butlast ((pa_items a)[i := b]), pa_index := (pa_index a)(b := Some i)\<rparr>)
      else None)"

definition pa_swap :: "nat \<Rightarrow> nat \<Rightarrow> 'p parray \<Rightarrow> 'p parray option" where
  "pa_swap i j a =
     (if i < pa_size a \<and> j < pa_size a
      then Some (a\<lparr>pa_items := swap_at i j (pa_items a),
                   pa_index := (pa_index a)(pa_items a ! i := Some j, pa_items a ! j := Some i)\<rparr>)
      else None)"

text \<open>The stored position as \<^verbatim>\<open>size_t\<close>: -1 becomes the largest value.\<close>

definition pa_pos :: "'p \<Rightarrow> 'p parray \<Rightarrow> nat" where
  "pa_pos x a = (case pa_index a x of None \<Rightarrow> 2 ^ 64 - 1 | Some i \<Rightarrow> i)"

definition pa_erase :: "'p \<Rightarrow> 'p parray \<Rightarrow> 'p parray option" where
  "pa_erase x a = pa_erase_at (pa_pos x a) a"

section \<open>The invariant\<close>

definition pa_ok :: "'p parray \<Rightarrow> bool" where
  "pa_ok a \<longleftrightarrow> distinct (pa_items a) \<and> (\<forall>i<pa_size a. pa_index a (pa_items a ! i) = Some i)"

text \<open>The items at positions below \<open>n\<close>.\<close>

definition region :: "nat \<Rightarrow> 'p parray \<Rightarrow> 'p set" where
  "region n a = {x \<in> set (pa_items a). pa_pos x a < n}"

lemma pa_ok_new: "pa_ok pa_new"
  by (simp add: pa_ok_def pa_new_def)

lemma pa_pos_nth: "pa_ok a \<Longrightarrow> i < pa_size a \<Longrightarrow> pa_pos (pa_items a ! i) a = i"
  by (simp add: pa_ok_def pa_pos_def)

lemma pa_pos_less: "pa_ok a \<Longrightarrow> x \<in> set (pa_items a) \<Longrightarrow> pa_pos x a < pa_size a \<and> pa_items a ! pa_pos x a = x"
  by (metis in_set_conv_nth pa_pos_nth)

lemma pa_pos_inj: "pa_ok a \<Longrightarrow> x \<in> set (pa_items a) \<Longrightarrow> y \<in> set (pa_items a) \<Longrightarrow> pa_pos x a = pa_pos y a \<longleftrightarrow> x = y"
  by (metis pa_pos_less)

lemma region_take:
  assumes "pa_ok a"
  shows "region n a = set (take n (pa_items a))"
proof (intro set_eqI iffI)
  fix x assume "x \<in> region n a"
  then have x: "x \<in> set (pa_items a)" "pa_pos x a < n" by (simp_all add: region_def)
  then have "take n (pa_items a) ! pa_pos x a = x" "pa_pos x a < length (take n (pa_items a))"
    using pa_pos_less [OF assms x(1)] by simp_all
  then show "x \<in> set (take n (pa_items a))" by (metis nth_mem)
next
  fix x assume "x \<in> set (take n (pa_items a))"
  then obtain i where i: "i < n" "i < pa_size a" "x = pa_items a ! i" by (auto simp: in_set_conv_nth)
  then show "x \<in> region n a" using pa_pos_nth [OF assms i(2)] by (simp add: region_def)
qed

lemma region_0 [simp]: "region 0 a = {}"
  by (simp add: region_def)

lemma region_subset: "region n a \<subseteq> set (pa_items a)"
  by (auto simp: region_def)

lemma region_mono: "m \<le> n \<Longrightarrow> region m a \<subseteq> region n a"
  by (auto simp: region_def)

lemma region_all: "pa_ok a \<Longrightarrow> region (pa_size a) a = set (pa_items a)"
  by (auto simp: region_def pa_pos_less)

lemma region_Suc: "pa_ok a \<Longrightarrow> n < pa_size a \<Longrightarrow> region (Suc n) a = insert (pa_items a ! n) (region n a)"
  by (simp add: region_take take_Suc_conv_app_nth)

section \<open>The operations\<close>

lemma pa_push_back_law:
  assumes "pa_ok a" "x \<notin> set (pa_items a)"
  shows "pa_ok (pa_push_back x a)" "set (pa_items (pa_push_back x a)) = insert x (set (pa_items a))"
    "pa_size (pa_push_back x a) = Suc (pa_size a)" "pa_pos x (pa_push_back x a) = pa_size a"
    "y \<noteq> x \<Longrightarrow> pa_pos y (pa_push_back x a) = pa_pos y a"
proof -
  show "pa_ok (pa_push_back x a)"
    using assms by (auto simp: pa_ok_def pa_push_back_def nth_append less_Suc_eq)
qed (simp_all add: pa_push_back_def pa_pos_def)

lemma pa_swap_law:
  assumes "pa_ok a" "i < pa_size a" "j < pa_size a"
  shows "\<exists>a'. pa_swap i j a = Some a' \<and> pa_ok a' \<and> set (pa_items a') = set (pa_items a) \<and> pa_size a' = pa_size a \<and>
    (\<forall>x\<in>set (pa_items a). pa_pos x a' = (if pa_pos x a = i then j else if pa_pos x a = j then i else pa_pos x a)) \<and>
    (\<forall>x. x \<notin> set (pa_items a) \<longrightarrow> pa_pos x a' = pa_pos x a)"
proof -
  let ?a = "a\<lparr>pa_items := swap_at i j (pa_items a), pa_index := (pa_index a)(pa_items a ! i := Some j, pa_items a ! j := Some i)\<rparr>"
  have d: "distinct (pa_items a)" and ix: "\<And>k. k < pa_size a \<Longrightarrow> pa_index a (pa_items a ! k) = Some k"
    using assms(1) by (simp_all add: pa_ok_def)
  have "pa_index ?a (swap_at i j (pa_items a) ! k) = Some k" if "k < pa_size a" for k
    using that assms(2,3) d ix by (auto simp: nth_swap_at nth_eq_iff_index_eq)
  then have "pa_ok ?a" using assms(2,3) d by (simp add: pa_ok_def)
  moreover have "pa_pos x ?a = (if pa_pos x a = i then j else if pa_pos x a = j then i else pa_pos x a)" if "x \<in> set (pa_items a)" for x
    using that pa_pos_less [OF assms(1) that] assms(2,3) d ix by (auto simp: pa_pos_def nth_eq_iff_index_eq)
  moreover have "pa_pos x ?a = pa_pos x a" if "x \<notin> set (pa_items a)" for x
    using that assms(2,3) by (auto simp: pa_pos_def)
  ultimately show ?thesis using assms(2,3) by (intro exI [of _ ?a]) (simp add: pa_swap_def)
qed

lemma pa_erase_law:
  assumes "pa_ok a" "x \<in> set (pa_items a)"
  shows "\<exists>a'. pa_erase x a = Some a' \<and> pa_ok a' \<and> set (pa_items a') = set (pa_items a) - {x} \<and> Suc (pa_size a') = pa_size a \<and>
    (\<forall>y\<in>set (pa_items a'). pa_pos y a' = (if Suc (pa_pos y a) = pa_size a then pa_pos x a else pa_pos y a))"
proof -
  let ?n = "pa_size a" and ?i = "pa_pos x a" and ?b = "last (pa_items a)"
  let ?xs = "butlast ((pa_items a)[?i := ?b])"
  let ?a = "a\<lparr>pa_items := ?xs, pa_index := (pa_index a)(?b := Some ?i)\<rparr>"
  have d: "distinct (pa_items a)" and ix: "\<And>k. k < ?n \<Longrightarrow> pa_index a (pa_items a ! k) = Some k"
    using assms(1) by (simp_all add: pa_ok_def)
  have i: "?i < ?n" "pa_items a ! ?i = x" using pa_pos_less [OF assms] by auto
  have b: "?b = pa_items a ! (?n - 1)" using i(1) by (intro last_conv_nth) auto
  have nth: "?xs ! k = (if k = ?i then ?b else pa_items a ! k)" if "k < ?n - 1" for k
    using that i(1) by (simp add: nth_butlast)
  have len: "length ?xs = ?n - 1" by simp
  have inj: "k < ?n \<Longrightarrow> l < ?n \<Longrightarrow> pa_items a ! k = pa_items a ! l \<longleftrightarrow> k = l" for k l using d by (simp add: nth_eq_iff_index_eq)
  have dist: "distinct ?xs"
    unfolding distinct_conv_nth len using nth inj b by (auto split: if_splits)
  have "pa_index ?a (?xs ! k) = Some k" if "k < ?n - 1" for k
    using that nth ix inj [of k "?n - 1"] b by (auto simp: nth)
  then have ok: "pa_ok ?a" using dist len by (simp add: pa_ok_def)
  have sub: "y \<in> set ?xs \<longleftrightarrow> y \<in> set (pa_items a) \<and> y \<noteq> x" for y
  proof
    assume "y \<in> set ?xs"
    then obtain k where "k < ?n - 1" "y = ?xs ! k" using len by (metis in_set_conv_nth)
    then show "y \<in> set (pa_items a) \<and> y \<noteq> x" using nth [of k] inj [of k ?i] inj [of "?n - 1" ?i] i b by (auto split: if_splits)
  next
    assume y: "y \<in> set (pa_items a) \<and> y \<noteq> x"
    then obtain k where k: "k < ?n" "y = pa_items a ! k" by (metis in_set_conv_nth)
    show "y \<in> set ?xs"
    proof (cases "k = ?n - 1")
      case True
      then have "?i < ?n - 1" using y k i by (metis Suc_diff_1 le_less less_Suc_eq_le less_nat_zero_code not_gr_zero)
      then show ?thesis using nth [of ?i] len k True b by (metis nth_mem)
    next
      case False
      then have "k < ?n - 1" "k \<noteq> ?i" using k y i by auto
      then show ?thesis using nth [of k] len k(2) by (metis nth_mem)
    qed
  qed
  have pos: "pa_pos y ?a = (if Suc (pa_pos y a) = ?n then ?i else pa_pos y a)" if "y \<in> set ?xs" for y
  proof -
    have y: "y \<in> set (pa_items a)" using that sub by blast
    have "pa_pos ?b a = ?n - 1" using pa_pos_nth [OF assms(1), of "?n - 1"] b i(1) by simp
    moreover have "?b \<in> set (pa_items a)" using i(1) by (intro last_in_set) auto
    ultimately have "y = ?b \<longleftrightarrow> Suc (pa_pos y a) = ?n" using pa_pos_inj [OF assms(1) y, of ?b] i(1) by auto
    moreover have "pa_pos y ?a = (if y = ?b then ?i else pa_pos y a)" by (simp add: pa_pos_def [of y])
    ultimately show ?thesis by simp
  qed
  show ?thesis
    using ok sub pos i(1) len by (intro exI [of _ ?a]) (auto simp: pa_erase_def pa_erase_at_def Let_def)
qed

end
