(* ===== verification/Dist.thy ===== *)
theory Dist
  imports Pipe_Array Msg
begin

text \<open>
  The distributor of a message to a set of pipes (\<^verbatim>\<open>src/src/pipe/dist.cpp\<close>). The pipes stand in one array whose
  prefixes are the matching, the active and the eligible pipes. The operations of a pipe are arguments: \<open>wr\<close> is
  \<^verbatim>\<open>pipe_t::write\<close> and \<open>fl\<close> is \<^verbatim>\<open>pipe_t::flush\<close> on the state of one pipe, and a world maps every pipe to its
  state. Positions outside the array are \<^const>\<open>None\<close>.
\<close>

record 'p dist =
  d_pipes :: "'p parray"
  d_matching :: nat
  d_active :: nat
  d_eligible :: nat
  d_more :: bool

definition dist_new :: "'p dist" where
  "dist_new = \<lparr>d_pipes = pa_new, d_matching = 0, d_active = 0, d_eligible = 0, d_more = False\<rparr>"

definition dist_attach :: "'p \<Rightarrow> 'p dist \<Rightarrow> 'p dist option" where
  "dist_attach p d =
     (let a = pa_push_back p (d_pipes d) in
      if d_more d
      then do { a \<leftarrow> pa_swap (d_eligible d) (pa_size a - 1) a; Some (d\<lparr>d_pipes := a, d_eligible := d_eligible d + 1\<rparr>) }
      else do { a \<leftarrow> pa_swap (d_active d) (pa_size a - 1) a;
                Some (d\<lparr>d_pipes := a, d_active := d_active d + 1, d_eligible := d_eligible d + 1\<rparr>) })"

definition dist_has_pipe :: "'p \<Rightarrow> 'p dist \<Rightarrow> bool" where
  "dist_has_pipe p d =
     (let claimed_index = pa_pos p (d_pipes d) in
      if claimed_index \<ge> pa_size (d_pipes d) then False else pa_items (d_pipes d) ! claimed_index = p)"

definition dist_match :: "'p \<Rightarrow> 'p dist \<Rightarrow> 'p dist option" where
  "dist_match p d =
     (if pa_pos p (d_pipes d) < d_matching d then Some d
      else if pa_pos p (d_pipes d) \<ge> d_eligible d then Some d
      else do { a \<leftarrow> pa_swap (pa_pos p (d_pipes d)) (d_matching d) (d_pipes d);
                Some (d\<lparr>d_pipes := a, d_matching := d_matching d + 1\<rparr>) })"

definition dist_unmatch :: "'p dist \<Rightarrow> 'p dist" where
  "dist_unmatch d = d\<lparr>d_matching := 0\<rparr>"

function dist_push_front :: "nat \<Rightarrow> 'p dist \<Rightarrow> 'p dist option" where
  "dist_push_front i d =
     (if i < d_eligible d
      then do { a \<leftarrow> pa_swap i (d_matching d) (d_pipes d);
                dist_push_front (Suc i) (d\<lparr>d_pipes := a, d_matching := d_matching d + 1\<rparr>) }
      else Some d)"
  by pat_completeness auto

termination dist_push_front
  by (relation "measure (\<lambda>(i, d). d_eligible d - i)") auto

declare dist_push_front.simps [simp del]

definition dist_reverse_match :: "'p dist \<Rightarrow> 'p dist option" where
  "dist_reverse_match d = (let prev_matching = d_matching d in dist_push_front prev_matching (dist_unmatch d))"

text \<open>Taking a pipe out of one of the prefixes: swap it with the last of the prefix and shorten the prefix.\<close>

definition dist_leave_matching :: "'p \<Rightarrow> 'p dist \<Rightarrow> 'p dist option" where
  "dist_leave_matching p d = do {
     a \<leftarrow> pa_swap (pa_pos p (d_pipes d)) (d_matching d - 1) (d_pipes d);
     Some (d\<lparr>d_pipes := a, d_matching := d_matching d - 1\<rparr>) }"

definition dist_leave_active :: "'p \<Rightarrow> 'p dist \<Rightarrow> 'p dist option" where
  "dist_leave_active p d = do {
     a \<leftarrow> pa_swap (pa_pos p (d_pipes d)) (d_active d - 1) (d_pipes d);
     Some (d\<lparr>d_pipes := a, d_active := d_active d - 1\<rparr>) }"

definition dist_leave_eligible :: "'p \<Rightarrow> 'p dist \<Rightarrow> 'p dist option" where
  "dist_leave_eligible p d = do {
     a \<leftarrow> pa_swap (pa_pos p (d_pipes d)) (d_eligible d - 1) (d_pipes d);
     Some (d\<lparr>d_pipes := a, d_eligible := d_eligible d - 1\<rparr>) }"

definition dist_pipe_terminated :: "'p \<Rightarrow> 'p dist \<Rightarrow> 'p dist option" where
  "dist_pipe_terminated p d = do {
     d \<leftarrow> (if pa_pos p (d_pipes d) < d_matching d then dist_leave_matching p d else Some d);
     d \<leftarrow> (if pa_pos p (d_pipes d) < d_active d then dist_leave_active p d else Some d);
     d \<leftarrow> (if pa_pos p (d_pipes d) < d_eligible d then dist_leave_eligible p d else Some d);
     a \<leftarrow> pa_erase p (d_pipes d);
     Some (d\<lparr>d_pipes := a\<rparr>) }"

definition dist_activated :: "'p \<Rightarrow> 'p dist \<Rightarrow> 'p dist option" where
  "dist_activated p d = do {
     d \<leftarrow> (if d_eligible d < pa_size (d_pipes d)
          then do { a \<leftarrow> pa_swap (pa_pos p (d_pipes d)) (d_eligible d) (d_pipes d);
                    Some (d\<lparr>d_pipes := a, d_eligible := d_eligible d + 1\<rparr>) }
          else Some d);
     if \<not> d_more d \<and> d_active d < pa_size (d_pipes d)
     then do { a \<leftarrow> pa_swap (d_eligible d - 1) (d_active d) (d_pipes d);
               Some (d\<lparr>d_pipes := a, d_active := d_active d + 1\<rparr>) }
     else Some d }"

section \<open>Sending\<close>

definition dist_write ::
  "(msg \<Rightarrow> 's \<Rightarrow> (bool \<times> 's) option) \<Rightarrow> ('s \<Rightarrow> 's option) \<Rightarrow> 'p \<Rightarrow> msg \<Rightarrow> 'p dist \<times> ('p \<Rightarrow> 's) \<Rightarrow> (bool \<times> 'p dist \<times> ('p \<Rightarrow> 's)) option" where
  "dist_write wr fl p m dw = (let (d, w) = dw in do {
     (ok, s) \<leftarrow> wr m (w p);
     if \<not> ok then do {
       d \<leftarrow> dist_leave_matching p d;
       d \<leftarrow> dist_leave_active p d;
       a \<leftarrow> pa_swap (d_active d) (d_eligible d - 1) (d_pipes d);
       Some (False, d\<lparr>d_pipes := a, d_eligible := d_eligible d - 1\<rparr>, w(p := s)) }
     else do {
       s \<leftarrow> (if \<not> is_more m then fl s else Some s);
       Some (True, d, w(p := s)) } })"

text \<open>The loop over the matching pipes, with the number of failures.\<close>

partial_function (option) dist_loop ::
  "(msg \<Rightarrow> 's \<Rightarrow> (bool \<times> 's) option) \<Rightarrow> ('s \<Rightarrow> 's option) \<Rightarrow> msg \<Rightarrow> nat \<Rightarrow> nat \<Rightarrow> 'p dist \<times> ('p \<Rightarrow> 's) \<Rightarrow> (nat \<times> 'p dist \<times> ('p \<Rightarrow> 's)) option" where
  "dist_loop wr fl m i failed dw =
     (if i < d_matching (fst dw)
      then do {
        p \<leftarrow> pa_at i (d_pipes (fst dw));
        (ok, dw) \<leftarrow> dist_write wr fl p m dw;
        if ok then dist_loop wr fl m (Suc i) failed dw else dist_loop wr fl m i (Suc failed) dw }
      else Some (failed, dw))"

text \<open>\<^verbatim>\<open>distribute\<close>, with what it does to the references of a message that has a shared body: it adds one less than
  there are matching pipes, and takes back one for each failure.\<close>

definition distribute ::
  "(msg \<Rightarrow> 's \<Rightarrow> (bool \<times> 's) option) \<Rightarrow> ('s \<Rightarrow> 's option) \<Rightarrow> msg \<Rightarrow> 'p dist \<times> ('p \<Rightarrow> 's) \<Rightarrow> ((int \<times> int) \<times> 'p dist \<times> ('p \<Rightarrow> 's)) option" where
  "distribute wr fl m dw =
     (if d_matching (fst dw) = 0 then Some ((0, 1), dw)
      else do {
        (failed, dw') \<leftarrow> dist_loop wr fl m 0 0 dw;
        Some ((int (d_matching (fst dw)) - 1, int failed), dw') })"

definition send_to_matching ::
  "(msg \<Rightarrow> 's \<Rightarrow> (bool \<times> 's) option) \<Rightarrow> ('s \<Rightarrow> 's option) \<Rightarrow> msg \<Rightarrow> 'p dist \<times> ('p \<Rightarrow> 's) \<Rightarrow> ((int \<times> int) \<times> 'p dist \<times> ('p \<Rightarrow> 's)) option" where
  "send_to_matching wr fl m dw = do {
     (refs, d, w) \<leftarrow> distribute wr fl m dw;
     let d = (if \<not> is_more m then d\<lparr>d_active := d_eligible d\<rparr> else d);
     Some (refs, d\<lparr>d_more := is_more m\<rparr>, w) }"

definition send_to_all ::
  "(msg \<Rightarrow> 's \<Rightarrow> (bool \<times> 's) option) \<Rightarrow> ('s \<Rightarrow> 's option) \<Rightarrow> msg \<Rightarrow> 'p dist \<times> ('p \<Rightarrow> 's) \<Rightarrow> ((int \<times> int) \<times> 'p dist \<times> ('p \<Rightarrow> 's)) option" where
  "send_to_all wr fl m dw = send_to_matching wr fl m ((fst dw)\<lparr>d_matching := d_active (fst dw)\<rparr>, snd dw)"

definition dist_check_hwm :: "('s \<Rightarrow> bool) \<Rightarrow> 'p dist \<times> ('p \<Rightarrow> 's) \<Rightarrow> bool" where
  "dist_check_hwm hwm dw = list_all (\<lambda>p. hwm (snd dw p)) (take (d_matching (fst dw)) (pa_items (d_pipes (fst dw))))"

definition dist_get_pipe :: "nat \<Rightarrow> 'p dist \<Rightarrow> 'p option" where
  "dist_get_pipe i d = (if i \<ge> pa_size (d_pipes d) then None else Some (pa_items (d_pipes d) ! i))"

section \<open>The three prefixes\<close>

abbreviation all_pipes :: "'p dist \<Rightarrow> 'p set" where "all_pipes d \<equiv> set (pa_items (d_pipes d))"
definition matching_pipes :: "'p dist \<Rightarrow> 'p set" where "matching_pipes d = region (d_matching d) (d_pipes d)"
definition active_pipes :: "'p dist \<Rightarrow> 'p set" where "active_pipes d = region (d_active d) (d_pipes d)"
definition eligible_pipes :: "'p dist \<Rightarrow> 'p set" where "eligible_pipes d = region (d_eligible d) (d_pipes d)"

lemmas prefix_defs = matching_pipes_def active_pipes_def eligible_pipes_def

definition dist_ok :: "'p dist \<Rightarrow> bool" where
  "dist_ok d \<longleftrightarrow> pa_ok (d_pipes d) \<and> d_matching d \<le> d_active d \<and> d_active d \<le> d_eligible d \<and>
     d_eligible d \<le> pa_size (d_pipes d) \<and> (\<not> d_more d \<longrightarrow> d_active d = d_eligible d)"

lemma dist_ok_new: "dist_ok dist_new"
  by (simp add: dist_ok_def dist_new_def pa_ok_new)

lemma region_swap_within:
  assumes "pa_ok a" "pa_swap i j a = Some a'" "i < n \<longleftrightarrow> j < n"
  shows "region n a' = region n a"
proof -
  have ij: "i < pa_size a" "j < pa_size a" using assms(2) by (auto simp: pa_swap_def split: if_splits)
  show ?thesis using pa_swap_law [OF assms(1) ij] assms(2,3) by (auto simp: region_def split: if_splits)
qed

text \<open>A pipe that swaps places with the last of a prefix, which then gets shorter, leaves that prefix only.\<close>

lemma region_swap_out:
  assumes "pa_ok a" "p \<in> region (Suc n) a" "pa_swap (pa_pos p a) n a = Some a'"
  shows "region n a' = region (Suc n) a - {p}" "pa_pos p a' = n"
proof -
  have p: "p \<in> set (pa_items a)" "pa_pos p a \<le> n" using assms(2) by (auto simp: region_def)
  have ij: "pa_pos p a < pa_size a" "n < pa_size a" using assms(3) by (auto simp: pa_swap_def split: if_splits)
  obtain b where b: "pa_swap (pa_pos p a) n a = Some b" "set (pa_items b) = set (pa_items a)"
    "\<forall>x\<in>set (pa_items a). pa_pos x b = (if pa_pos x a = pa_pos p a then n else if pa_pos x a = n then pa_pos p a else pa_pos x a)"
    using pa_swap_law [OF assms(1) ij] by blast
  then have "b = a'" using assms(3) by simp
  show "pa_pos p a' = n" using b p \<open>b = a'\<close> by simp
  have "x \<in> region n a' \<longleftrightarrow> x \<in> region (Suc n) a - {p}" for x
  proof (cases "x \<in> set (pa_items a)")
    case True
    then show ?thesis using b p \<open>b = a'\<close> pa_pos_inj [OF assms(1) True p(1)] by (auto simp: region_def)
  next
    case False
    then show ?thesis using b(2) \<open>b = a'\<close> by (auto simp: region_def)
  qed
  then show "region n a' = region (Suc n) a - {p}" by blast
qed

lemma region_swap_in:
  assumes "pa_ok a" "p \<in> set (pa_items a)" "n \<le> pa_pos p a" "pa_swap (pa_pos p a) n a = Some a'"
  shows "region (Suc n) a' = insert p (region n a)" "pa_pos p a' = n"
proof -
  have ij: "pa_pos p a < pa_size a" "n < pa_size a" using assms(4) by (auto simp: pa_swap_def split: if_splits)
  obtain b where b: "pa_swap (pa_pos p a) n a = Some b" "set (pa_items b) = set (pa_items a)"
    "\<forall>x\<in>set (pa_items a). pa_pos x b = (if pa_pos x a = pa_pos p a then n else if pa_pos x a = n then pa_pos p a else pa_pos x a)"
    using pa_swap_law [OF assms(1) ij] by blast
  then have "b = a'" using assms(4) by simp
  show "pa_pos p a' = n" using b assms(2) \<open>b = a'\<close> by simp
  have "x \<in> region (Suc n) a' \<longleftrightarrow> x = p \<or> x \<in> region n a" for x
  proof (cases "x \<in> set (pa_items a)")
    case True
    then show ?thesis using b assms(3) \<open>b = a'\<close> pa_pos_inj [OF assms(1) True assms(2)] by (auto simp: region_def)
  next
    case False
    then show ?thesis using b(2) assms(2) \<open>b = a'\<close> by (auto simp: region_def)
  qed
  then show "region (Suc n) a' = insert p (region n a)" by blast
qed

lemma pa_swap_ok:
  assumes "pa_ok a" "pa_swap i j a = Some a'"
  shows "pa_ok a'" "set (pa_items a') = set (pa_items a)" "pa_size a' = pa_size a"
proof -
  have ij: "i < pa_size a" "j < pa_size a" using assms(2) by (auto simp: pa_swap_def split: if_splits)
  then show "pa_ok a'" "set (pa_items a') = set (pa_items a)" "pa_size a' = pa_size a"
    using pa_swap_law [OF assms(1) ij] assms(2) by auto
qed

lemma pa_swap_some: "pa_ok a \<Longrightarrow> i < pa_size a \<Longrightarrow> j < pa_size a \<Longrightarrow> \<exists>a'. pa_swap i j a = Some a'"
  using pa_swap_law by blast

lemma dist_okD:
  assumes "dist_ok d"
  shows "pa_ok (d_pipes d)" "d_matching d \<le> d_active d" "d_active d \<le> d_eligible d" "d_eligible d \<le> pa_size (d_pipes d)"
    "\<not> d_more d \<Longrightarrow> d_active d = d_eligible d"
  using assms by (simp_all add: dist_ok_def)

lemma prefix_chain: "dist_ok d \<Longrightarrow> matching_pipes d \<subseteq> active_pipes d \<and> active_pipes d \<subseteq> eligible_pipes d \<and> eligible_pipes d \<subseteq> all_pipes d"
  unfolding prefix_defs by (simp add: dist_ok_def region_mono region_subset)

lemma dist_match_law:
  assumes "dist_ok d" "\<not> d_more d" "p \<in> all_pipes d"
  shows "\<exists>d'. dist_match p d = Some d' \<and> dist_ok d' \<and> all_pipes d' = all_pipes d \<and> d_more d' = d_more d \<and>
    active_pipes d' = active_pipes d \<and> eligible_pipes d' = eligible_pipes d \<and>
    matching_pipes d' = (if p \<in> eligible_pipes d then insert p (matching_pipes d) else matching_pipes d)"
proof -
  note k = dist_okD [OF assms(1)] and ae = dist_okD(5) [OF assms(1,2)]
  let ?a = "d_pipes d" and ?i = "pa_pos p (d_pipes d)"
  show ?thesis
  proof (cases "?i < d_matching d \<or> ?i \<ge> d_eligible d")
    case True
    then show ?thesis using assms k by (auto simp: dist_match_def prefix_defs region_def)
  next
    case False
    obtain a' where a': "pa_swap ?i (d_matching d) ?a = Some a'"
      using pa_swap_some [OF k(1), of ?i "d_matching d"] False k by auto
    note ok = pa_swap_ok [OF k(1) a']
    have "region (Suc (d_matching d)) a' = insert p (region (d_matching d) ?a)"
      using region_swap_in(1) [OF k(1) assms(3) _ a'] False by simp
    moreover have "region (d_active d) a' = region (d_active d) ?a" "region (d_eligible d) a' = region (d_eligible d) ?a"
      using region_swap_within [OF k(1) a'] False k ae by auto
    ultimately show ?thesis using False a' ok k ae assms(3) by (auto simp: dist_match_def prefix_defs dist_ok_def region_def)
  qed
qed

lemma dist_push_front_law:
  assumes "dist_ok (d\<lparr>d_matching := 0\<rparr>)" "\<not> d_more d" "d_matching d \<le> i" "i \<le> d_eligible d"
  shows "\<exists>d'. dist_push_front i d = Some d' \<and> dist_ok (d'\<lparr>d_matching := 0\<rparr>) \<and> d_matching d' \<le> d_eligible d' \<and> all_pipes d' = all_pipes d \<and>
    d_more d' = d_more d \<and> active_pipes d' = active_pipes d \<and> eligible_pipes d' = eligible_pipes d \<and>
    matching_pipes d' = matching_pipes d \<union> (eligible_pipes d - region i (d_pipes d))"
  using assms
proof (induction i d rule: dist_push_front.induct)
  case (1 i d)
  let ?a = "d_pipes d" and ?m = "d_matching d"
  have k: "pa_ok ?a" "d_eligible d \<le> pa_size ?a" "d_active d = d_eligible d" using 1(2,3) by (auto simp: dist_ok_def)
  show ?case
  proof (cases "i < d_eligible d")
    case False
    then have "dist_push_front i d = Some d" by (simp add: dist_push_front.simps [of i d])
    moreover have "i = d_eligible d" using False 1(5) by simp
    ultimately show ?thesis using 1(2,4) by (simp add: prefix_defs)
  next
    case True
    define p where "p = pa_items ?a ! i"
    have i: "i < pa_size ?a" "?m < pa_size ?a" using True k(2) 1(4) by simp_all
    have p: "p \<in> set (pa_items ?a)" "pa_pos p ?a = i" using i(1) pa_pos_nth [OF k(1) i(1)] by (simp_all add: p_def)
    obtain a' where a': "pa_swap i ?m ?a = Some a'" using pa_swap_some [OF k(1) i] by blast
    let ?d = "d\<lparr>d_pipes := a', d_matching := ?m + 1\<rparr>"
    note ok = pa_swap_ok [OF k(1) a']
    have r: "region (d_eligible d) a' = region (d_eligible d) ?a" using region_swap_within [OF k(1) a'] True 1(4) by simp
    have ri: "region (Suc i) a' = region (Suc i) ?a" using region_swap_within [OF k(1) a', of "Suc i"] 1(4) by simp
    have rm: "region (Suc ?m) a' = insert p (region ?m ?a)"
      using region_swap_in(1) [OF k(1) p(1)] p(2) 1(4) a' by simp
    have "dist_ok (?d\<lparr>d_matching := 0\<rparr>)" "\<not> d_more ?d" "d_matching ?d \<le> Suc i" "Suc i \<le> d_eligible ?d"
      using 1(2,3,4) True ok by (auto simp: dist_ok_def)
    from 1(1) [OF True a' this]
    obtain d' where d': "dist_push_front (Suc i) ?d = Some d'" "dist_ok (d'\<lparr>d_matching := 0\<rparr>)" "d_matching d' \<le> d_eligible d'" "all_pipes d' = all_pipes ?d"
      "d_more d' = d_more ?d" "active_pipes d' = active_pipes ?d" "eligible_pipes d' = eligible_pipes ?d"
      "matching_pipes d' = matching_pipes ?d \<union> (eligible_pipes ?d - region (Suc i) a')" by auto
    have "region (Suc i) ?a = insert p (region i ?a)" using region_Suc [OF k(1) i(1)] by (simp add: p_def)
    moreover have "p \<in> region (d_eligible d) ?a" "p \<notin> region i ?a" using p True by (auto simp: region_def)
    ultimately have "matching_pipes d' = matching_pipes d \<union> (eligible_pipes d - region i ?a)"
      using d'(8) rm ri r by (auto simp: prefix_defs)
    then show ?thesis using d' True a' ok r k(3) by (auto simp: dist_push_front.simps [of i d] prefix_defs)
  qed
qed

lemma dist_unmatch_law:
  "dist_ok d \<Longrightarrow> dist_ok (dist_unmatch d) \<and> matching_pipes (dist_unmatch d) = {} \<and> active_pipes (dist_unmatch d) = active_pipes d \<and>
   eligible_pipes (dist_unmatch d) = eligible_pipes d \<and> all_pipes (dist_unmatch d) = all_pipes d \<and> d_more (dist_unmatch d) = d_more d"
  by (simp add: dist_unmatch_def dist_ok_def prefix_defs)

lemma dist_reverse_match_law:
  assumes "dist_ok d" "\<not> d_more d"
  shows "\<exists>d'. dist_reverse_match d = Some d' \<and> dist_ok d' \<and> all_pipes d' = all_pipes d \<and> d_more d' = d_more d \<and>
    active_pipes d' = active_pipes d \<and> eligible_pipes d' = eligible_pipes d \<and>
    matching_pipes d' = eligible_pipes d - matching_pipes d"
proof -
  have u: "dist_ok ((dist_unmatch d)\<lparr>d_matching := 0\<rparr>)" using assms(1) by (simp add: dist_unmatch_def dist_ok_def)
  have le: "d_matching d \<le> d_eligible (dist_unmatch d)" using assms(1) by (simp add: dist_unmatch_def dist_ok_def)
  have u2: "\<not> d_more (dist_unmatch d)" "d_matching (dist_unmatch d) \<le> d_matching d" using assms(2) by (simp_all add: dist_unmatch_def)
  obtain d' where d': "dist_push_front (d_matching d) (dist_unmatch d) = Some d'" "dist_ok (d'\<lparr>d_matching := 0\<rparr>)" "d_matching d' \<le> d_eligible d'"
    "all_pipes d' = all_pipes (dist_unmatch d)" "d_more d' = d_more (dist_unmatch d)" "active_pipes d' = active_pipes (dist_unmatch d)"
    "eligible_pipes d' = eligible_pipes (dist_unmatch d)"
    "matching_pipes d' = matching_pipes (dist_unmatch d) \<union> (eligible_pipes (dist_unmatch d) - region (d_matching d) (d_pipes (dist_unmatch d)))"
    using dist_push_front_law [OF u u2 le] by blast
  have "dist_ok d'" using d'(2,3,5) assms(2) dist_unmatch_law [OF assms(1)] by (simp add: dist_ok_def)
  moreover have "matching_pipes d' = eligible_pipes d - matching_pipes d"
    using d'(8) by (auto simp: dist_unmatch_def prefix_defs)
  ultimately show ?thesis using d' dist_unmatch_law [OF assms(1)] by (simp add: dist_reverse_match_def)
qed

lemma pa_swap_commute:
  assumes "pa_ok a"
  shows "pa_swap i j a = pa_swap j i a"
proof (cases "i = j \<or> \<not> i < pa_size a \<or> \<not> j < pa_size a")
  case False
  then have "pa_items a ! i \<noteq> pa_items a ! j" using assms by (auto simp: pa_ok_def nth_eq_iff_index_eq)
  then show ?thesis using False by (simp add: pa_swap_def swap_at_def list_update_swap [of i j] fun_upd_twist)
qed (auto simp: pa_swap_def)

lemma dist_attach_law:
  assumes "dist_ok d" "p \<notin> all_pipes d"
  shows "\<exists>d'. dist_attach p d = Some d' \<and> dist_ok d' \<and> all_pipes d' = insert p (all_pipes d) \<and> d_more d' = d_more d \<and>
    matching_pipes d' = matching_pipes d \<and> eligible_pipes d' = insert p (eligible_pipes d) \<and>
    active_pipes d' = (if d_more d then active_pipes d else insert p (active_pipes d))"
proof -
  note k = dist_okD(1-4) [OF assms(1)] and ae = dist_okD(5) [OF assms(1)]
  let ?a = "pa_push_back p (d_pipes d)"
  note pl = pa_push_back_law [OF k(1) assms(2)]
  have pos: "pa_pos y ?a = pa_pos y (d_pipes d)" if "y \<in> all_pipes d" for y using pl(5) [of y] that assms(2) by auto
  have reg: "region n ?a = region n (d_pipes d)" if "n \<le> pa_size (d_pipes d)" for n
    using pl(2,4) pos that by (auto simp: region_def)
  have pp: "p \<in> set (pa_items ?a)" "pa_pos p ?a = pa_size ?a - 1" using pl by simp_all
  obtain a' where a': "pa_swap (d_eligible d) (pa_size ?a - 1) ?a = Some a'"
    using pa_swap_some [OF pl(1), of "d_eligible d" "pa_size ?a - 1"] k pl(3) by auto
  note ok = pa_swap_ok [OF pl(1) a']
  have "pa_swap (pa_pos p ?a) (d_eligible d) ?a = Some a'" using a' pp(2) pa_swap_commute [OF pl(1)] by simp
  then have e: "region (Suc (d_eligible d)) a' = insert p (region (d_eligible d) (d_pipes d))"
    using region_swap_in(1) [OF pl(1) pp(1)] pp(2) pl(3) k reg by simp
  have r: "region n a' = region n (d_pipes d)" if "n \<le> d_eligible d" for n
    using region_swap_within [OF pl(1) a', of n] that reg [of n] k pl(3) by simp
  show ?thesis
  proof (cases "d_more d")
    case True
    then show ?thesis using a' ok pl e r k by (auto simp: dist_attach_def dist_ok_def prefix_defs Let_def)
  next
    case False
    then show ?thesis using a' ok pl e r k ae by (auto simp: dist_attach_def dist_ok_def prefix_defs Let_def)
  qed
qed

text \<open>Leaving the prefixes one after the other.\<close>

lemma leave_matching_law:
  assumes "dist_ok d" "p \<in> matching_pipes d"
  shows "\<exists>d'. dist_leave_matching p d = Some d' \<and> dist_ok d' \<and> all_pipes d' = all_pipes d \<and> d_more d' = d_more d \<and>
    matching_pipes d' = matching_pipes d - {p} \<and> active_pipes d' = active_pipes d \<and> eligible_pipes d' = eligible_pipes d \<and>
    Suc (d_matching d') = d_matching d \<and> d_active d' = d_active d \<and> d_eligible d' = d_eligible d"
proof -
  note k = dist_okD [OF assms(1)]
  let ?a = "d_pipes d"
  obtain n where n: "d_matching d = Suc n" using assms(2) by (cases "d_matching d") (auto simp: matching_pipes_def)
  have p: "pa_pos p ?a \<le> n" "p \<in> all_pipes d" using assms(2) n by (auto simp: matching_pipes_def region_def)
  obtain a' where a': "pa_swap (pa_pos p ?a) n ?a = Some a'" using pa_swap_some [OF k(1), of "pa_pos p ?a" n] p n k by auto
  note ok = pa_swap_ok [OF k(1) a']
  have "region n a' = region (Suc n) ?a - {p}" using region_swap_out(1) [OF k(1) _ a'] assms(2) n by (simp add: matching_pipes_def)
  moreover have "region m a' = region m ?a" if "d_matching d \<le> m" for m using region_swap_within [OF k(1) a', of m] that n p(1) by simp
  ultimately show ?thesis using a' n ok k by (auto simp: dist_leave_matching_def dist_ok_def prefix_defs)
qed

lemma leave_active_law:
  assumes "dist_ok (d\<lparr>d_more := True\<rparr>)" "p \<in> active_pipes d" "p \<notin> matching_pipes d"
  shows "\<exists>d'. dist_leave_active p d = Some d' \<and> dist_ok (d'\<lparr>d_more := True\<rparr>) \<and> all_pipes d' = all_pipes d \<and> d_more d' = d_more d \<and>
    matching_pipes d' = matching_pipes d \<and> active_pipes d' = active_pipes d - {p} \<and> eligible_pipes d' = eligible_pipes d \<and>
    d_matching d' = d_matching d \<and> Suc (d_active d') = d_active d \<and> d_eligible d' = d_eligible d \<and> pa_pos p (d_pipes d') = d_active d'"
proof -
  note k = dist_okD(1-4) [OF assms(1), simplified]
  let ?a = "d_pipes d"
  obtain n where n: "d_active d = Suc n" using assms(2) by (cases "d_active d") (auto simp: active_pipes_def)
  have p: "pa_pos p ?a \<le> n" "p \<in> all_pipes d" "d_matching d \<le> pa_pos p ?a"
    using assms(2,3) n by (auto simp: prefix_defs region_def)
  obtain a' where a': "pa_swap (pa_pos p ?a) n ?a = Some a'" using pa_swap_some [OF k(1), of "pa_pos p ?a" n] p n k by auto
  note ok = pa_swap_ok [OF k(1) a']
  have "region n a' = region (Suc n) ?a - {p}" "pa_pos p a' = n"
    using region_swap_out [OF k(1) _ a'] assms(2) n by (simp_all add: active_pipes_def)
  moreover have "region m a' = region m ?a" if "d_active d \<le> m \<or> m \<le> pa_pos p ?a" for m
    using region_swap_within [OF k(1) a', of m] that n p(1) by auto
  ultimately show ?thesis using a' n ok k p by (auto simp: dist_leave_active_def dist_ok_def prefix_defs)
qed

lemma leave_eligible_law:
  assumes "dist_ok (d\<lparr>d_more := True\<rparr>)" "p \<in> eligible_pipes d" "p \<notin> active_pipes d"
  shows "\<exists>d'. dist_leave_eligible p d = Some d' \<and> dist_ok (d'\<lparr>d_more := True\<rparr>) \<and> all_pipes d' = all_pipes d \<and> d_more d' = d_more d \<and>
    matching_pipes d' = matching_pipes d \<and> active_pipes d' = active_pipes d \<and> eligible_pipes d' = eligible_pipes d - {p} \<and>
    d_matching d' = d_matching d \<and> d_active d' = d_active d \<and> Suc (d_eligible d') = d_eligible d \<and> pa_pos p (d_pipes d') = d_eligible d'"
proof -
  note k = dist_okD(1-4) [OF assms(1), simplified]
  let ?a = "d_pipes d"
  obtain n where n: "d_eligible d = Suc n" using assms(2) by (cases "d_eligible d") (auto simp: eligible_pipes_def)
  have p: "pa_pos p ?a \<le> n" "p \<in> all_pipes d" "d_active d \<le> pa_pos p ?a"
    using assms(2,3) n by (auto simp: prefix_defs region_def)
  obtain a' where a': "pa_swap (pa_pos p ?a) n ?a = Some a'" using pa_swap_some [OF k(1), of "pa_pos p ?a" n] p n k by auto
  note ok = pa_swap_ok [OF k(1) a']
  have "region n a' = region (Suc n) ?a - {p}" "pa_pos p a' = n"
    using region_swap_out [OF k(1) _ a'] assms(2) n by (simp_all add: eligible_pipes_def)
  moreover have "region m a' = region m ?a" if "m \<le> pa_pos p ?a" for m
    using region_swap_within [OF k(1) a', of m] that n p(1) by auto
  ultimately show ?thesis using a' n ok k p by (auto simp: dist_leave_eligible_def dist_ok_def prefix_defs)
qed

lemma dist_ok_more: "dist_ok d \<Longrightarrow> dist_ok (d\<lparr>d_more := True\<rparr>)"
  by (simp add: dist_ok_def)

lemma maybe_leave_matching:
  assumes "dist_ok d" "p \<in> all_pipes d"
  shows "\<exists>d'. (if pa_pos p (d_pipes d) < d_matching d then dist_leave_matching p d else Some d) = Some d' \<and> dist_ok d' \<and>
    all_pipes d' = all_pipes d \<and> d_more d' = d_more d \<and> matching_pipes d' = matching_pipes d - {p} \<and>
    active_pipes d' = active_pipes d \<and> eligible_pipes d' = eligible_pipes d \<and> d_active d' = d_active d \<and> d_eligible d' = d_eligible d"
proof (cases "pa_pos p (d_pipes d) < d_matching d")
  case True
  then have "p \<in> matching_pipes d" using assms(2) by (simp add: matching_pipes_def region_def)
  then show ?thesis using leave_matching_law [OF assms(1), of p] True by auto
next
  case False
  then have "p \<notin> matching_pipes d" by (simp add: matching_pipes_def region_def)
  then show ?thesis using False assms by auto
qed

lemma leave_both:
  assumes "dist_ok d" "p \<in> all_pipes d" "p \<notin> matching_pipes d"
  shows "\<exists>d1 d2. (if pa_pos p (d_pipes d) < d_active d then dist_leave_active p d else Some d) = Some d1 \<and>
    (if pa_pos p (d_pipes d1) < d_eligible d1 then dist_leave_eligible p d1 else Some d1) = Some d2 \<and> dist_ok d2 \<and>
    all_pipes d2 = all_pipes d \<and> d_more d2 = d_more d \<and> matching_pipes d2 = matching_pipes d \<and>
    active_pipes d2 = active_pipes d - {p} \<and> eligible_pipes d2 = eligible_pipes d - {p} \<and> d_eligible d2 \<le> pa_pos p (d_pipes d2)"
proof (cases "p \<in> active_pipes d")
  case True
  obtain d1 where d1: "dist_leave_active p d = Some d1" "dist_ok (d1\<lparr>d_more := True\<rparr>)" "all_pipes d1 = all_pipes d" "d_more d1 = d_more d"
    "matching_pipes d1 = matching_pipes d" "active_pipes d1 = active_pipes d - {p}" "eligible_pipes d1 = eligible_pipes d"
    "d_matching d1 = d_matching d" "Suc (d_active d1) = d_active d" "d_eligible d1 = d_eligible d"
    using leave_active_law [OF dist_ok_more [OF assms(1)] True assms(3)] by blast
  have e: "p \<in> eligible_pipes d1" "p \<notin> active_pipes d1" using True d1(6,7) prefix_chain [OF assms(1)] by auto
  obtain d2 where d2: "dist_leave_eligible p d1 = Some d2" "dist_ok (d2\<lparr>d_more := True\<rparr>)" "all_pipes d2 = all_pipes d1" "d_more d2 = d_more d1"
    "matching_pipes d2 = matching_pipes d1" "active_pipes d2 = active_pipes d1" "eligible_pipes d2 = eligible_pipes d1 - {p}"
    "d_matching d2 = d_matching d1" "d_active d2 = d_active d1" "Suc (d_eligible d2) = d_eligible d1" "pa_pos p (d_pipes d2) = d_eligible d2"
    using leave_eligible_law [OF d1(2) e] by blast
  have "dist_ok d2" using d2 d1 dist_okD(5) [OF assms(1)] by (auto simp: dist_ok_def)
  moreover have "pa_pos p (d_pipes d) < d_active d" "pa_pos p (d_pipes d1) < d_eligible d1"
    using True e(1) by (auto simp: prefix_defs region_def)
  ultimately show ?thesis using d1 d2 by (intro exI [of _ d1] exI [of _ d2]) auto
next
  case False
  then have na: "\<not> pa_pos p (d_pipes d) < d_active d" using assms(2) by (auto simp: prefix_defs region_def)
  show ?thesis
  proof (cases "p \<in> eligible_pipes d")
    case True
    obtain d2 where d2: "dist_leave_eligible p d = Some d2" "dist_ok (d2\<lparr>d_more := True\<rparr>)" "all_pipes d2 = all_pipes d" "d_more d2 = d_more d"
      "matching_pipes d2 = matching_pipes d" "active_pipes d2 = active_pipes d" "eligible_pipes d2 = eligible_pipes d - {p}"
      "d_matching d2 = d_matching d" "d_active d2 = d_active d" "Suc (d_eligible d2) = d_eligible d" "pa_pos p (d_pipes d2) = d_eligible d2"
      using leave_eligible_law [OF dist_ok_more [OF assms(1)] True False] by blast
    have "d_more d" using True False dist_okD(5) [OF assms(1)] unfolding prefix_defs by (metis (full_types))
    then have "dist_ok d2" using d2(2,4) by (simp add: dist_ok_def)
    moreover have "pa_pos p (d_pipes d) < d_eligible d" using True by (auto simp: prefix_defs region_def)
    ultimately show ?thesis using na d2 False by (intro exI [of _ d] exI [of _ d2]) auto
  next
    case ne: False
    then have "\<not> pa_pos p (d_pipes d) < d_eligible d" using assms(2) by (auto simp: prefix_defs region_def)
    then show ?thesis using na assms(1) False ne by (intro exI [of _ d]) auto
  qed
qed

lemma region_erase:
  assumes "pa_ok a" "x \<in> set (pa_items a)" "pa_erase x a = Some a'" "n \<le> pa_pos x a"
  shows "region n a' = region n a"
proof -
  obtain b where b: "pa_erase x a = Some b" "set (pa_items b) = set (pa_items a) - {x}"
    "\<forall>y\<in>set (pa_items b). pa_pos y b = (if Suc (pa_pos y a) = pa_size a then pa_pos x a else pa_pos y a)"
    using pa_erase_law [OF assms(1,2)] by blast
  have x: "pa_pos x a < pa_size a" using pa_pos_less [OF assms(1,2)] by simp
  have "y \<in> region n b \<longleftrightarrow> y \<in> region n a" for y
  proof (cases "y \<in> set (pa_items b)")
    case True
    have y: "y \<in> set (pa_items a)" using True b(2) by simp
    have pos: "pa_pos y b = (if Suc (pa_pos y a) = pa_size a then pa_pos x a else pa_pos y a)" using b(3) True by blast
    have "pa_pos y b < n \<longleftrightarrow> pa_pos y a < n"
    proof (cases "Suc (pa_pos y a) = pa_size a")
      case True
      then have "pa_pos y b = pa_pos x a" "pa_pos x a \<le> pa_pos y a" using pos x by simp_all
      then show ?thesis using assms(4) by linarith
    qed (use pos in simp)
    then show ?thesis using True y by (simp add: region_def)
  next
    case False
    then have "y \<notin> set (pa_items a) \<or> y = x" using b(2) by simp
    then show ?thesis using False assms(4) by (auto simp: region_def)
  qed
  then show ?thesis using b(1) assms(3) by auto
qed

lemma dist_pipe_terminated_law:
  assumes "dist_ok d" "p \<in> all_pipes d"
  shows "\<exists>d'. dist_pipe_terminated p d = Some d' \<and> dist_ok d' \<and> all_pipes d' = all_pipes d - {p} \<and> d_more d' = d_more d \<and>
    matching_pipes d' = matching_pipes d - {p} \<and> active_pipes d' = active_pipes d - {p} \<and> eligible_pipes d' = eligible_pipes d - {p}"
proof -
  obtain d0 where d0: "(if pa_pos p (d_pipes d) < d_matching d then dist_leave_matching p d else Some d) = Some d0" "dist_ok d0"
    "all_pipes d0 = all_pipes d" "d_more d0 = d_more d" "matching_pipes d0 = matching_pipes d - {p}" "active_pipes d0 = active_pipes d"
    "eligible_pipes d0 = eligible_pipes d" using maybe_leave_matching [OF assms] by blast
  have p0: "p \<in> all_pipes d0" "p \<notin> matching_pipes d0" using d0 assms(2) by auto
  obtain d1 d2 where d1: "(if pa_pos p (d_pipes d0) < d_active d0 then dist_leave_active p d0 else Some d0) = Some d1"
    and d2: "(if pa_pos p (d_pipes d1) < d_eligible d1 then dist_leave_eligible p d1 else Some d1) = Some d2" "dist_ok d2"
    "all_pipes d2 = all_pipes d0" "d_more d2 = d_more d0" "matching_pipes d2 = matching_pipes d0" "active_pipes d2 = active_pipes d0 - {p}"
    "eligible_pipes d2 = eligible_pipes d0 - {p}" "d_eligible d2 \<le> pa_pos p (d_pipes d2)"
    using leave_both [OF d0(2) p0] by blast
  note k = dist_okD [OF d2(2)]
  have p: "p \<in> set (pa_items (d_pipes d2))" using d2(3) d0(3) assms(2) by simp
  obtain a where a: "pa_erase p (d_pipes d2) = Some a" "pa_ok a" "set (pa_items a) = all_pipes d2 - {p}" "Suc (pa_size a) = pa_size (d_pipes d2)"
    using pa_erase_law [OF k(1) p] by blast
  have r: "region n a = region n (d_pipes d2)" if "n \<le> d_eligible d2" for n using region_erase [OF k(1) p a(1)] that d2(8) by simp
  have lt: "pa_pos p (d_pipes d2) < pa_size (d_pipes d2)" using pa_pos_less [OF k(1) p] by simp
  have "dist_pipe_terminated p d = Some (d2\<lparr>d_pipes := a\<rparr>)"
    unfolding dist_pipe_terminated_def d0(1) bind.bind_lunit d1 d2(1) a(1) by simp
  moreover have "dist_ok (d2\<lparr>d_pipes := a\<rparr>)" using k a lt d2(8) by (auto simp: dist_ok_def)
  ultimately show ?thesis using a(3) r k d2 d0 by (auto simp: prefix_defs)
qed

lemma dist_activated_law:
  assumes "dist_ok d" "p \<in> all_pipes d" "p \<notin> eligible_pipes d"
  shows "\<exists>d'. dist_activated p d = Some d' \<and> dist_ok d' \<and> all_pipes d' = all_pipes d \<and> d_more d' = d_more d \<and>
    matching_pipes d' = matching_pipes d \<and> eligible_pipes d' = insert p (eligible_pipes d) \<and>
    active_pipes d' = (if d_more d then active_pipes d else insert p (active_pipes d))"
proof -
  note k = dist_okD(1-4) [OF assms(1)] and ae = dist_okD(5) [OF assms(1)]
  let ?a = "d_pipes d"
  have p: "d_eligible d \<le> pa_pos p ?a" "pa_pos p ?a < pa_size ?a"
    using assms(2,3) pa_pos_less [OF k(1) assms(2)] by (auto simp: prefix_defs region_def)
  obtain a where a: "pa_swap (pa_pos p ?a) (d_eligible d) ?a = Some a" using pa_swap_some [OF k(1) p(2), of "d_eligible d"] p by auto
  note ok = pa_swap_ok [OF k(1) a]
  have e: "region (Suc (d_eligible d)) a = insert p (region (d_eligible d) ?a)" using region_swap_in(1) [OF k(1) assms(2) p(1) a] .
  have r: "region n a = region n ?a" if "n \<le> d_eligible d" for n using region_swap_within [OF k(1) a, of n] that p(1) by simp
  have lt: "d_eligible d < pa_size a" using p ok(3) by simp
  show ?thesis
  proof (cases "d_more d")
    case True
    then show ?thesis using a ok e r k lt by (auto simp: dist_activated_def dist_ok_def prefix_defs)
  next
    case False
    then have "d_active d = d_eligible d" by (rule ae)
    moreover have "pa_swap (d_eligible d) (d_eligible d) a = Some a"
      using lt ok(1) by (auto simp: pa_swap_def pa_ok_def fun_eq_iff)
    ultimately show ?thesis using False a ok e r k lt by (auto simp: dist_activated_def dist_ok_def prefix_defs)
  qed
qed

section \<open>What is delivered\<close>

definition deliver :: "(msg \<Rightarrow> 's \<Rightarrow> (bool \<times> 's) option) \<Rightarrow> ('s \<Rightarrow> 's option) \<Rightarrow> msg \<Rightarrow> 's \<Rightarrow> (bool \<times> 's) option" where
  "deliver wr fl m s = do {
     (ok, s) \<leftarrow> wr m s;
     if \<not> ok then Some (False, s) else do { s \<leftarrow> (if \<not> is_more m then fl s else Some s); Some (True, s) } }"

definition accepts :: "(msg \<Rightarrow> 's \<Rightarrow> (bool \<times> 's) option) \<Rightarrow> ('s \<Rightarrow> 's option) \<Rightarrow> msg \<Rightarrow> 's \<Rightarrow> bool" where
  "accepts wr fl m s = fst (the (deliver wr fl m s))"

definition delivered :: "(msg \<Rightarrow> 's \<Rightarrow> (bool \<times> 's) option) \<Rightarrow> ('s \<Rightarrow> 's option) \<Rightarrow> msg \<Rightarrow> 's \<Rightarrow> 's" where
  "delivered wr fl m s = snd (the (deliver wr fl m s))"

lemma region_swap_below:
  assumes "pa_ok a" "pa_swap i j a = Some a'" "n \<le> i" "n \<le> j"
  shows "region n a' = region n a"
  using region_swap_within [OF assms(1,2), of n] assms(3,4) by simp

lemma dist_write_law:
  assumes "dist_ok d" "p \<in> matching_pipes d" "deliver wr fl m (w p) \<noteq> None"
  shows "\<exists>d'. dist_write wr fl p m (d, w) = Some (accepts wr fl m (w p), d', w(p := delivered wr fl m (w p))) \<and> dist_ok d' \<and>
    all_pipes d' = all_pipes d \<and> d_more d' = d_more d \<and>
    (if accepts wr fl m (w p) then d' = d
     else matching_pipes d' = matching_pipes d - {p} \<and> active_pipes d' = active_pipes d - {p} \<and> eligible_pipes d' = eligible_pipes d - {p} \<and>
       Suc (d_matching d') = d_matching d \<and> (\<forall>n\<le>pa_pos p (d_pipes d). region n (d_pipes d') = region n (d_pipes d)))"
proof -
  obtain ok s where wr: "wr m (w p) = Some (ok, s)" using assms(3) by (auto simp: deliver_def split: Option.bind_splits)
  show ?thesis
  proof (cases ok)
    case True
    obtain s' where "(if \<not> is_more m then fl s else Some s) = Some s'"
      using assms(3) wr True by (cases "if \<not> is_more m then fl s else Some s") (simp_all add: deliver_def)
    then show ?thesis using wr True assms(1) by (simp add: dist_write_def deliver_def accepts_def delivered_def)
  next
    case False
    note k = dist_okD [OF assms(1)]
    obtain d0 where d0: "dist_leave_matching p d = Some d0" "dist_ok d0" "all_pipes d0 = all_pipes d" "d_more d0 = d_more d"
      "matching_pipes d0 = matching_pipes d - {p}" "active_pipes d0 = active_pipes d" "eligible_pipes d0 = eligible_pipes d"
      "Suc (d_matching d0) = d_matching d" "d_active d0 = d_active d" "d_eligible d0 = d_eligible d"
      using leave_matching_law [OF assms(1,2)] by blast
    have p0: "p \<in> active_pipes d0" "p \<notin> matching_pipes d0" using d0 assms(2) prefix_chain [OF assms(1)] by auto
    obtain d1 where d1: "dist_leave_active p d0 = Some d1" "dist_ok (d1\<lparr>d_more := True\<rparr>)" "all_pipes d1 = all_pipes d0" "d_more d1 = d_more d0"
      "matching_pipes d1 = matching_pipes d0" "active_pipes d1 = active_pipes d0 - {p}" "eligible_pipes d1 = eligible_pipes d0"
      "d_matching d1 = d_matching d0" "Suc (d_active d1) = d_active d0" "d_eligible d1 = d_eligible d0" "pa_pos p (d_pipes d1) = d_active d1"
      using leave_active_law [OF dist_ok_more [OF d0(2)] p0] by blast
    have p1: "p \<in> eligible_pipes d1" "p \<notin> active_pipes d1" using d1 d0 p0 prefix_chain [OF assms(1)] by auto
    obtain d2 where d2: "dist_leave_eligible p d1 = Some d2" "dist_ok (d2\<lparr>d_more := True\<rparr>)" "all_pipes d2 = all_pipes d1" "d_more d2 = d_more d1"
      "matching_pipes d2 = matching_pipes d1" "active_pipes d2 = active_pipes d1" "eligible_pipes d2 = eligible_pipes d1 - {p}"
      "d_matching d2 = d_matching d1" "d_active d2 = d_active d1" "Suc (d_eligible d2) = d_eligible d1"
      using leave_eligible_law [OF d1(2) p1] by blast
    have w: "dist_write wr fl p m (d, w) = Some (False, d2, w(p := s))"
      using wr False d0(1) d1(1) d2(1) d1(11) by (auto simp: dist_write_def dist_leave_eligible_def split: Option.bind_splits)
    have "dist_ok d2" using d2 d1 d0 k(5) by (auto simp: dist_ok_def)
    moreover have "region n (d_pipes d2) = region n (d_pipes d)" if "n \<le> pa_pos p (d_pipes d)" for n
    proof -
      have n: "n < d_matching d" using that assms(2) by (auto simp: prefix_defs region_def)
      then have n0: "n \<le> d_matching d0" using d0(8) by simp
      have r0: "region n (d_pipes d0) = region n (d_pipes d)"
        using d0(1) region_swap_below [OF k(1), of "pa_pos p (d_pipes d)" "d_matching d - 1" _ n] that n
        by (auto simp: dist_leave_matching_def split: Option.bind_splits)
      have pos0: "d_matching d0 \<le> pa_pos p (d_pipes d0)" using p0 by (auto simp: prefix_defs region_def)
      have r1: "region n (d_pipes d1) = region n (d_pipes d0)"
        using d1(1) region_swap_below [OF dist_okD(1) [OF d0(2)], of "pa_pos p (d_pipes d0)" "d_active d0 - 1" _ n] n0 pos0 d1(9) dist_okD(2) [OF d1(2)] d1(8)
        by (auto simp: dist_leave_active_def split: Option.bind_splits)
      have "region n (d_pipes d2) = region n (d_pipes d1)"
        using d2(1) region_swap_below [OF dist_okD(1) [OF d1(2), simplified], of "pa_pos p (d_pipes d1)" "d_eligible d1 - 1" _ n] n0 d1(8,11) d2(8,9,10) dist_okD(2,3) [OF d2(2)]
        by (auto simp: dist_leave_eligible_def split: Option.bind_splits)
      then show ?thesis using r0 r1 by simp
    qed
    ultimately show ?thesis
      using w wr False d2 d1 d0 by (auto simp: deliver_def accepts_def delivered_def)
  qed
qed

definition refused :: "(msg \<Rightarrow> 's \<Rightarrow> (bool \<times> 's) option) \<Rightarrow> ('s \<Rightarrow> 's option) \<Rightarrow> msg \<Rightarrow> ('p \<Rightarrow> 's) \<Rightarrow> 'p set \<Rightarrow> 'p set" where
  "refused wr fl m w P = {p \<in> P. \<not> accepts wr fl m (w p)}"

lemma refused_insert:
  "p \<notin> P \<Longrightarrow> refused wr fl m w (insert p P) = (if accepts wr fl m (w p) then refused wr fl m w P else insert p (refused wr fl m w P))"
  "p \<notin> P \<Longrightarrow> refused wr fl m (w(p := s)) P = refused wr fl m w P"
  by (auto simp: refused_def)

lemma dist_loop_law:
  assumes "dist_ok d" "i \<le> d_matching d" "P = matching_pipes d - region i (d_pipes d)"
    and "\<And>p. p \<in> P \<Longrightarrow> deliver wr fl m (w p) \<noteq> None"
  shows "\<exists>d'. dist_loop wr fl m i failed (d, w) =
      Some (failed + card (refused wr fl m w P), d', \<lambda>p. if p \<in> P then delivered wr fl m (w p) else w p) \<and> dist_ok d' \<and>
    all_pipes d' = all_pipes d \<and> d_more d' = d_more d \<and> matching_pipes d' = matching_pipes d - refused wr fl m w P \<and>
    active_pipes d' = active_pipes d - refused wr fl m w P \<and> eligible_pipes d' = eligible_pipes d - refused wr fl m w P"
  using assms
proof (induction "d_matching d - i" arbitrary: i d w failed P)
  case 0
  then have i: "i = d_matching d" "P = {}" by (simp_all add: matching_pipes_def)
  then have "dist_loop wr fl m i failed (d, w) = Some (failed, d, w)" by (subst dist_loop.simps) simp
  then show ?case using i 0(2) by (simp add: refused_def)
next
  case (Suc n)
  let ?a = "d_pipes d"
  have k: "pa_ok ?a" "d_matching d \<le> pa_size ?a" using dist_okD [OF Suc.prems(1)] by auto
  have lt: "i < d_matching d" "i < pa_size ?a" using Suc.hyps(2) k(2) by auto
  define p where "p = pa_items ?a ! i"
  have pos: "pa_pos p ?a = i" "p \<in> set (pa_items ?a)" using pa_pos_nth [OF k(1) lt(2)] lt(2) by (simp_all add: p_def)
  have pm: "p \<in> matching_pipes d" "p \<in> P" using pos lt Suc.prems(3) by (auto simp: matching_pipes_def region_def)
  let ?w = "w(p := delivered wr fl m (w p))" and ?P = "P - {p}"
  obtain d1 where d1: "dist_write wr fl p m (d, w) = Some (accepts wr fl m (w p), d1, ?w)" "dist_ok d1" "all_pipes d1 = all_pipes d" "d_more d1 = d_more d"
    "if accepts wr fl m (w p) then d1 = d
     else matching_pipes d1 = matching_pipes d - {p} \<and> active_pipes d1 = active_pipes d - {p} \<and> eligible_pipes d1 = eligible_pipes d - {p} \<and>
       Suc (d_matching d1) = d_matching d \<and> (\<forall>n\<le>pa_pos p ?a. region n (d_pipes d1) = region n ?a)"
    using dist_write_law [where wr = wr and fl = fl and m = m and w = w, OF Suc.prems(1) pm(1) Suc.prems(4) [OF pm(2)]] by blast
  have at: "pa_at i ?a = Some p" using lt(2) by (simp add: pa_at_def p_def)
  have dl: "\<And>q. q \<in> ?P \<Longrightarrow> deliver wr fl m (?w q) \<noteq> None" using Suc.prems(4) by auto
  have ref: "refused wr fl m ?w ?P = refused wr fl m w ?P" using refused_insert(2) [of p ?P] by simp
  have fin: "finite P" using Suc.prems(3) finite_subset [OF region_subset] by (auto simp: matching_pipes_def)
  have wq: "(\<lambda>q. if q \<in> ?P then delivered wr fl m (?w q) else ?w q) = (\<lambda>q. if q \<in> P then delivered wr fl m (w q) else w q)"
    using pm(2) by auto
  show ?case
  proof (cases "accepts wr fl m (w p)")
    case True
    have h: "n = d_matching d - Suc i" "Suc i \<le> d_matching d" using Suc.hyps(2) lt(1) by auto
    have hP: "?P = matching_pipes d - region (Suc i) ?a" using region_Suc [OF k(1) lt(2)] Suc.prems(3) by (auto simp: p_def)
    obtain d' where d': "dist_loop wr fl m (Suc i) failed (d, ?w) =
        Some (failed + card (refused wr fl m ?w ?P), d', \<lambda>q. if q \<in> ?P then delivered wr fl m (?w q) else ?w q)" "dist_ok d'"
      "all_pipes d' = all_pipes d" "d_more d' = d_more d" "matching_pipes d' = matching_pipes d - refused wr fl m ?w ?P"
      "active_pipes d' = active_pipes d - refused wr fl m ?w ?P" "eligible_pipes d' = eligible_pipes d - refused wr fl m ?w ?P"
      using Suc.hyps(1) [of d "Suc i" ?P ?w failed, OF h(1) Suc.prems(1) h(2) hP dl] by blast
    have "refused wr fl m w P = refused wr fl m w ?P" using refused_insert(1) [of p ?P wr fl m w] pm(2) True by (simp add: insert_absorb)
    moreover have "dist_loop wr fl m i failed (d, w) = dist_loop wr fl m (Suc i) failed (d, ?w)"
      using lt(1) at d1(1,5) True by (subst dist_loop.simps) simp
    ultimately show ?thesis using d' ref wq by auto
  next
    case False
    have f: "matching_pipes d1 = matching_pipes d - {p}" "active_pipes d1 = active_pipes d - {p}" "eligible_pipes d1 = eligible_pipes d - {p}"
      "Suc (d_matching d1) = d_matching d" "region i (d_pipes d1) = region i ?a" using d1(5) False pos(1) by auto
    have h: "n = d_matching d1 - i" "i \<le> d_matching d1" using Suc.hyps(2) lt(1) f(4) by auto
    have hP: "?P = matching_pipes d1 - region i (d_pipes d1)" using f(1,5) Suc.prems(3) by auto
    obtain d' where d': "dist_loop wr fl m i (Suc failed) (d1, ?w) =
        Some (Suc failed + card (refused wr fl m ?w ?P), d', \<lambda>q. if q \<in> ?P then delivered wr fl m (?w q) else ?w q)" "dist_ok d'"
      "all_pipes d' = all_pipes d1" "d_more d' = d_more d1" "matching_pipes d' = matching_pipes d1 - refused wr fl m ?w ?P"
      "active_pipes d' = active_pipes d1 - refused wr fl m ?w ?P" "eligible_pipes d' = eligible_pipes d1 - refused wr fl m ?w ?P"
      using Suc.hyps(1) [of d1 i ?P ?w "Suc failed", OF h(1) d1(2) h(2) hP dl] by blast
    have r: "refused wr fl m w P = insert p (refused wr fl m w ?P)" using refused_insert(1) [of p ?P wr fl m w] pm(2) False by (simp add: insert_absorb)
    have "p \<notin> refused wr fl m w ?P" "finite (refused wr fl m w ?P)" using fin by (auto simp: refused_def)
    then have "card (refused wr fl m w P) = Suc (card (refused wr fl m w ?P))" using r by simp
    moreover have "dist_loop wr fl m i failed (d, w) = dist_loop wr fl m i (Suc failed) (d1, ?w)"
      using lt(1) at d1(1) False by (subst dist_loop.simps) simp
    ultimately show ?thesis using d' ref wq r f d1(3,4) by auto
  qed
qed

text \<open>Sending to the matching pipes: every matching pipe gets the message once, the others nothing; a pipe that refuses it
  drops out until it is activated again. The references added and removed leave one for each pipe that took the
  message.\<close>

lemma send_to_matching_law:
  assumes "dist_ok d" "\<And>p. p \<in> matching_pipes d \<Longrightarrow> deliver wr fl m (w p) \<noteq> None"
  shows "\<exists>refs d'. send_to_matching wr fl m (d, w) =
      Some (refs, d', \<lambda>p. if p \<in> matching_pipes d then delivered wr fl m (w p) else w p) \<and> dist_ok d' \<and>
    all_pipes d' = all_pipes d \<and> d_more d' = is_more m \<and>
    matching_pipes d' = matching_pipes d - refused wr fl m w (matching_pipes d) \<and>
    eligible_pipes d' = eligible_pipes d - refused wr fl m w (matching_pipes d) \<and>
    active_pipes d' = (if is_more m then active_pipes d else eligible_pipes d) - refused wr fl m w (matching_pipes d) \<and>
    1 + fst refs - snd refs = int (card (matching_pipes d')) \<and> card (matching_pipes d) = d_matching d"
proof -
  let ?P = "matching_pipes d"
  have k: "pa_ok (d_pipes d)" "d_matching d \<le> pa_size (d_pipes d)" using dist_okD [OF assms(1)] by auto
  have card: "card ?P = d_matching d"
    using k by (simp add: matching_pipes_def region_take pa_ok_def distinct_card)
  have fin: "finite ?P" using finite_subset [OF region_subset] by (auto simp: matching_pipes_def)
  have sub: "refused wr fl m w ?P \<subseteq> ?P" by (auto simp: refused_def)
  have "\<exists>refs d'. distribute wr fl m (d, w) = Some (refs, d', \<lambda>p. if p \<in> ?P then delivered wr fl m (w p) else w p) \<and> dist_ok d' \<and>
      all_pipes d' = all_pipes d \<and> d_more d' = d_more d \<and> matching_pipes d' = ?P - refused wr fl m w ?P \<and>
      active_pipes d' = active_pipes d - refused wr fl m w ?P \<and> eligible_pipes d' = eligible_pipes d - refused wr fl m w ?P \<and>
      1 + fst refs - snd refs = int (card (matching_pipes d'))"
  proof (cases "d_matching d = 0")
    case True
    then have "?P = {}" by (simp add: matching_pipes_def)
    then show ?thesis using True assms(1) by (simp add: distribute_def refused_def)
  next
    case False
    have P: "?P = ?P - region 0 (d_pipes d)" by simp
    obtain d' where d': "dist_loop wr fl m 0 0 (d, w) = Some (0 + card (refused wr fl m w ?P), d', \<lambda>p. if p \<in> ?P then delivered wr fl m (w p) else w p)"
      "dist_ok d'" "all_pipes d' = all_pipes d" "d_more d' = d_more d" "matching_pipes d' = ?P - refused wr fl m w ?P"
      "active_pipes d' = active_pipes d - refused wr fl m w ?P" "eligible_pipes d' = eligible_pipes d - refused wr fl m w ?P"
      using dist_loop_law [where w = w and failed = 0, OF assms(1) _ P assms(2)] by auto
    have "card (matching_pipes d') = d_matching d - card (refused wr fl m w ?P)" "card (refused wr fl m w ?P) \<le> d_matching d"
      using card_Diff_subset [OF finite_subset [OF sub fin] sub] card_mono [OF fin sub] d'(5) card by simp_all
    then show ?thesis using d' False by (auto simp: distribute_def)
  qed
  then obtain refs d' where d': "distribute wr fl m (d, w) = Some (refs, d', \<lambda>p. if p \<in> ?P then delivered wr fl m (w p) else w p)" "dist_ok d'"
    "all_pipes d' = all_pipes d" "d_more d' = d_more d" "matching_pipes d' = ?P - refused wr fl m w ?P"
    "active_pipes d' = active_pipes d - refused wr fl m w ?P" "eligible_pipes d' = eligible_pipes d - refused wr fl m w ?P"
    "1 + fst refs - snd refs = int (card (matching_pipes d'))" by blast
  let ?d = "(if \<not> is_more m then d'\<lparr>d_active := d_eligible d'\<rparr> else d')\<lparr>d_more := is_more m\<rparr>"
  have "send_to_matching wr fl m (d, w) = Some (refs, ?d, \<lambda>p. if p \<in> ?P then delivered wr fl m (w p) else w p)"
    using d'(1) by (simp add: send_to_matching_def)
  moreover have "dist_ok ?d" using d'(2) by (auto simp: dist_ok_def)
  ultimately show ?thesis using d' card by (auto simp: prefix_defs)
qed

end
