(* ===== verification/Fq.thy ===== *)
theory Fq
  imports Dist
begin

text \<open>
  Fair queueing over a set of pipes (\<^verbatim>\<open>src/src/pipe/fq.cpp\<close>). The active pipes are a prefix of the array and are read
  in turn; a pipe that has nothing is moved out of the prefix. Reading a pipe and asking whether it can be read are
  arguments \<open>rd\<close> and \<open>ck\<close> on the state of one pipe.
\<close>

record 'p fq =
  q_pipes :: "'p parray"
  q_active :: nat
  q_current :: nat
  q_more :: bool

definition fq_new :: "'p fq" where
  "fq_new = \<lparr>q_pipes = pa_new, q_active = 0, q_current = 0, q_more = False\<rparr>"

definition fq_attach :: "'p \<Rightarrow> 'p fq \<Rightarrow> 'p fq option" where
  "fq_attach p f =
     (let a = pa_push_back p (q_pipes f) in
      do { a \<leftarrow> pa_swap (q_active f) (pa_size a - 1) a; Some (f\<lparr>q_pipes := a, q_active := q_active f + 1\<rparr>) })"

text \<open>The active pipe at position \<open>i\<close> leaves the active prefix.\<close>

definition fq_deactivate :: "nat \<Rightarrow> 'p fq \<Rightarrow> 'p fq option" where
  "fq_deactivate i f =
     (let n = q_active f - 1 in
      do { a \<leftarrow> pa_swap i n (q_pipes f);
           Some (f\<lparr>q_pipes := a, q_active := n, q_current := (if q_current f = n then 0 else q_current f)\<rparr>) })"

definition fq_pipe_terminated :: "'p \<Rightarrow> 'p fq \<Rightarrow> 'p fq option" where
  "fq_pipe_terminated p f =
     (let index = pa_pos p (q_pipes f) in
      do { f \<leftarrow> (if index < q_active f then fq_deactivate index f else Some f);
           a \<leftarrow> pa_erase p (q_pipes f);
           Some (f\<lparr>q_pipes := a\<rparr>) })"

definition fq_activated :: "'p \<Rightarrow> 'p fq \<Rightarrow> 'p fq option" where
  "fq_activated p f = do {
     a \<leftarrow> pa_swap (pa_pos p (q_pipes f)) (q_active f) (q_pipes f);
     Some (f\<lparr>q_pipes := a, q_active := q_active f + 1\<rparr>) }"

text \<open>\<^verbatim>\<open>recvpipe\<close>: the message and the pipe it came from, nothing for EAGAIN.\<close>

partial_function (option) fq_recvpipe ::
  "('s \<Rightarrow> (msg option \<times> 's) option) \<Rightarrow> 'p fq \<times> ('p \<Rightarrow> 's) \<Rightarrow> ((msg \<times> 'p) option \<times> 'p fq \<times> ('p \<Rightarrow> 's)) option" where
  "fq_recvpipe rd fw = (let (f, w) = fw in
     if q_active f > 0
     then do {
       p \<leftarrow> pa_at (q_current f) (q_pipes f);
       (r, s) \<leftarrow> rd (w p);
       case r of
         Some m \<Rightarrow>
           Some (Some (m, p),
             f\<lparr>q_more := is_more m, q_current := (if \<not> is_more m then (q_current f + 1) mod q_active f else q_current f)\<rparr>, w(p := s))
       | None \<Rightarrow>
           if q_more f then None
           else do { f \<leftarrow> fq_deactivate (q_current f) f; fq_recvpipe rd (f, w(p := s)) } }
     else Some (None, f, w))"

partial_function (option) fq_seek_in ::
  "('s \<Rightarrow> (bool \<times> 's) option) \<Rightarrow> 'p fq \<times> ('p \<Rightarrow> 's) \<Rightarrow> (bool \<times> 'p fq \<times> ('p \<Rightarrow> 's)) option" where
  "fq_seek_in ck fw = (let (f, w) = fw in
     if q_active f > 0
     then do {
       p \<leftarrow> pa_at (q_current f) (q_pipes f);
       (ok, s) \<leftarrow> ck (w p);
       if ok then Some (True, f, w(p := s))
       else do { f \<leftarrow> fq_deactivate (q_current f) f; fq_seek_in ck (f, w(p := s)) } }
     else Some (False, f, w))"

definition fq_has_in ::
  "('s \<Rightarrow> (bool \<times> 's) option) \<Rightarrow> 'p fq \<times> ('p \<Rightarrow> 's) \<Rightarrow> (bool \<times> 'p fq \<times> ('p \<Rightarrow> 's)) option" where
  "fq_has_in ck fw = (if q_more (fst fw) then Some (True, fw) else fq_seek_in ck fw)"

section \<open>The invariant\<close>

definition fq_ok :: "'p fq \<Rightarrow> bool" where
  "fq_ok f \<longleftrightarrow> pa_ok (q_pipes f) \<and> q_active f \<le> pa_size (q_pipes f) \<and> (if q_active f = 0 then q_current f = 0 else q_current f < q_active f)"

definition q_all :: "'p fq \<Rightarrow> 'p set" where "q_all f = set (pa_items (q_pipes f))"
definition q_actives :: "'p fq \<Rightarrow> 'p set" where "q_actives f = region (q_active f) (q_pipes f)"

lemma fq_ok_new: "fq_ok fq_new"
  by (simp add: fq_ok_def fq_new_def pa_ok_new)

lemma fq_deactivate_law:
  assumes "fq_ok f" "p \<in> q_actives f"
  shows "\<exists>f'. fq_deactivate (pa_pos p (q_pipes f)) f = Some f' \<and> fq_ok f' \<and> q_all f' = q_all f \<and> q_actives f' = q_actives f - {p} \<and>
    q_more f' = q_more f \<and> Suc (q_active f') = q_active f \<and> q_active f' \<le> pa_pos p (q_pipes f')"
proof -
  let ?a = "q_pipes f"
  have k: "pa_ok ?a" "q_active f \<le> pa_size ?a" using assms(1) by (auto simp: fq_ok_def)
  obtain n where n: "q_active f = Suc n" using assms(2) by (cases "q_active f") (auto simp: q_actives_def)
  have p: "pa_pos p ?a \<le> n" "p \<in> q_all f" using assms(2) n by (auto simp: q_actives_def q_all_def region_def)
  obtain a' where a': "pa_swap (pa_pos p ?a) n ?a = Some a'" using pa_swap_some [OF k(1), of "pa_pos p ?a" n] p n k by auto
  note ok = pa_swap_ok [OF k(1) a']
  have "region n a' = region (Suc n) ?a - {p}" "pa_pos p a' = n" using region_swap_out [OF k(1) _ a'] assms(2) n by (simp_all add: q_actives_def)
  moreover have "if n = 0 then (if q_current f = n then 0 else q_current f) = 0 else (if q_current f = n then 0 else q_current f) < n"
    using assms(1) n by (auto simp: fq_ok_def)
  ultimately show ?thesis using a' n ok k by (auto simp: fq_deactivate_def fq_ok_def q_actives_def q_all_def Let_def)
qed

lemma fq_attach_law:
  assumes "fq_ok f" "p \<notin> q_all f"
  shows "\<exists>f'. fq_attach p f = Some f' \<and> fq_ok f' \<and> q_all f' = insert p (q_all f) \<and> q_actives f' = insert p (q_actives f) \<and> q_more f' = q_more f"
proof -
  let ?a = "pa_push_back p (q_pipes f)"
  have k: "pa_ok (q_pipes f)" "q_active f \<le> pa_size (q_pipes f)" using assms(1) by (auto simp: fq_ok_def)
  note pl = pa_push_back_law [OF k(1) assms(2) [unfolded q_all_def]]
  have reg: "region (q_active f) ?a = region (q_active f) (q_pipes f)"
    using pl(2,4) pl(5) k(2) assms(2) by (auto simp: region_def q_all_def) metis+
  have pp: "p \<in> set (pa_items ?a)" "pa_pos p ?a = pa_size ?a - 1" using pl by simp_all
  obtain a' where a': "pa_swap (q_active f) (pa_size ?a - 1) ?a = Some a'"
    using pa_swap_some [OF pl(1), of "q_active f" "pa_size ?a - 1"] k pl(3) by auto
  note ok = pa_swap_ok [OF pl(1) a']
  have "pa_swap (pa_pos p ?a) (q_active f) ?a = Some a'" using a' pp(2) pa_swap_commute [OF pl(1)] by simp
  then have "region (Suc (q_active f)) a' = insert p (region (q_active f) (q_pipes f))"
    using region_swap_in(1) [OF pl(1) pp(1)] pp(2) pl(3) k reg by simp
  then show ?thesis using a' ok pl k assms(1) by (auto simp: fq_attach_def fq_ok_def q_actives_def q_all_def Let_def split: if_splits)
qed

lemma fq_attach_active: "fq_attach p f = Some f' \<Longrightarrow> q_active f' = q_active f + 1"
  by (auto simp: fq_attach_def Let_def split: bind_splits)

lemma fq_activated_law:
  assumes "fq_ok f" "p \<in> q_all f" "p \<notin> q_actives f"
  shows "\<exists>f'. fq_activated p f = Some f' \<and> fq_ok f' \<and> q_all f' = q_all f \<and> q_actives f' = insert p (q_actives f) \<and> q_more f' = q_more f"
proof -
  let ?a = "q_pipes f"
  have k: "pa_ok ?a" "q_active f \<le> pa_size ?a" "p \<in> set (pa_items ?a)" using assms(1,2) by (auto simp: fq_ok_def q_all_def)
  have p: "q_active f \<le> pa_pos p ?a" "pa_pos p ?a < pa_size ?a"
    using assms(3) k(3) pa_pos_less [OF k(1,3)] by (auto simp: q_actives_def region_def)
  obtain a where a: "pa_swap (pa_pos p ?a) (q_active f) ?a = Some a" using pa_swap_some [OF k(1) p(2), of "q_active f"] p by auto
  note ok = pa_swap_ok [OF k(1) a]
  have "region (Suc (q_active f)) a = insert p (region (q_active f) ?a)" using region_swap_in(1) [OF k(1,3) p(1) a] .
  then show ?thesis using a ok k p assms(1) by (auto simp: fq_activated_def fq_ok_def q_actives_def q_all_def split: if_splits)
qed

lemma fq_pipe_terminated_law:
  assumes "fq_ok f" "p \<in> q_all f"
  shows "\<exists>f'. fq_pipe_terminated p f = Some f' \<and> fq_ok f' \<and> q_all f' = q_all f - {p} \<and> q_actives f' = q_actives f - {p} \<and> q_more f' = q_more f"
proof -
  let ?i = "pa_pos p (q_pipes f)"
  have "\<exists>g. (if ?i < q_active f then fq_deactivate ?i f else Some f) = Some g \<and> fq_ok g \<and> q_all g = q_all f \<and> q_actives g = q_actives f - {p} \<and>
      q_more g = q_more f \<and> q_active g \<le> pa_pos p (q_pipes g)"
  proof (cases "?i < q_active f")
    case True
    then have "p \<in> q_actives f" using assms(2) by (simp add: q_actives_def q_all_def region_def)
    then show ?thesis using fq_deactivate_law [OF assms(1), of p] True by auto
  next
    case False
    then have "p \<notin> q_actives f" by (simp add: q_actives_def region_def)
    then show ?thesis using False assms(1) by auto
  qed
  then obtain g where g: "(if ?i < q_active f then fq_deactivate ?i f else Some f) = Some g" "fq_ok g" "q_all g = q_all f" "q_actives g = q_actives f - {p}"
    "q_more g = q_more f" "q_active g \<le> pa_pos p (q_pipes g)" by blast
  have k: "pa_ok (q_pipes g)" "p \<in> set (pa_items (q_pipes g))" using g(2,3) assms(2) by (auto simp: fq_ok_def q_all_def)
  obtain a where a: "pa_erase p (q_pipes g) = Some a" "pa_ok a" "set (pa_items a) = set (pa_items (q_pipes g)) - {p}" "Suc (pa_size a) = pa_size (q_pipes g)"
    using pa_erase_law [OF k] by blast
  have "region (q_active g) a = region (q_active g) (q_pipes g)" using region_erase [OF k a(1) g(6)] .
  moreover have "q_active g \<le> pa_size a" using pa_pos_less [OF k] g(6) a(4) by simp
  moreover have "fq_pipe_terminated p f = Some (g\<lparr>q_pipes := a\<rparr>)"
    unfolding fq_pipe_terminated_def Let_def g(1) bind.bind_lunit a(1) by simp
  ultimately show ?thesis using a g by (auto simp: fq_ok_def q_actives_def q_all_def)
qed

section \<open>Receiving\<close>

lemma fq_current:
  assumes "fq_ok f" "q_active f > 0"
  shows "\<exists>p. pa_at (q_current f) (q_pipes f) = Some p \<and> p \<in> q_actives f \<and> pa_pos p (q_pipes f) = q_current f"
proof -
  have k: "pa_ok (q_pipes f)" "q_current f < q_active f" "q_active f \<le> pa_size (q_pipes f)" using assms by (auto simp: fq_ok_def)
  then have "pa_pos (pa_items (q_pipes f) ! q_current f) (q_pipes f) = q_current f" by (intro pa_pos_nth) simp_all
  then show ?thesis using k by (auto simp: pa_at_def q_actives_def region_def)
qed

text \<open>
  What a receive does to the pipes: those of \<open>E\<close> were read and had nothing, the pipe that served the message was read once, and no
  other pipe was touched.
\<close>

definition fq_received ::
  "('s \<Rightarrow> (msg option \<times> 's) option) \<Rightarrow> 'p fq \<Rightarrow> ('p \<Rightarrow> 's) \<Rightarrow> (msg \<times> 'p) option \<Rightarrow> 'p fq \<Rightarrow> ('p \<Rightarrow> 's) \<Rightarrow> bool" where
  "fq_received rd f w r f' w' \<longleftrightarrow> fq_ok f' \<and> q_all f' = q_all f \<and> q_actives f' \<subseteq> q_actives f \<and>
     (\<forall>q \<in> q_actives f - q_actives f'. rd (w q) = Some (None, w' q)) \<and>
     (case r of
        None \<Rightarrow> q_actives f' = {} \<and> q_more f' = q_more f \<and> (\<forall>q. q \<notin> q_actives f \<longrightarrow> w' q = w q)
      | Some (m, p) \<Rightarrow> p \<in> q_actives f' \<and> rd (w p) = Some (Some m, w' p) \<and> q_more f' = is_more m \<and>
          (is_more m \<longrightarrow> pa_at (q_current f') (q_pipes f') = Some p) \<and> (\<forall>q. q \<noteq> p \<and> (q \<in> q_actives f' \<or> q \<notin> q_actives f) \<longrightarrow> w' q = w q))"

lemma fq_received_skip:
  assumes p: "p \<in> q_actives f" "rd (w p) = Some (None, s)" and g: "q_all g = q_all f" "q_actives g = q_actives f - {p}" "q_more g = q_more f"
    and r: "fq_received rd g (w(p := s)) r f' w'"
  shows "fq_received rd f w r f' w'"
proof -
  have sub: "q_actives f' \<subseteq> q_actives f - {p}" and ok: "fq_ok f'" "q_all f' = q_all f"
    and em: "\<forall>q \<in> q_actives f - {p} - q_actives f'. rd ((w(p := s)) q) = Some (None, w' q)"
    using r g by (simp_all add: fq_received_def)
  have wp: "w' p = s" and rest: "case r of
        None \<Rightarrow> q_actives f' = {} \<and> q_more f' = q_more f \<and> (\<forall>q. q \<notin> q_actives f \<longrightarrow> w' q = w q)
      | Some (m, p) \<Rightarrow> p \<in> q_actives f' \<and> rd (w p) = Some (Some m, w' p) \<and> q_more f' = is_more m \<and>
          (is_more m \<longrightarrow> pa_at (q_current f') (q_pipes f') = Some p) \<and> (\<forall>q. q \<noteq> p \<and> (q \<in> q_actives f' \<or> q \<notin> q_actives f) \<longrightarrow> w' q = w q)"
    using r g p sub by (auto simp: fq_received_def split: option.splits if_splits)
  have "\<forall>q \<in> q_actives f - q_actives f'. rd (w q) = Some (None, w' q)"
  proof
    fix q assume q: "q \<in> q_actives f - q_actives f'"
    show "rd (w q) = Some (None, w' q)"
    proof (cases "q = p")
      case True then show ?thesis using p(2) wp by simp
    next
      case False then show ?thesis using em q by (auto dest!: bspec [of _ _ q])
    qed
  qed
  then show ?thesis unfolding fq_received_def using ok sub rest by blast
qed

lemma fq_recvpipe_law:
  assumes "fq_ok f" "\<forall>p \<in> q_actives f. rd (w p) \<noteq> None"
    "q_more f \<Longrightarrow> \<exists>p m s. pa_at (q_current f) (q_pipes f) = Some p \<and> 0 < q_active f \<and> rd (w p) = Some (Some m, s)"
  shows "\<exists>r f' w'. fq_recvpipe rd (f, w) = Some (r, f', w') \<and> fq_received rd f w r f' w'"
  using assms
proof (induction "q_active f" arbitrary: f w)
  case 0
  have "fq_recvpipe rd (f, w) = Some (None, f, w)" using 0 by (subst fq_recvpipe.simps) simp
  then show ?case using 0 by (auto simp: fq_received_def q_actives_def)
next
  case (Suc n)
  obtain p where p: "pa_at (q_current f) (q_pipes f) = Some p" "p \<in> q_actives f" "pa_pos p (q_pipes f) = q_current f"
    using fq_current [OF Suc.prems(1)] Suc.hyps(2) by auto
  obtain r s where rd: "rd (w p) = Some (r, s)" using Suc.prems(2) p(2) by fastforce
  show ?case
  proof (cases r)
    case (Some m)
    let ?f = "f\<lparr>q_more := is_more m, q_current := (if \<not> is_more m then (q_current f + 1) mod q_active f else q_current f)\<rparr>"
    have "fq_recvpipe rd (f, w) = Some (Some (m, p), ?f, w(p := s))"
      using p(1) rd Some Suc.hyps(2) by (subst fq_recvpipe.simps) simp
    moreover have "fq_ok ?f" using Suc.prems(1) Suc.hyps(2) by (auto simp: fq_ok_def)
    then have "fq_received rd f w (Some (m, p)) ?f (w(p := s))" using p rd Some by (auto simp: fq_received_def q_actives_def q_all_def)
    ultimately show ?thesis by blast
  next
    case None
    then have more: "\<not> q_more f" using Suc.prems(3) p(1) rd by auto
    obtain g where g: "fq_deactivate (q_current f) f = Some g" "fq_ok g" "q_all g = q_all f" "q_actives g = q_actives f - {p}" "q_more g = q_more f"
      "n = q_active g" using fq_deactivate_law [OF Suc.prems(1) p(2)] p(3) Suc.hyps(2) by auto
    have "fq_recvpipe rd (f, w) = fq_recvpipe rd (g, w(p := s))"
      using p(1) rd None g(1) more Suc.hyps(2) by (subst fq_recvpipe.simps) simp
    moreover have "\<exists>r f' w'. fq_recvpipe rd (g, w(p := s)) = Some (r, f', w') \<and> fq_received rd g (w(p := s)) r f' w'"
      using Suc.hyps(1) [OF g(6) g(2), of "w(p := s)"] Suc.prems(2) g(4,5) more by auto
    ultimately show ?thesis using fq_received_skip [where w = w and s = s and p = p and rd = rd, OF p(2) rd [unfolded None] g(3,4,5)] by fastforce
  qed
qed

text \<open>Receiving \<open>n\<close> messages one after the other: the pipes that served them, while messages keep coming.\<close>

fun fq_served ::
  "('s \<Rightarrow> (msg option \<times> 's) option) \<Rightarrow> nat \<Rightarrow> 'p fq \<times> ('p \<Rightarrow> 's) \<Rightarrow> 'p list option" where
  "fq_served rd 0 fw = Some []"
| "fq_served rd (Suc n) fw =
     (case fq_recvpipe rd fw of
        Some (Some (m, p), fw') \<Rightarrow> map_option ((#) p) (fq_served rd n fw')
      | _ \<Rightarrow> None)"

lemma fq_recv_ready:
  assumes "fq_ok f" "q_active f > 0" "pa_at (q_current f) (q_pipes f) = Some p" "rd (w p) = Some (Some m, s)" "\<not> is_more m"
  shows "fq_recvpipe rd (f, w) = Some (Some (m, p), f\<lparr>q_more := False, q_current := Suc (q_current f) mod q_active f\<rparr>, w(p := s))"
  using assms by (subst fq_recvpipe.simps) simp

text \<open>\<open>n\<close> whole messages are waiting in the pipe.\<close>

fun holds_msgs :: "('s \<Rightarrow> (msg option \<times> 's) option) \<Rightarrow> nat \<Rightarrow> 's \<Rightarrow> bool" where
  "holds_msgs rd 0 s = True"
| "holds_msgs rd (Suc n) s = (case rd s of Some (Some m, s') \<Rightarrow> \<not> is_more m \<and> holds_msgs rd n s' | _ \<Rightarrow> False)"

lemma holds_msgs_Suc: "holds_msgs rd (Suc n) s \<Longrightarrow> \<exists>m s'. rd s = Some (Some m, s') \<and> \<not> is_more m \<and> holds_msgs rd n s'"
  by (auto split: option.splits)

lemma holds_msgs_mono: "holds_msgs rd (Suc n) s \<Longrightarrow> holds_msgs rd n s"
proof (induction n arbitrary: s)
  case (Suc n)
  obtain m s' where "rd s = Some (Some m, s')" "\<not> is_more m" "holds_msgs rd (Suc n) s'" using holds_msgs_Suc [OF Suc.prems] by blast
  then show ?case using Suc.IH by simp
qed simp

lemma fq_served_ready:
  assumes "fq_ok f" "q_active f > 0" "\<forall>p \<in> q_actives f. holds_msgs rd n (w p)"
  shows "fq_served rd n (f, w) = Some (map (\<lambda>k. pa_items (q_pipes f) ! ((q_current f + k) mod q_active f)) [0..<n])"
  using assms
proof (induction n arbitrary: f w)
  case (Suc n)
  obtain p where p: "pa_at (q_current f) (q_pipes f) = Some p" "p \<in> q_actives f" using fq_current [OF Suc.prems(1,2)] by auto
  have cur: "q_current f < q_active f" using Suc.prems(1,2) by (auto simp: fq_ok_def)
  have pn: "p = pa_items (q_pipes f) ! (q_current f mod q_active f)" using p(1) cur by (auto simp: pa_at_def split: if_splits)
  obtain m s where m: "rd (w p) = Some (Some m, s)" "\<not> is_more m" "holds_msgs rd n s" using Suc.prems(3) p(2) holds_msgs_Suc by meson
  let ?f = "f\<lparr>q_more := False, q_current := Suc (q_current f) mod q_active f\<rparr>"
  have "\<forall>q \<in> q_actives ?f. holds_msgs rd n ((w(p := s)) q)"
    using Suc.prems(3) m(3) holds_msgs_mono [of rd n] by (auto simp: q_actives_def simp del: holds_msgs.simps)
  moreover have "fq_ok ?f" "0 < q_active ?f" using Suc.prems(1,2) by (auto simp: fq_ok_def)
  ultimately have "fq_served rd n (?f, w(p := s)) = Some (map (\<lambda>k. pa_items (q_pipes f) ! ((Suc (q_current f) mod q_active f + k) mod q_active f)) [0..<n])"
    by (subst Suc.IH) simp_all
  then show ?case
    using fq_recv_ready [where w = w and p = p and rd = rd, OF Suc.prems(1,2) p(1) m(1,2)] pn
    by (simp add: map_upt_Suc mod_add_left_eq del: upt_Suc)
qed simp

lemma rotation_distinct:
  assumes "c < (n :: nat)"
  shows "distinct (map (\<lambda>k. (c + k) mod n) [0..<n]) \<and> set (map (\<lambda>k. (c + k) mod n) [0..<n]) = {..<n}"
proof -
  have inj: "inj_on (\<lambda>k. (c + k) mod n) {0..<n}"
  proof (rule inj_onI)
    fix x y assume a: "x \<in> {0..<n}" "y \<in> {0..<n}" "(c + x) mod n = (c + y) mod n"
    have "(c + x) mod n = (if c + x < n then c + x else c + x - n)" "(c + y) mod n = (if c + y < n then c + y else c + y - n)"
      using a(1,2) assms by (auto simp: le_mod_geq)
    then show "x = y" using a assms by (auto split: if_splits)
  qed
  have "(\<lambda>k. (c + k) mod n) ` {0..<n} = {..<n}"
    using inj assms by (intro card_subset_eq) (auto simp: card_image)
  then show ?thesis using inj by (simp add: distinct_map)
qed

text \<open>C37. Fair queueing is round robin. When every active pipe has \<open>n\<close> whole messages waiting, \<open>n\<close> receives all return a message, served
  by the active pipes in cyclic order from the current one; as many receives as there are active pipes serve each of them
  exactly once.
\<close>

theorem fq_round_robin:
  assumes "fq_ok f" "q_active f > 0" "\<forall>p \<in> q_actives f. holds_msgs rd n (w p)"
  shows "\<exists>ps. fq_served rd n (f, w) = Some ps \<and> ps = map (\<lambda>k. pa_items (q_pipes f) ! ((q_current f + k) mod q_active f)) [0..<n] \<and>
    (n = q_active f \<longrightarrow> distinct ps \<and> set ps = q_actives f)"
proof (intro exI conjI impI)
  let ?ps = "map (\<lambda>k. pa_items (q_pipes f) ! ((q_current f + k) mod q_active f)) [0..<n]"
  show "fq_served rd n (f, w) = Some ?ps" using fq_served_ready [OF assms] .
  show "?ps = ?ps" ..
  assume n: "n = q_active f"
  let ?is = "map (\<lambda>k. (q_current f + k) mod q_active f) [0..<n]"
  have k: "pa_ok (q_pipes f)" "q_active f \<le> pa_size (q_pipes f)" "q_current f < q_active f" using assms(1,2) by (auto simp: fq_ok_def)
  note rot = rotation_distinct [OF k(3), folded n]
  have ps: "?ps = map ((!) (pa_items (q_pipes f))) ?is" by simp
  have nth: "\<And>i. i < n \<Longrightarrow> pa_pos (pa_items (q_pipes f) ! i) (q_pipes f) = i" using pa_pos_nth [OF k(1)] k(2) n by simp
  have "inj_on ((!) (pa_items (q_pipes f))) {..<n}" by (rule inj_on_inverseI [where g = "\<lambda>p. pa_pos p (q_pipes f)"]) (simp add: nth)
  then show "distinct ?ps" unfolding ps distinct_map [of "(!) (pa_items (q_pipes f))"] using rot n by (simp del: distinct_map)
  have "set ?ps = (!) (pa_items (q_pipes f)) ` {..<n}" unfolding ps set_map using rot n by simp
  then show "set ?ps = q_actives f" using region_take [OF k(1)] k(2) n by (simp add: q_actives_def nth_image lessThan_atLeast0)
qed

theorem fq_round_robin_witness:
  "\<exists>ps. fq_served (\<lambda>k. if k > 0 then Some (Some msg_init, k - 1) else Some (None, k)) 2
      (the (Option.bind (fq_attach CHR ''a'' fq_new) (fq_attach CHR ''b'')), \<lambda>_. 2 :: nat) = Some ps \<and> distinct ps \<and> length ps = 2"
proof -
  let ?f = "the (Option.bind (fq_attach CHR ''a'' fq_new) (fq_attach CHR ''b''))"
  let ?rd = "\<lambda>k :: nat. if k > 0 then Some (Some msg_init, k - 1) else Some (None, k)"
  obtain f1 where f1: "fq_attach CHR ''a'' fq_new = Some f1" "fq_ok f1" "q_all f1 = {CHR ''a''}"
    using fq_attach_law [OF fq_ok_new, of "CHR ''a''"] by (auto simp: q_all_def fq_new_def pa_new_def)
  obtain f2 where f2: "fq_attach CHR ''b'' f1 = Some f2" "fq_ok f2" using fq_attach_law [OF f1(2), of "CHR ''b''"] f1(3) by auto
  have f: "fq_ok ?f" "q_active ?f = 2" using f1(1) f2 fq_attach_active [OF f1(1)] fq_attach_active [OF f2(1)] by (simp_all add: fq_new_def)
  have "holds_msgs ?rd 2 2" by (simp add: eval_nat_numeral is_more_def msg_init_def has_flag_def flag_defs)
  then have "\<forall>p \<in> q_actives ?f. holds_msgs ?rd 2 ((\<lambda>_. 2 :: nat) p)" by blast
  from fq_round_robin [OF f(1) _ this] f(2) obtain ps where "fq_served ?rd 2 (?f, \<lambda>_. 2) = Some ps" "distinct ps"
    "ps = map (\<lambda>k. pa_items (q_pipes ?f) ! ((q_current ?f + k) mod q_active ?f)) [0..<2]" by auto
  then show ?thesis by (intro exI [of _ ps]) simp
qed

end
