(* ===== verification/Mtrie.thy ===== *)
theory Mtrie
  imports Node_Table
begin

text \<open>
  The multi-trie \<^verbatim>\<open>mtrie_t\<close> (\<^verbatim>\<open>src/src/pipe/mtrie_impl.hpp\<close>), which maps prefixes to sets of pipes. The two
  \<^verbatim>\<open>rm\<close> functions drive an explicit stack that simulates a recursion over the trie; the model is that
  recursion. Pipes are numbered; the \<^verbatim>\<open>std::set\<close> of a node is the ordered list of its elements, a null
  pointer \<^const>\<open>None\<close>.
\<close>

datatype rm_result = Not_found | Last_value_removed | Values_remain

datatype mnode = Mnode (mpipes: "nat list option") (mkids: "mnode tbl")

definition new_mnode :: mnode where
  "new_mnode = Mnode None empty_tbl"

definition mnode_redundant :: "mnode \<Rightarrow> bool" where
  "mnode_redundant n \<longleftrightarrow> mpipes n = None \<and> t_live (mkids n) = 0"

definition set_elems :: "nat list option \<Rightarrow> nat list" where
  "set_elems ps = (case ps of None \<Rightarrow> [] | Some xs \<Rightarrow> xs)"

fun mnode_add :: "bytes \<Rightarrow> nat \<Rightarrow> mnode \<Rightarrow> (mnode \<times> bool) option" where
  "mnode_add [] v (Mnode ps t) = Some (Mnode (Some (insort_insert v (set_elems ps))) t, ps = None)"
| "mnode_add (b # bs) v (Mnode ps t) =
     (let c = unat b;
          t2 = tbl_create new_mnode c (tbl_extend c t)
      in case tbl_slot c t2 of
           None \<Rightarrow> None
         | Some n \<Rightarrow>
             (case mnode_add bs v n of
                None \<Rightarrow> None
              | Some (n', ret) \<Rightarrow> Some (Mnode ps (tbl_set c (Some n') t2), ret)))"

text \<open>Removal of one entry.\<close>

fun mnode_rm :: "bytes \<Rightarrow> nat \<Rightarrow> mnode \<Rightarrow> (mnode \<times> rm_result) option" where
  "mnode_rm [] v (Mnode ps t) =
     (case ps of
        None \<Rightarrow> Some (Mnode ps t, Not_found)
      | Some xs \<Rightarrow>
          let erased = v \<in> set xs; xs' = removeAll v xs in
          if xs' = [] then slk_assert erased (Some (Mnode None t, Last_value_removed))
          else Some (Mnode (Some xs') t, if erased then Values_remain else Not_found))"
| "mnode_rm (b # bs) v (Mnode ps t) =
     (let c = unat b in
      if t_count t = 0 \<or> \<not> in_range c t then Some (Mnode ps t, Not_found)
      else case tbl_slot c t of
        None \<Rightarrow> Some (Mnode ps t, Not_found)
      | Some n \<Rightarrow>
          (case mnode_rm bs v n of
             None \<Rightarrow> None
           | Some (n', ret) \<Rightarrow>
               if mnode_redundant n' then map_option (\<lambda>t'. (Mnode ps t', ret)) (mtrie_prune c t)
               else Some (Mnode ps (tbl_set c (Some n') t), ret)))"

text \<open>Removal of a pipe everywhere. After the children of a node have been visited they replace the
  old ones; the redundant ones are deleted while the table is swept from left to right, the first and
  the last of the others are the new bounds, and the table is compacted.\<close>

fun sweep_children :: "('n \<Rightarrow> bool) \<Rightarrow> nat \<Rightarrow> 'n option list \<Rightarrow> nat \<Rightarrow> nat \<Rightarrow> nat
    \<Rightarrow> ('n option list \<times> nat \<times> nat \<times> nat) option" where
  "sweep_children red c [] live new_min new_max = Some ([], live, new_min, new_max)"
| "sweep_children red c (None # xs) live new_min new_max =
     map_option (\<lambda>(ys, r). (None # ys, r)) (sweep_children red (c + 1) xs live new_min new_max)"
| "sweep_children red c (Some n # xs) live new_min new_max =
     (if red n then
        slk_assert (live > 0)
          (map_option (\<lambda>(ys, r). (None # ys, r)) (sweep_children red (c + 1) xs (dec_ushort live) new_min new_max))
      else
        map_option (\<lambda>(ys, r). (Some n # ys, r))
          (sweep_children red (c + 1) xs live
             (if c < new_min then uchar c else new_min) (if c > new_max then uchar c else new_max)))"

definition tbl_sweep :: "('n \<Rightarrow> bool) \<Rightarrow> 'n tbl \<Rightarrow> 'n tbl option" where
  "tbl_sweep red t =
     (let mn = t_min t; n = t_count t in
      if n = 0 then Some t
      else if n = 1 then
        (case node_of (t_next t) of
           None \<Rightarrow> None
         | Some x \<Rightarrow>
             if red x then slk_assert (dec_ushort (t_live t) = 0) (Some (Tbl mn 0 (dec_ushort (t_live t)) (Node None)))
             else Some t)
      else
        (case sweep_children red mn (table_of (t_next t)) (t_live t) (uchar (mn + n - 1)) mn of
           None \<Rightarrow> None
         | Some (xs, live, new_min, new_max) \<Rightarrow>
             if live = 0 then Some (Tbl mn 0 live (Node None))
             else if live = 1 then
               slk_assert (new_min = new_max \<and> new_min \<ge> mn \<and> new_min < mn + n)
                 (case xs ! (new_min - mn) of
                    None \<Rightarrow> None
                  | Some x \<Rightarrow> Some (Tbl new_min 1 live (Node (Some x))))
             else if new_min > mn \<or> new_max < mn + n - 1 then
               slk_assert (new_max - new_min + 1 > 1 \<and> new_min \<ge> mn \<and> new_max \<le> mn + n - 1 \<and>
                   new_max - new_min + 1 < n)
                 (let n' = ushort (new_max - new_min + 1)
                  in Some (Tbl new_min n' live (Table (take n' (drop (new_min - mn) xs)))))
             else Some (Tbl mn n live (Table xs))))"

text \<open>The table with new children in the old places.\<close>

definition tbl_with :: "'n tbl \<Rightarrow> 'n option list \<Rightarrow> 'n tbl" where
  "tbl_with t ys = Tbl (t_min t) (t_count t) (t_live t)
     (if t_count t = 0 then t_next t else if t_count t = 1 then Node (hd ys) else Table ys)"

text \<open>The result: the node and the calls of the callback in order (the prefixes it is called with);
  \<open>buff\<close> is the path to the node.\<close>

fun mnode_rm_value :: "nat \<Rightarrow> bool \<Rightarrow> bytes \<Rightarrow> mnode \<Rightarrow> (mnode \<times> bytes list) option" where
  "mnode_rm_value v call_on_uniq buff (Mnode ps t) =
     (let xs' = removeAll v (set_elems ps);
          hit = (v \<in> set (set_elems ps));
          calls0 = (if hit \<and> (\<not> call_on_uniq \<or> xs' = []) then [buff] else []);
          ps' = (if hit \<and> xs' = [] then None else map_option (removeAll v) ps);
          rs = map (\<lambda>(c, x). map_option (\<lambda>n. mnode_rm_value v call_on_uniq (buff @ [of_nat c]) n) x) (tbl_entries t)
      in if Some None \<in> set rs then None
         else map_option (\<lambda>t'. (Mnode ps' t',
                calls0 @ concat (map (\<lambda>r. case r of None \<Rightarrow> [] | Some q \<Rightarrow> snd (the q)) rs)))
              (tbl_sweep mnode_redundant (tbl_with t (map (map_option (\<lambda>q. fst (the q))) rs))))"

fun mnode_match :: "bytes \<Rightarrow> mnode \<Rightarrow> nat list" where
  "mnode_match [] (Mnode ps t) = set_elems ps"
| "mnode_match (b # bs) (Mnode ps t) =
     set_elems ps @
     (if t_count t = 0 then []
      else if t_count t = 1 then
        if unat b \<noteq> t_min t then []
        else (case node_of (t_next t) of None \<Rightarrow> [] | Some n \<Rightarrow> mnode_match bs n)
      else if \<not> in_range (unat b) t then []
      else (case table_of (t_next t) ! (unat b - t_min t) of None \<Rightarrow> [] | Some n \<Rightarrow> mnode_match bs n))"

record mtrie =
  mt_num_prefixes :: u32
  mt_root :: mnode

definition new_mtrie :: mtrie where
  "new_mtrie = \<lparr>mt_num_prefixes = 0, mt_root = new_mnode\<rparr>"

definition mtrie_add :: "bytes \<Rightarrow> nat \<Rightarrow> mtrie \<Rightarrow> (mtrie \<times> bool) option" where
  "mtrie_add p v m = map_option (\<lambda>(n, ret).
     (m\<lparr>mt_root := n, mt_num_prefixes := mt_num_prefixes m + (if ret then 1 else 0)\<rparr>, ret)) (mnode_add p v (mt_root m))"

definition mtrie_rm :: "bytes \<Rightarrow> nat \<Rightarrow> mtrie \<Rightarrow> (mtrie \<times> rm_result) option" where
  "mtrie_rm p v m =
     (case mnode_rm p v (mt_root m) of
        None \<Rightarrow> None
      | Some (n, ret) \<Rightarrow>
          if ret = Last_value_removed
          then slk_assert (mt_num_prefixes m > 0)
            (Some (m\<lparr>mt_root := n, mt_num_prefixes := mt_num_prefixes m - 1\<rparr>, ret))
          else Some (m\<lparr>mt_root := n\<rparr>, ret))"

definition mtrie_rm_value :: "nat \<Rightarrow> bool \<Rightarrow> mtrie \<Rightarrow> (mtrie \<times> bytes list) option" where
  "mtrie_rm_value v call_on_uniq m =
     map_option (\<lambda>(n, calls). (m\<lparr>mt_root := n\<rparr>, calls)) (mnode_rm_value v call_on_uniq [] (mt_root m))"

definition mtrie_match :: "bytes \<Rightarrow> mtrie \<Rightarrow> nat list" where
  "mtrie_match d m = mnode_match d (mt_root m)"

section \<open>Sweeping a table\<close>

definition keep :: "('n \<Rightarrow> bool) \<Rightarrow> 'n option \<Rightarrow> 'n option" where
  "keep red x = (case x of None \<Rightarrow> None | Some n \<Rightarrow> if red n then None else Some n)"

lemma sweep_children_spec:
  assumes "c + length xs \<le> 256" "live_count xs \<le> live" "live < 65536"
  shows "\<exists>mn' mx'. sweep_children red c xs live mn mx =
      Some (map (keep red) xs, live - (live_count xs - live_count (map (keep red) xs)), mn', mx') \<and>
    live_count (map (keep red) xs) \<le> live_count xs \<and>
    mn' \<le> mn \<and> mx \<le> mx' \<and>
    (\<forall>i<length xs. map (keep red) xs ! i \<noteq> None \<longrightarrow> mn' \<le> c + i \<and> c + i \<le> mx') \<and>
    (mn' = mn \<or> (\<exists>i<length xs. map (keep red) xs ! i \<noteq> None \<and> mn' = c + i)) \<and>
    (mx' = mx \<or> (\<exists>i<length xs. map (keep red) xs ! i \<noteq> None \<and> mx' = c + i))"
  using assms
proof (induction xs arbitrary: c live mn mx)
  case Nil
  then show ?case by simp
next
  case (Cons x xs)
  have shift: "(\<forall>i<length (x # xs). P i) \<longleftrightarrow> P 0 \<and> (\<forall>i<length xs. P (Suc i))"
    "(\<exists>i<length (x # xs). P i) \<longleftrightarrow> P 0 \<or> (\<exists>i<length xs. P (Suc i))" for P
    by (auto simp: less_Suc_eq_0_disj)
  have c: "c + 1 + length xs \<le> 256" using Cons.prems(1) by simp
  show ?case
  proof (cases x)
    case None
    then show ?thesis
      using Cons.IH [OF c, of live mn mx] Cons.prems unfolding shift
      by (auto simp: keep_def)
  next
    case (Some n)
    show ?thesis
    proof (cases "red n")
      case True
      have d: "dec_ushort live = live - 1" "0 < live"
        using Cons.prems(2,3) Some by (auto simp: dec_ushort)
      have l: "live_count xs \<le> live - 1" "live - 1 < 65536" using Cons.prems(2,3) Some by auto
      obtain mn' mx' where IH: "sweep_children red (c + 1) xs (live - 1) mn mx =
          Some (map (keep red) xs, live - 1 - (live_count xs - live_count (map (keep red) xs)), mn', mx')"
        "live_count (map (keep red) xs) \<le> live_count xs" "mn' \<le> mn" "mx \<le> mx'"
        "\<forall>i<length xs. map (keep red) xs ! i \<noteq> None \<longrightarrow> mn' \<le> c + 1 + i \<and> c + 1 + i \<le> mx'"
        "mn' = mn \<or> (\<exists>i<length xs. map (keep red) xs ! i \<noteq> None \<and> mn' = c + 1 + i)"
        "mx' = mx \<or> (\<exists>i<length xs. map (keep red) xs ! i \<noteq> None \<and> mx' = c + 1 + i)"
        using Cons.IH [OF c l, of mn mx] by blast
      have k: "keep red x = None" using Some True by (simp add: keep_def)
      have "sweep_children red c (x # xs) live mn mx =
          Some (map (keep red) (x # xs), live - (live_count (x # xs) - live_count (map (keep red) (x # xs))), mn', mx')"
        using IH(1,2) Some True d k by (simp add: Suc_diff_le)
      then show ?thesis
        using IH(2-7) k Some unfolding shift by - (rule exI [of _ mn'], rule exI [of _ mx'], simp)
    next
      case False
      have u: "uchar c = c" using Cons.prems(1) by simp
      let ?mn = "if c < mn then c else mn" and ?mx = "if c > mx then c else mx"
      have "live_count xs \<le> live" using Cons.prems(2) Some by simp
      then obtain mn' mx' where IH: "sweep_children red (c + 1) xs live ?mn ?mx =
          Some (map (keep red) xs, live - (live_count xs - live_count (map (keep red) xs)), mn', mx')"
        "live_count (map (keep red) xs) \<le> live_count xs" "mn' \<le> ?mn" "?mx \<le> mx'"
        "\<forall>i<length xs. map (keep red) xs ! i \<noteq> None \<longrightarrow> mn' \<le> c + 1 + i \<and> c + 1 + i \<le> mx'"
        "mn' = ?mn \<or> (\<exists>i<length xs. map (keep red) xs ! i \<noteq> None \<and> mn' = c + 1 + i)"
        "mx' = ?mx \<or> (\<exists>i<length xs. map (keep red) xs ! i \<noteq> None \<and> mx' = c + 1 + i)"
        using Cons.IH [OF c _ Cons.prems(3), of ?mn ?mx] by blast
      have k: "keep red x = Some n" using Some False by (simp add: keep_def)
      have "sweep_children red c (x # xs) live mn mx =
          Some (map (keep red) (x # xs), live - (live_count (x # xs) - live_count (map (keep red) (x # xs))), mn', mx')"
        using IH(1,2) Some False u k by (auto split: if_splits)
      moreover have "mn' \<le> mn" "mx \<le> mx'" "mn' \<le> c" "c \<le> mx'" using IH(3,4) by (auto split: if_splits)
      moreover have "mn' = mn \<or> mn' = c \<or> (\<exists>i<length xs. map (keep red) xs ! i \<noteq> None \<and> mn' = c + 1 + i)"
        "mx' = mx \<or> mx' = c \<or> (\<exists>i<length xs. map (keep red) xs ! i \<noteq> None \<and> mx' = c + 1 + i)"
        using IH(6,7) by (auto split: if_splits)
      ultimately show ?thesis
        using IH(2,5) k Some unfolding shift by - (rule exI [of _ mn'], rule exI [of _ mx'], simp)
    qed
  qed
qed

lemma arr_keep_child:
  assumes "2 \<le> length xs"
  shows "tbl_child (arr mn (map (keep red) xs)) = (\<lambda>c. keep red (tbl_child (arr mn xs) c))"
  using assms by (auto simp: fun_eq_iff tbl_child_simps keep_def)

text \<open>An array between its first and its last live entry.\<close>

definition live_span :: "'n option list \<Rightarrow> nat \<Rightarrow> nat \<Rightarrow> bool" where
  "live_span ys i k \<longleftrightarrow> i \<le> k \<and> k < length ys \<and> ys ! i \<noteq> None \<and> ys ! k \<noteq> None \<and>
     (\<forall>j<length ys. ys ! j \<noteq> None \<longrightarrow> i \<le> j \<and> j \<le> k)"

lemma arr_span:
  assumes sp: "live_span ys i k" and lc: "2 \<le> live_count ys" and mn: "mn + length ys \<le> 256"
  defines "ws \<equiv> take (k - i + 1) (drop i ys)"
  shows "length ws = k - i + 1" "live_count ws = live_count ys" "2 \<le> k - i + 1"
    "tbl_wf (arr (mn + i) ws)" "tbl_child (arr (mn + i) ws) = tbl_child (arr mn ys)"
proof -
  have ik: "i \<le> k" "k < length ys" "ys ! i \<noteq> None" "ys ! k \<noteq> None"
    and out: "\<And>j. j < length ys \<Longrightarrow> ys ! j \<noteq> None \<Longrightarrow> i \<le> j \<and> j \<le> k"
    using sp unfolding live_span_def by blast+
  have before: "ys ! j = None" if "j < i" for j using out [of j] that ik by fastforce
  have i: "i < length ys" using ik by simp
  note dr = arr_drop [of i ys, OF before i lc]
  let ?zs = "drop i ys"
  have none: "?zs ! j = None" if "k - i + 1 \<le> j" "j < length ?zs" for j
    using out [of "i + j"] that ik by fastforce
  have m: "k - i + 1 \<le> length ?zs" using ik by simp
  have lcz: "2 \<le> live_count ?zs" using dr(1) lc by simp
  note tk = arr_take [of "k - i + 1" ?zs, OF none m lcz, folded ws_def]
  show len: "length ws = k - i + 1" using m by (simp add: ws_def)
  show lw: "live_count ws = live_count ys" using tk(1) dr(1) by simp
  show m2: "2 \<le> k - i + 1" using tk(2) len by simp
  show "tbl_child (arr (mn + i) ws) = tbl_child (arr mn ys)" using tk(3) dr(3) by simp
  have "ws ! 0 \<noteq> None" "ws ! (k - i) \<noteq> None" using ik by (simp_all add: ws_def)
  then show "tbl_wf (arr (mn + i) ws)"
    using ik len m2 mn by (simp add: tbl_wf_simps)
qed

text \<open>The bounds the sweep finds.\<close>

lemma sweep_bounds:
  fixes xs :: "'n option list"
  assumes t: "mn + length xs \<le> 256" "2 \<le> length xs" and live: "live_count (map (keep red) xs) \<noteq> 0"
  shows "\<exists>i k. live_span (map (keep red) xs) i k \<and>
    sweep_children red mn xs (live_count xs) (mn + length xs - 1) mn =
      Some (map (keep red) xs, live_count (map (keep red) xs), mn + i, mn + k)"
proof -
  let ?n = "length xs" and ?ys = "map (keep red) xs"
  have lvb: "live_count xs < 65536" using live_count_le [of xs] t(1) by simp
  obtain a b where q: "sweep_children red mn xs (live_count xs) (mn + ?n - 1) mn =
        Some (?ys, live_count xs - (live_count xs - live_count ?ys), a, b)" "live_count ?ys \<le> live_count xs"
      "a \<le> mn + ?n - 1" "mn \<le> b" and in_ab: "\<And>i. i < ?n \<Longrightarrow> ?ys ! i \<noteq> None \<Longrightarrow> a \<le> mn + i \<and> mn + i \<le> b"
    and ab: "a = mn + ?n - 1 \<or> (\<exists>i<?n. ?ys ! i \<noteq> None \<and> a = mn + i)"
      "b = mn \<or> (\<exists>i<?n. ?ys ! i \<noteq> None \<and> b = mn + i)"
    using sweep_children_spec [OF t(1) order_refl lvb, of red "mn + ?n - 1" mn] by blast
  obtain i0 where i0: "i0 < ?n" "?ys ! i0 \<noteq> None"
    using live live_count_none [of ?ys] by fastforce
  have a: "\<exists>i<?n. ?ys ! i \<noteq> None \<and> a = mn + i"
  proof (cases "a = mn + ?n - 1")
    case True
    then have "i0 = ?n - 1" using in_ab [OF i0] i0(1) t(2) by linarith
    then show ?thesis using True i0 t(2) by (intro exI [of _ i0]) simp
  qed (use ab(1) in blast)
  have b: "\<exists>i<?n. ?ys ! i \<noteq> None \<and> b = mn + i"
  proof (cases "b = mn")
    case True
    then have "i0 = 0" using in_ab [OF i0] by simp
    then show ?thesis using True i0 by (intro exI [of _ i0]) simp
  qed (use ab(2) in blast)
  obtain i k where ik: "i < ?n" "?ys ! i \<noteq> None" "a = mn + i" "k < ?n" "?ys ! k \<noteq> None" "b = mn + k"
    using a b by blast
  have "live_span ?ys i k"
    unfolding live_span_def using ik in_ab in_ab [OF ik(4,5)] by (auto simp del: nth_map)
  then show ?thesis using q(1,2) ik by auto
qed

lemma tbl_sweep_array:
  assumes t: "mn + length xs \<le> 256" "2 \<le> length xs"
  shows "\<exists>t'. tbl_sweep red (arr mn xs) = Some t' \<and> tbl_wf t' \<and> tbl_child t' = tbl_child (arr mn (map (keep red) xs))"
proof -
  let ?n = "length xs" and ?ys = "map (keep red) xs"
  have n: "?n \<noteq> 0" "?n \<noteq> 1" using t(2) by linarith+
  have u: "uchar (mn + ?n - 1) = mn + ?n - 1" using t by simp
  note unf = tbl_sweep_def Let_def tbl.sel table_of.simps u option.case prod.case
  consider (none) "live_count ?ys = 0" | (one) "live_count ?ys = 1" | (many) "2 \<le> live_count ?ys" by linarith
  then show ?thesis
  proof cases
    case none
    have lvb: "live_count xs < 65536" using live_count_le [of xs] t(1) by simp
    obtain a b where "sweep_children red mn xs (live_count xs) (mn + ?n - 1) mn = Some (?ys, 0, a, b)"
      using sweep_children_spec [OF t(1) order_refl lvb, of red "mn + ?n - 1" mn] none by auto
    then have "tbl_sweep red (arr mn xs) = Some (Tbl mn 0 0 (Node None))" using n unfolding unf by simp
    moreover have "?ys ! i = None" if "i < ?n" for i
      using none live_count_pos [of i ?ys] that by fastforce
    then have "tbl_child (arr mn ?ys) = tbl_child (Tbl mn 0 0 (Node None))"
      using n by (auto simp: fun_eq_iff tbl_child_simps simp del: nth_map)
    ultimately show ?thesis using t by (auto simp: tbl_wf_simps)
  next
    case one
    obtain i k where sp: "live_span ?ys i k"
      "sweep_children red mn xs (live_count xs) (mn + ?n - 1) mn = Some (?ys, 1, mn + i, mn + k)"
      using sweep_bounds [OF t, of red] one by auto
    have ik: "i < ?n" "?ys ! i \<noteq> None" "?ys ! k \<noteq> None" "k < ?n"
      using sp(1) unfolding live_span_def by auto
    have "k = i"
    proof (rule ccontr)
      assume "k \<noteq> i"
      then have "?ys ! k = None" using live_count_unique [OF one _ ik(2)] ik by simp
      then show False using ik(3) by blast
    qed
    then have "tbl_sweep red (arr mn xs) = Some (Tbl (mn + i) 1 1 (Node (?ys ! i)))"
      using n ik sp(2) unfolding unf by (auto simp del: nth_map)
    then show ?thesis
      using arr_single [OF one, of i mn] ik t by (simp add: tbl_wf_simps del: nth_map)
  next
    case many
    obtain i k where sp: "live_span ?ys i k"
      "sweep_children red mn xs (live_count xs) (mn + ?n - 1) mn = Some (?ys, live_count ?ys, mn + i, mn + k)"
      using sweep_bounds [OF t, of red] many by auto
    have ik: "i \<le> k" "k < ?n" using sp(1) unfolding live_span_def by auto
    have "mn + length ?ys \<le> 256" using t(1) by simp
    note ws = arr_span [OF sp(1) many this]
    have "tbl_sweep red (arr mn xs) = Some (arr (mn + i) (take (k - i + 1) (drop i ?ys)))"
    proof (cases "i = 0 \<and> k = ?n - 1")
      case True
      then show ?thesis using n many sp(2) unfolding unf by simp
    next
      case False
      then have "k - i + 1 < ?n" "mn + i > mn \<or> mn + k < mn + ?n - 1" "i \<noteq> k" "mn + k \<le> mn + ?n - 1"
        using ik ws(3) by auto
      then show ?thesis
        using n many sp(2) ik ws(1-3) t(1) unfolding unf by simp
    qed
    then show ?thesis using ws(4,5) by blast
  qed
qed

lemma tbl_sweep_spec:
  assumes "tbl_wf t"
  shows "\<exists>t'. tbl_sweep red t = Some t' \<and> tbl_wf t' \<and> tbl_child t' = (\<lambda>c. keep red (tbl_child t c))"
  using assms
proof (cases rule: tbl_wfE)
  case (table mn xs)
  then show ?thesis using tbl_sweep_array [OF table(2,3), of red] arr_keep_child [OF table(3), of mn red] by simp
qed (auto simp: tbl_sweep_def tbl_wf_simps tbl_child_simps keep_def dec_ushort fun_eq_iff)

lemma tbl_with_spec:
  fixes f :: "nat \<Rightarrow> 'n \<Rightarrow> 'n"
  assumes "tbl_wf t"
  defines "ys \<equiv> map (\<lambda>(c, x). map_option (f c) x) (tbl_entries t)"
  shows "tbl_wf (tbl_with t ys)" "tbl_child (tbl_with t ys) c = map_option (f c) (tbl_child t c)"
proof -
  have "tbl_wf (tbl_with t ys) \<and> tbl_child (tbl_with t ys) c = map_option (f c) (tbl_child t c)"
    using assms(1)
  proof (cases rule: tbl_wfE)
    case (table mn xs)
    have ys: "length ys = length xs" "\<And>i. i < length xs \<Longrightarrow> ys ! i = map_option (f (mn + i)) (xs ! i)"
      using table by (auto simp: ys_def tbl_entries_def)
    have n: "length xs \<noteq> 0" "length xs \<noteq> 1" "0 < length xs" "length xs - 1 < length xs" using table(3) by linarith+
    have "live_count ys = live_count xs"
      unfolding live_count_card using ys by (intro arg_cong [of _ _ card]) auto
    moreover have "ys ! 0 \<noteq> None" "ys ! (length xs - 1) \<noteq> None"
      using table(4,5) ys(2) [of 0] ys(2) [of "length xs - 1"] n by simp_all
    moreover have "tbl_with t ys = Tbl mn (length xs) (live_count xs) (Table ys)"
      using table(1) n(1,2) by (simp add: tbl_with_def)
    ultimately have "tbl_wf (tbl_with t ys)"
      using table(2,3) ys(1) by (simp add: tbl_wf_simps)
    moreover have "tbl_child (tbl_with t ys) c = map_option (f c) (tbl_child t c)"
      using table(1) n ys by (auto simp: tbl_with_def tbl_child_simps)
    ultimately show ?thesis ..
  qed (auto simp: ys_def tbl_with_def tbl_entries_def tbl_wf_simps tbl_child_simps)
  then show "tbl_wf (tbl_with t ys)" "tbl_child (tbl_with t ys) c = map_option (f c) (tbl_child t c)" by blast+
qed

section \<open>The map from prefixes to sets of pipes\<close>

fun mt_lookup :: "mnode \<Rightarrow> bytes \<Rightarrow> nat set" where
  "mt_lookup (Mnode ps t) [] = set (set_elems ps)"
| "mt_lookup (Mnode ps t) (b # bs) =
     (case tbl_child t (unat b) of None \<Rightarrow> {} | Some n \<Rightarrow> mt_lookup n bs)"

inductive mnode_wf :: "mnode \<Rightarrow> bool" where
  mnode_wfI: "tbl_wf t \<Longrightarrow> (\<And>xs. ps = Some xs \<Longrightarrow> xs \<noteq> [] \<and> sorted xs \<and> distinct xs) \<Longrightarrow>
    (\<And>c n. tbl_child t c = Some n \<Longrightarrow> mnode_wf n) \<Longrightarrow>
    (\<And>c n. tbl_child t c = Some n \<Longrightarrow> \<not> mnode_redundant n) \<Longrightarrow> mnode_wf (Mnode ps t)"

inductive_simps mnode_wf_Mnode: "mnode_wf (Mnode ps t)"

lemma new_mnode_wf: "mnode_wf new_mnode"
  by (simp add: new_mnode_def mnode_wf_Mnode)

lemma new_mnode_lookup [simp]: "mt_lookup new_mnode p = {}"
  by (cases p) (simp_all add: new_mnode_def set_elems_def)

lemma mnode_redundant_lookup:
  assumes "mnode_wf n" "mnode_redundant n"
  shows "mt_lookup n p = {}"
proof (cases n)
  case (Mnode ps t)
  then have "ps = None" "tbl_child t c = None" for c
    using assms tbl_live_zero [of t] by (auto simp: mnode_redundant_def mnode_wf_Mnode)
  then show ?thesis using Mnode by (cases p) (auto simp: set_elems_def)
qed

lemma mnode_update:
  assumes "mnode_wf (Mnode ps t)" "tbl_wf t'" "mnode_wf n'" "\<not> mnode_redundant n'"
    "tbl_child t' = (tbl_child t)(unat b \<mapsto> n')"
  shows "mnode_wf (Mnode ps t')" "\<not> mnode_redundant (Mnode ps t')"
    "mt_lookup (Mnode ps t') (a # q) = (if a = b then mt_lookup n' q else mt_lookup (Mnode ps t) (a # q))"
proof -
  show "mnode_wf (Mnode ps t')" using assms by (auto simp: mnode_wf_Mnode split: if_splits)
  show "\<not> mnode_redundant (Mnode ps t')"
    using tbl_live_zero [OF assms(2)] assms(5) by (auto simp: mnode_redundant_def)
  show "mt_lookup (Mnode ps t') (a # q) = (if a = b then mt_lookup n' q else mt_lookup (Mnode ps t) (a # q))"
    using assms(5) by (auto simp: word_unat_eq_iff)
qed

lemma mnode_add_ok:
  "mnode_wf t \<Longrightarrow>
    \<exists>t'. mnode_add p v t = Some (t', mt_lookup t p = {}) \<and> mnode_wf t' \<and> \<not> mnode_redundant t' \<and>
      mt_lookup t' = (mt_lookup t)(p := insert v (mt_lookup t p))"
proof (induction p arbitrary: t)
  case Nil
  obtain ps k where t: "t = Mnode ps k" by (cases t)
  let ?ps = "Some (insort_insert v (set_elems ps))"
  have so: "sorted (set_elems ps)" "distinct (set_elems ps)" "ps = None \<longleftrightarrow> set_elems ps = []"
    using Nil t by (auto simp: mnode_wf_Mnode set_elems_def split: option.splits)
  have ne: "insort_insert v (set_elems ps) \<noteq> []"
    by (metis empty_iff insert_iff list.set(1) set_insort_insert)
  have "mnode_wf (Mnode ?ps k)"
    using Nil t so ne by (auto simp: mnode_wf_Mnode sorted_insort_insert distinct_insort_insert)
  moreover have "mt_lookup (Mnode ?ps k) q = ((mt_lookup (Mnode ps k))([] := insert v (set (set_elems ps)))) q" for q
    by (cases q) (auto simp: set_elems_def set_insort_insert)
  ultimately show ?case using t so(3) by (auto simp: mnode_redundant_def)
next
  case (Cons b bs)
  obtain ps k where t: "t = Mnode ps k" by (cases t)
  let ?c = "unat b"
  let ?k2 = "tbl_create new_mnode ?c (tbl_extend ?c k)"
  have k: "tbl_wf k" "?c < 256" using Cons.prems t by (auto simp: mnode_wf_Mnode)
  define n where "n = (case tbl_child k ?c of None \<Rightarrow> new_mnode | Some n \<Rightarrow> n)"
  have k2: "tbl_wf ?k2" "tbl_child ?k2 = (tbl_child k)(?c \<mapsto> n)"
    using tbl_grow_spec [OF k, of new_mnode] by (simp_all add: n_def)
  have n: "mnode_wf n" "mt_lookup n = (\<lambda>q. mt_lookup t (b # q))"
    using Cons.prems t new_mnode_wf by (auto simp: n_def mnode_wf_Mnode fun_eq_iff split: option.splits)
  have slot: "tbl_slot ?c ?k2 = Some n" using k2(2) tbl_child_in_range [of ?k2 ?c n] by auto
  obtain n' where n': "mnode_add bs v n = Some (n', mt_lookup t (b # bs) = {})" "mnode_wf n'"
    "\<not> mnode_redundant n'" "mt_lookup n' = (mt_lookup n)(bs := insert v (mt_lookup t (b # bs)))"
    using Cons.IH [OF n(1)] unfolding n(2) by blast
  let ?k3 = "tbl_set ?c (Some n') ?k2"
  have k3: "tbl_wf ?k3" "tbl_child ?k3 = (tbl_child k)(?c \<mapsto> n')"
    using tbl_set_spec [OF k2(1), of ?c n'] k2(2) by auto
  note upd = mnode_update [OF Cons.prems [unfolded t] k3(1) n'(2,3) k3(2)]
  have "mt_lookup (Mnode ps ?k3) q = ((mt_lookup t)(b # bs := insert v (mt_lookup t (b # bs)))) q" for q
    using n'(4) n(2) t by (cases q) (auto simp: upd(3) simp del: mt_lookup.simps(2))
  moreover have "mnode_add (b # bs) v t = Some (Mnode ps ?k3, mt_lookup t (b # bs) = {})"
    using slot n'(1) [unfolded t] by (simp only: t mnode_add.simps Let_def option.case prod.case)
  ultimately show ?case using upd(1,2) by blast
qed

lemma mnode_remove:
  assumes "mnode_wf (Mnode ps t)" "tbl_wf t'" "tbl_child t' = (tbl_child t)(unat b := None)"
  shows "mnode_wf (Mnode ps t')"
    "mt_lookup (Mnode ps t') (a # q) = (if a = b then {} else mt_lookup (Mnode ps t) (a # q))"
proof -
  show "mnode_wf (Mnode ps t')" using assms by (auto simp: mnode_wf_Mnode split: if_splits)
  show "mt_lookup (Mnode ps t') (a # q) = (if a = b then {} else mt_lookup (Mnode ps t) (a # q))"
    using assms(3) by (auto simp: word_unat_eq_iff)
qed

text \<open>The result code of removing \<open>v\<close> from the set \<open>s\<close>.\<close>

definition rm_code :: "nat \<Rightarrow> nat set \<Rightarrow> rm_result" where
  "rm_code v s = (if v \<notin> s then Not_found else if s = {v} then Last_value_removed else Values_remain)"

lemma removeAll_empty: "removeAll v xs = [] \<longleftrightarrow> set xs \<subseteq> {v}"
  by (induction xs) auto

lemma mnode_rm_leaf:
  assumes "mnode_wf (Mnode ps k)"
  shows "\<exists>ps'. mnode_rm [] v (Mnode ps k) = Some (Mnode ps' k, rm_code v (set (set_elems ps))) \<and>
    mnode_wf (Mnode ps' k) \<and> set (set_elems ps') = set (set_elems ps) - {v}"
proof (cases ps)
  case None
  then show ?thesis using assms by (simp add: set_elems_def rm_code_def)
next
  case (Some xs)
  have xs: "xs \<noteq> []" "sorted xs" "distinct xs" using assms Some by (simp_all add: mnode_wf_Mnode)
  show ?thesis
  proof (cases "set xs \<subseteq> {v}")
    case True
    then have "set xs = {v}" using xs(1) by (cases xs) auto
    then show ?thesis
      using assms Some True by (auto simp: mnode_wf_Mnode rm_code_def set_elems_def removeAll_empty)
  next
    case False
    have "removeAll v xs \<noteq> []" using False by (simp add: removeAll_empty)
    moreover have "sorted (removeAll v xs)" using xs(2) by (simp add: removeAll_filter_not_eq sorted_wrt_filter)
    ultimately have "mnode_wf (Mnode (Some (removeAll v xs)) k)"
      using assms xs by (simp add: mnode_wf_Mnode distinct_removeAll)
    then show ?thesis
      using Some False by (auto simp: rm_code_def set_elems_def removeAll_empty)
  qed
qed

lemma mnode_rm_ok:
  "mnode_wf t \<Longrightarrow>
    \<exists>t'. mnode_rm p v t = Some (t', rm_code v (mt_lookup t p)) \<and> mnode_wf t' \<and>
      mt_lookup t' = (mt_lookup t)(p := mt_lookup t p - {v})"
proof (induction p arbitrary: t)
  case Nil
  obtain ps k where t: "t = Mnode ps k" by (cases t)
  obtain ps' where ps': "mnode_rm [] v t = Some (Mnode ps' k, rm_code v (set (set_elems ps)))"
    "mnode_wf (Mnode ps' k)" "set (set_elems ps') = set (set_elems ps) - {v}"
    using mnode_rm_leaf [OF Nil [unfolded t], of v] t by blast
  have "mt_lookup (Mnode ps' k) q = ((mt_lookup t)([] := mt_lookup t [] - {v})) q" for q
    using ps'(3) t by (cases q) simp_all
  then show ?case using ps' t by auto
next
  case (Cons b bs)
  obtain ps k where t: "t = Mnode ps k" by (cases t)
  let ?c = "unat b"
  have k: "tbl_wf k" using Cons.prems t by (simp add: mnode_wf_Mnode)
  show ?case
  proof (cases "tbl_child k ?c")
    case None
    then have "mnode_rm (b # bs) v t = Some (t, Not_found)"
      using t tbl_slot_child [of ?c k] by (auto simp: Let_def)
    moreover have "mt_lookup t (b # bs) = {}" using None t by simp
    ultimately show ?thesis using Cons.prems by (auto simp: fun_upd_idem rm_code_def)
  next
    case (Some n)
    have n: "mnode_wf n" "mt_lookup n = (\<lambda>q. mt_lookup t (b # q))"
      using Cons.prems t Some by (auto simp: mnode_wf_Mnode)
    define v' where "v' = mt_lookup t (b # bs) - {v}"
    define ret where "ret = rm_code v (mt_lookup t (b # bs))"
    obtain n' where n': "mnode_rm bs v n = Some (n', ret)" "mnode_wf n'" "mt_lookup n' = (mt_lookup n)(bs := v')"
      using Cons.IH [OF n(1)] unfolding n(2) v'_def ret_def by blast
    have rm: "mnode_rm (b # bs) v t = (if mnode_redundant n'
        then map_option (\<lambda>t'. (Mnode ps t', ret)) (mtrie_prune ?c k)
        else Some (Mnode ps (tbl_set ?c (Some n') k), ret))"
      using tbl_child_in_range [OF Some] n'(1) t by (simp add: Let_def)
    have cnt: "mt_lookup n' q = (if q = bs then v' else mt_lookup t (b # q))" for q
      using n'(3) n(2) by simp
    show ?thesis unfolding v'_def [symmetric] ret_def [symmetric]
    proof (cases "mnode_redundant n'")
      case True
      obtain k' where k': "mtrie_prune ?c k = Some k'" "tbl_wf k'" "tbl_child k' = (tbl_child k)(?c := None)"
        using prune_spec(2) [OF k, of ?c] Some by auto
      note upd = mnode_remove [OF Cons.prems [unfolded t] k'(2,3)]
      have zero: "(if q = bs then v' else mt_lookup t (b # q)) = {}" for q
        using mnode_redundant_lookup [OF n'(2) True, of q] cnt by simp
      have "mt_lookup (Mnode ps k') q = ((mt_lookup t)(b # bs := v')) q" for q
        using zero [of "tl q"] t by (cases q) (auto simp: upd(2) simp del: mt_lookup.simps(2) split: if_splits)
      then show "\<exists>t'. mnode_rm (b # bs) v t = Some (t', ret) \<and> mnode_wf t' \<and> mt_lookup t' = (mt_lookup t)(b # bs := v')"
        using rm True k'(1) upd(1) by auto
    next
      case False
      have k': "tbl_wf (tbl_set ?c (Some n') k)" "tbl_child (tbl_set ?c (Some n') k) = (tbl_child k)(?c \<mapsto> n')"
        using tbl_set_spec [OF k, of ?c n'] Some by auto
      note upd = mnode_update [OF Cons.prems [unfolded t] k'(1) n'(2) False k'(2)]
      have "mt_lookup (Mnode ps (tbl_set ?c (Some n') k)) q = ((mt_lookup t)(b # bs := v')) q" for q
        using cnt t by (cases q) (auto simp: upd(3) simp del: mt_lookup.simps(2) split: if_splits)
      then show "\<exists>t'. mnode_rm (b # bs) v t = Some (t', ret) \<and> mnode_wf t' \<and> mt_lookup t' = (mt_lookup t)(b # bs := v')"
        using rm False upd(1) by auto
    qed
  qed
qed

lemma mnode_match_ok:
  "mnode_wf t \<Longrightarrow> set (mnode_match d t) = (\<Union>p\<in>{p. prefix p d}. mt_lookup t p)"
proof (induction d arbitrary: t)
  case Nil
  then show ?case by (cases t) auto
next
  case (Cons b bs)
  obtain ps k where t: "t = Mnode ps k" by (cases t)
  have k: "tbl_wf k" using Cons.prems t by (simp add: mnode_wf_Mnode)
  have step: "mnode_match (b # bs) t = set_elems ps @
      (case tbl_child k (unat b) of None \<Rightarrow> [] | Some n \<Rightarrow> mnode_match bs n)"
    using t k by (auto simp: tbl_child_def tbl_slot_def tbl_wf_def in_range_def split: option.splits next_t.splits)
  have pre: "{p. prefix p (b # bs)} = insert [] (Cons b ` {p. prefix p bs})"
    by (auto simp: prefix_Cons)
  show ?case
  proof (cases "tbl_child k (unat b)")
    case None
    then show ?thesis unfolding step pre using t by simp
  next
    case (Some n)
    then have "mnode_wf n" using Cons.prems t by (auto simp: mnode_wf_Mnode)
    then show ?thesis unfolding step pre using Some t by (simp add: Cons.IH)
  qed
qed

text \<open>The prefixes a removal of \<open>v\<close> reports.\<close>

definition reported :: "nat \<Rightarrow> bool \<Rightarrow> nat set \<Rightarrow> bool" where
  "reported v uniq s \<longleftrightarrow> v \<in> s \<and> (\<not> uniq \<or> s = {v})"

definition rm_value_ok :: "nat \<Rightarrow> bool \<Rightarrow> mnode \<Rightarrow> bool" where
  "rm_value_ok v uniq t \<longleftrightarrow> (\<forall>buff. \<exists>t' calls. mnode_rm_value v uniq buff t = Some (t', calls) \<and> mnode_wf t' \<and>
     (\<forall>p. mt_lookup t' p = mt_lookup t p - {v}) \<and>
     distinct calls \<and> set calls = {buff @ p |p. reported v uniq (mt_lookup t p)})"

text \<open>The children of a node, visited: their results, the calls and the table they leave.\<close>

lemma rm_value_children:
  fixes buff :: bytes
  assumes wf: "tbl_wf t" and IH: "\<forall>c n. tbl_child t c = Some n \<longrightarrow> rm_value_ok v uniq n"
    and g_def: "g = (\<lambda>c n. mnode_rm_value v uniq (buff @ [of_nat c]) n)"
    and rs_def: "rs = map (\<lambda>(c, x). map_option (g c) x) (tbl_entries t)"
  shows "Some None \<notin> set rs"
    "\<exists>t'. tbl_sweep mnode_redundant (tbl_with t (map (map_option (\<lambda>q. fst (the q))) rs)) = Some t' \<and> tbl_wf t' \<and>
      tbl_child t' = (\<lambda>c. keep mnode_redundant (map_option (\<lambda>n. fst (the (g c n))) (tbl_child t c)))"
proof -
  have ok: "\<exists>q. g c n = Some q" if "(c, Some n) \<in> set (tbl_entries t)" for c n
    using IH tbl_entries_spec(2) [OF wf that] unfolding rm_value_ok_def g_def by blast
  show "Some None \<notin> set rs"
  proof
    assume "Some None \<in> set rs"
    then obtain e where e: "e \<in> set (tbl_entries t)" "Some None = (case e of (c, x) \<Rightarrow> map_option (g c) x)"
      unfolding rs_def set_map image_iff by blast
    obtain c x where "e = (c, x)" by (cases e)
    then show False using e ok [of c "the x"] by (cases x) auto
  qed
  have "map (map_option (\<lambda>q. fst (the q))) rs = map (\<lambda>(c, x). map_option (\<lambda>n. fst (the (g c n))) x) (tbl_entries t)"
    unfolding rs_def by (auto simp: option.map_comp o_def)
  then show "\<exists>t'. tbl_sweep mnode_redundant (tbl_with t (map (map_option (\<lambda>q. fst (the q))) rs)) = Some t' \<and> tbl_wf t' \<and>
      tbl_child t' = (\<lambda>c. keep mnode_redundant (map_option (\<lambda>n. fst (the (g c n))) (tbl_child t c)))"
    using tbl_sweep_spec [OF tbl_with_spec(1) [OF wf], of mnode_redundant "\<lambda>c n. fst (the (g c n))"]
      tbl_with_spec(2) [OF wf, of "\<lambda>c n. fst (the (g c n))"] by simp
qed

lemma rm_value_pipes:
  fixes v :: nat
  assumes "mnode_wf (Mnode ps t)"
  defines "hit \<equiv> v \<in> set (set_elems ps)"
  defines "ps' \<equiv> (if hit \<and> removeAll v (set_elems ps) = [] then None else map_option (removeAll v) ps)"
  shows "set (set_elems ps') = set (set_elems ps) - {v}"
    "\<And>xs. ps' = Some xs \<Longrightarrow> xs \<noteq> [] \<and> sorted xs \<and> distinct xs"
    "hit \<and> (\<not> uniq \<or> removeAll v (set_elems ps) = []) \<longleftrightarrow> reported v uniq (set (set_elems ps))"
proof -
  have ps: "\<And>xs. ps = Some xs \<Longrightarrow> xs \<noteq> [] \<and> sorted xs \<and> distinct xs"
    using assms(1) by (auto simp: mnode_wf_Mnode)
  show "set (set_elems ps') = set (set_elems ps) - {v}"
    by (cases ps) (auto simp: ps'_def set_elems_def removeAll_empty)
  show "xs \<noteq> [] \<and> sorted xs \<and> distinct xs" if eq: "ps' = Some xs" for xs
  proof -
    obtain ys where ys: "ps = Some ys" "xs = removeAll v ys"
      using eq by (cases ps) (auto simp: ps'_def split: if_splits)
    have "removeAll v ys \<noteq> []"
      using eq ps [OF ys(1)] ys by (auto simp: ps'_def hit_def set_elems_def split: if_splits)
    then show ?thesis
      using ps [OF ys(1)] ys(2) by (simp add: distinct_removeAll removeAll_filter_not_eq sorted_wrt_filter)
  qed
  show "hit \<and> (\<not> uniq \<or> removeAll v (set_elems ps) = []) \<longleftrightarrow> reported v uniq (set (set_elems ps))"
    by (auto simp: hit_def reported_def removeAll_empty)
qed

lemma rm_value_calls:
  fixes ps :: "nat list option"
  assumes "tbl_wf t"
    and h: "\<And>c n. tbl_child t c = Some n \<Longrightarrow>
      set (h c n) = {buff @ of_nat c # p |p. reported v uniq (mt_lookup n p)} \<and> distinct (h c n)"
  defines "calls \<equiv> (if reported v uniq (set (set_elems ps)) then [buff] else []) @ tbl_collect h t"
  shows "distinct calls \<and> set calls = {buff @ p |p. reported v uniq (mt_lookup (Mnode ps t) p)}"
proof -
  note col = tbl_collect_spec [of t h buff "\<lambda>n p. reported v uniq (mt_lookup n p)", OF assms(1) h]
  have below: "(\<exists>n. tbl_child t (unat b) = Some n \<and> reported v uniq (mt_lookup n p)) \<longleftrightarrow>
      reported v uniq (mt_lookup (Mnode ps t) (b # p))" for b p
    by (auto simp: reported_def split: option.splits)
  have "{buff @ p |p. reported v uniq (mt_lookup (Mnode ps t) p)} =
      (if reported v uniq (set (set_elems ps)) then {buff} else {}) \<union>
      {buff @ b # p |b p. reported v uniq (mt_lookup (Mnode ps t) (b # p))}" (is "?L = ?R")
  proof (intro set_eqI iffI)
    fix z assume "z \<in> ?L"
    then obtain p where "z = buff @ p" "reported v uniq (mt_lookup (Mnode ps t) p)" by blast
    then show "z \<in> ?R" by (cases p) auto
  next
    fix z assume "z \<in> ?R"
    then show "z \<in> ?L"
      by (auto simp del: mt_lookup.simps(2) split: if_splits intro: exI [of _ "[]"])
  qed
  then show ?thesis
    using col unfolding below calls_def by (auto simp del: mt_lookup.simps(2))
qed

lemma mnode_rm_value_ok: "mnode_wf t \<Longrightarrow> rm_value_ok v uniq t"
proof (induction rule: mnode_wf.induct)
  case (mnode_wfI t ps)
  have wf: "mnode_wf (Mnode ps t)" using mnode_wfI by (simp add: mnode_wf_Mnode)
  show ?case
    unfolding rm_value_ok_def
  proof
    fix buff :: bytes
    define g where "g = (\<lambda>c n. mnode_rm_value v uniq (buff @ [of_nat c]) n)"
    define rs where "rs = map (\<lambda>(c, x). map_option (g c) x) (tbl_entries t)"
    define hit where "hit = (v \<in> set (set_elems ps))"
    define ps' where "ps' = (if hit \<and> removeAll v (set_elems ps) = [] then None else map_option (removeAll v) ps)"
    note pipes = rm_value_pipes [OF wf, of v, folded hit_def, folded ps'_def]
    have IH: "\<forall>c n. tbl_child t c = Some n \<longrightarrow> rm_value_ok v uniq n" using mnode_wfI.IH by blast
    note ch = rm_value_children [OF mnode_wfI.hyps(1) IH g_def rs_def]
    obtain t' where t': "tbl_sweep mnode_redundant (tbl_with t (map (map_option (\<lambda>q. fst (the q))) rs)) = Some t'"
      "tbl_wf t'" "tbl_child t' = (\<lambda>c. keep mnode_redundant (map_option (\<lambda>n. fst (the (g c n))) (tbl_child t c)))"
      using ch(2) by blast
    have g: "mnode_wf (fst (the (g c n)))" "mt_lookup (fst (the (g c n))) q = mt_lookup n q - {v}"
      "distinct (snd (the (g c n)))" "set (snd (the (g c n))) = {buff @ of_nat c # p |p. reported v uniq (mt_lookup n p)}"
      if "tbl_child t c = Some n" for c n q
      using mnode_wfI.IH [OF that] unfolding rm_value_ok_def g_def by (fastforce dest: spec [of _ "buff @ [of_nat c]"])+
    define calls where "calls = (if reported v uniq (set (set_elems ps)) then [buff] else []) @
      tbl_collect (\<lambda>c n. snd (the (g c n))) t"
    have col: "concat (map (\<lambda>r. case r of None \<Rightarrow> [] | Some q \<Rightarrow> snd (the q)) rs) = tbl_collect (\<lambda>c n. snd (the (g c n))) t"
      unfolding rs_def tbl_collect_def by (auto intro!: arg_cong [of _ _ concat] split: option.splits)
    have rs: "map (\<lambda>(c, x). map_option (\<lambda>n. mnode_rm_value v uniq (buff @ [of_nat c]) n) x) (tbl_entries t) = rs"
      by (simp add: rs_def g_def)
    have run: "mnode_rm_value v uniq buff (Mnode ps t) = Some (Mnode ps' t', calls)"
      unfolding mnode_rm_value.simps Let_def rs hit_def [symmetric] ps'_def [symmetric] t'(1) col pipes(3) calls_def
      using ch(1) by simp
    have "mnode_wf (Mnode ps' t')"
      using t'(2,3) pipes(2) g(1) by (auto simp: mnode_wf_Mnode keep_def split: option.splits if_splits)
    moreover have "mt_lookup (Mnode ps' t') p = mt_lookup (Mnode ps t) p - {v}" for p
    proof (cases p)
      case Nil
      then show ?thesis using pipes(1) by simp
    next
      case (Cons b q)
      then show ?thesis
        using t'(3) g(2) [of "unat b" _ q] mnode_redundant_lookup [OF g(1), of "unat b" _ q]
        by (auto simp: keep_def split: option.splits)
    qed
    moreover have "distinct calls \<and> set calls = {buff @ p |p. reported v uniq (mt_lookup (Mnode ps t) p)}"
      unfolding calls_def by (rule rm_value_calls [OF mnode_wfI.hyps(1)]) (use g(3,4) in blast)
    ultimately show "\<exists>t' calls. mnode_rm_value v uniq buff (Mnode ps t) = Some (t', calls) \<and> mnode_wf t' \<and>
        (\<forall>p. mt_lookup t' p = mt_lookup (Mnode ps t) p - {v}) \<and> distinct calls \<and>
        set calls = {buff @ p |p. reported v uniq (mt_lookup (Mnode ps t) p)}"
      using run by blast
  qed
qed

section \<open>The whole multi-trie\<close>

definition mt_keys :: "mtrie \<Rightarrow> bytes set" where
  "mt_keys m = {p. mt_lookup (mt_root m) p \<noteq> {}}"

text \<open>\<^verbatim>\<open>_num_prefixes\<close> never falls below the number of prefixes, which is what the assertion in \<^verbatim>\<open>rm\<close> needs.\<close>

definition mtrie_inv :: "mtrie \<Rightarrow> bool" where
  "mtrie_inv m \<longleftrightarrow> mnode_wf (mt_root m) \<and> finite (mt_keys m) \<and> card (mt_keys m) \<le> unat (mt_num_prefixes m)"

definition mtrie_lookup :: "mtrie \<Rightarrow> bytes \<Rightarrow> nat set" where
  "mtrie_lookup m = mt_lookup (mt_root m)"

definition mtrie_budget :: "mtrie \<Rightarrow> nat" where
  "mtrie_budget m = unat (mt_num_prefixes m)"

lemma mt_keys_upd:
  "mtrie_lookup m' = (mtrie_lookup m)(p := x) \<Longrightarrow>
    mt_keys m' = (if x = {} then mt_keys m - {p} else insert p (mt_keys m))"
  by (auto simp: mt_keys_def mtrie_lookup_def)

lemma new_mtrie_ok: "mtrie_inv new_mtrie" "mtrie_lookup new_mtrie p = {}" "mtrie_budget new_mtrie = 0"
  by (simp_all add: new_mtrie_def mtrie_inv_def mt_keys_def mtrie_lookup_def mtrie_budget_def new_mnode_wf)

lemma mtrie_add_ok:
  assumes "mtrie_inv m" "mtrie_budget m + 1 < 2 ^ 32"
  shows "\<exists>m'. mtrie_add p v m = Some (m', mtrie_lookup m p = {}) \<and> mtrie_inv m' \<and>
    mtrie_lookup m' = (mtrie_lookup m)(p := insert v (mtrie_lookup m p)) \<and> mtrie_budget m' \<le> mtrie_budget m + 1"
proof -
  have wf: "mnode_wf (mt_root m)" using assms(1) by (simp add: mtrie_inv_def)
  obtain n where n: "mnode_add p v (mt_root m) = Some (n, mtrie_lookup m p = {})" "mnode_wf n"
    "mt_lookup n = (mtrie_lookup m)(p := insert v (mtrie_lookup m p))"
    using mnode_add_ok [OF wf, of p v] unfolding mtrie_lookup_def by blast
  define m' where "m' = m\<lparr>mt_root := n, mt_num_prefixes := mt_num_prefixes m + (if mtrie_lookup m p = {} then 1 else 0)\<rparr>"
  have lk: "mtrie_lookup m' = (mtrie_lookup m)(p := insert v (mtrie_lookup m p))"
    using n(3) by (simp add: mtrie_lookup_def m'_def)
  have num: "unat (mt_num_prefixes m') = mtrie_budget m + (if mtrie_lookup m p = {} then 1 else 0)"
    using assms(2) by (simp add: m'_def mtrie_budget_def unat_word_ariths)
  have "p \<in> mt_keys m \<longleftrightarrow> mtrie_lookup m p \<noteq> {}" by (simp add: mt_keys_def mtrie_lookup_def)
  then have "mtrie_inv m'"
    using assms(1) n(2) num mt_keys_upd [OF lk] unfolding mtrie_inv_def mtrie_budget_def
    by (auto simp: m'_def card_insert_if)
  moreover have "mtrie_add p v m = Some (m', mtrie_lookup m p = {})"
    using n(1) by (simp add: mtrie_add_def m'_def)
  ultimately show ?thesis using lk num by (auto simp: mtrie_budget_def)
qed

lemma mtrie_rm_ok:
  assumes "mtrie_inv m"
  shows "\<exists>m'. mtrie_rm p v m = Some (m', rm_code v (mtrie_lookup m p)) \<and> mtrie_inv m' \<and>
    mtrie_lookup m' = (mtrie_lookup m)(p := mtrie_lookup m p - {v}) \<and> mtrie_budget m' \<le> mtrie_budget m"
proof -
  have wf: "mnode_wf (mt_root m)" using assms(1) by (simp add: mtrie_inv_def)
  let ?r = "rm_code v (mtrie_lookup m p)"
  obtain n where n: "mnode_rm p v (mt_root m) = Some (n, ?r)" "mnode_wf n"
    "mt_lookup n = (mtrie_lookup m)(p := mtrie_lookup m p - {v})"
    using mnode_rm_ok [OF wf, of p v] unfolding mtrie_lookup_def by blast
  have last: "?r = Last_value_removed \<longleftrightarrow> mtrie_lookup m p = {v}" by (auto simp: rm_code_def)
  define m' where "m' = (if ?r = Last_value_removed
    then m\<lparr>mt_root := n, mt_num_prefixes := mt_num_prefixes m - 1\<rparr> else m\<lparr>mt_root := n\<rparr>)"
  have lk: "mtrie_lookup m' = (mtrie_lookup m)(p := mtrie_lookup m p - {v})"
    using n(3) by (simp add: mtrie_lookup_def m'_def)
  have key: "p \<in> mt_keys m \<longleftrightarrow> mtrie_lookup m p \<noteq> {}" by (simp add: mt_keys_def mtrie_lookup_def)
  have pos: "mt_num_prefixes m \<noteq> 0" "card (mt_keys m - {p}) + 1 = card (mt_keys m)" if "?r = Last_value_removed"
  proof -
    have "p \<in> mt_keys m" using key last that by simp
    then show "card (mt_keys m - {p}) + 1 = card (mt_keys m)"
      using card_Suc_Diff1 [of "mt_keys m" p] assms unfolding mtrie_inv_def by linarith
    then show "mt_num_prefixes m \<noteq> 0" using assms by (auto simp: mtrie_inv_def)
  qed
  have "mtrie_inv m' \<and> mtrie_budget m' \<le> mtrie_budget m"
  proof (cases "?r = Last_value_removed")
    case True
    then have "unat (mt_num_prefixes m - 1) = unat (mt_num_prefixes m) - 1"
      using pos(1) unat_minus_one by blast
    then show ?thesis
      using assms n(2) True pos(2) mt_keys_upd [OF lk] last
      by (auto simp: m'_def mtrie_inv_def mtrie_budget_def)
  next
    case False
    then have "mt_keys m' = mt_keys m"
      using mt_keys_upd [OF lk] last key by (auto split: if_splits)
    then show ?thesis using assms n(2) False by (simp add: m'_def mtrie_inv_def mtrie_budget_def)
  qed
  moreover have "mtrie_rm p v m = Some (m', ?r)"
    using n(1) pos(1) by (auto simp: mtrie_rm_def m'_def word_gt_0)
  ultimately show ?thesis using lk by blast
qed

lemma mtrie_rm_value_ok:
  assumes "mtrie_inv m"
  shows "\<exists>m' calls. mtrie_rm_value v uniq m = Some (m', calls) \<and> mtrie_inv m' \<and>
    mtrie_lookup m' = (\<lambda>p. mtrie_lookup m p - {v}) \<and> mtrie_budget m' = mtrie_budget m \<and>
    distinct calls \<and> set calls = {p. reported v uniq (mtrie_lookup m p)}"
proof -
  have wf: "mnode_wf (mt_root m)" using assms(1) by (simp add: mtrie_inv_def)
  obtain n calls where n: "mnode_rm_value v uniq [] (mt_root m) = Some (n, calls)" "mnode_wf n"
    "\<And>p. mt_lookup n p = mt_lookup (mt_root m) p - {v}" "distinct calls"
    "set calls = {p. reported v uniq (mt_lookup (mt_root m) p)}"
    using mnode_rm_value_ok [OF wf, of v uniq] unfolding rm_value_ok_def by (auto dest: spec [of _ "[]"])
  have "mt_keys (m\<lparr>mt_root := n\<rparr>) \<subseteq> mt_keys m" using n(3) by (auto simp: mt_keys_def)
  then have "mtrie_inv (m\<lparr>mt_root := n\<rparr>)"
    using assms n(2) card_mono [of "mt_keys m"] unfolding mtrie_inv_def
    by (auto intro: finite_subset order_trans)
  then show ?thesis
    using n by (auto simp: mtrie_rm_value_def mtrie_lookup_def mtrie_budget_def)
qed

lemma mtrie_match_ok:
  "mtrie_inv m \<Longrightarrow> set (mtrie_match d m) = (\<Union>p\<in>{p. prefix p d}. mtrie_lookup m p)"
  by (simp add: mtrie_match_def mtrie_lookup_def mtrie_inv_def mnode_match_ok)

section \<open>The interface: a map from prefixes to sets\<close>

datatype mt_op = Mt_add bytes nat | Mt_rm bytes nat | Mt_rm_value nat bool

datatype mt_res = Res_new bool | Res_rm rm_result | Res_calls "bytes list"

fun mt_spec_step :: "mt_op \<Rightarrow> (bytes \<Rightarrow> nat set) \<Rightarrow> bytes \<Rightarrow> nat set" where
  "mt_spec_step (Mt_add p v) f = f(p := insert v (f p))"
| "mt_spec_step (Mt_rm p v) f = f(p := f p - {v})"
| "mt_spec_step (Mt_rm_value v uniq) f = (\<lambda>p. f p - {v})"

fun mt_spec_res :: "mt_op \<Rightarrow> (bytes \<Rightarrow> nat set) \<Rightarrow> mt_res \<Rightarrow> bool" where
  "mt_spec_res (Mt_add p v) f r \<longleftrightarrow> r = Res_new (f p = {})"
| "mt_spec_res (Mt_rm p v) f r \<longleftrightarrow> r = Res_rm (rm_code v (f p))"
| "mt_spec_res (Mt_rm_value v uniq) f r \<longleftrightarrow>
     (\<exists>calls. r = Res_calls calls \<and> distinct calls \<and> set calls = {p. reported v uniq (f p)})"

fun mt_spec_run :: "mt_op list \<Rightarrow> (bytes \<Rightarrow> nat set) \<Rightarrow> bytes \<Rightarrow> nat set" where
  "mt_spec_run [] f = f"
| "mt_spec_run (x # xs) f = mt_spec_run xs (mt_spec_step x f)"

fun mt_spec_results :: "mt_op list \<Rightarrow> (bytes \<Rightarrow> nat set) \<Rightarrow> mt_res list \<Rightarrow> bool" where
  "mt_spec_results [] f rs \<longleftrightarrow> rs = []"
| "mt_spec_results (x # xs) f rs \<longleftrightarrow>
     (\<exists>r rs'. rs = r # rs' \<and> mt_spec_res x f r \<and> mt_spec_results xs (mt_spec_step x f) rs')"

fun mt_step :: "(bytes \<Rightarrow> nat \<Rightarrow> 's \<Rightarrow> ('s \<times> bool) option) \<Rightarrow> (bytes \<Rightarrow> nat \<Rightarrow> 's \<Rightarrow> ('s \<times> rm_result) option) \<Rightarrow>
    (nat \<Rightarrow> bool \<Rightarrow> 's \<Rightarrow> ('s \<times> bytes list) option) \<Rightarrow> mt_op \<Rightarrow> 's \<Rightarrow> ('s \<times> mt_res) option" where
  "mt_step add rm rmv (Mt_add p v) s = map_option (apsnd Res_new) (add p v s)"
| "mt_step add rm rmv (Mt_rm p v) s = map_option (apsnd Res_rm) (rm p v s)"
| "mt_step add rm rmv (Mt_rm_value v uniq) s = map_option (apsnd Res_calls) (rmv v uniq s)"

fun mt_run :: "(mt_op \<Rightarrow> 's \<Rightarrow> ('s \<times> mt_res) option) \<Rightarrow> mt_op list \<Rightarrow> 's \<Rightarrow> ('s \<times> mt_res list) option" where
  "mt_run stp [] s = Some (s, [])"
| "mt_run stp (x # xs) s =
     (case stp x s of
        None \<Rightarrow> None
      | Some (s', r) \<Rightarrow> map_option (apsnd (Cons r)) (mt_run stp xs s'))"

locale prefix_multimap =
  fixes inv :: "'s \<Rightarrow> bool"
    and look :: "'s \<Rightarrow> bytes \<Rightarrow> nat set"
    and budget :: "'s \<Rightarrow> nat"
    and empty :: 's
    and add :: "bytes \<Rightarrow> nat \<Rightarrow> 's \<Rightarrow> ('s \<times> bool) option"
    and rm :: "bytes \<Rightarrow> nat \<Rightarrow> 's \<Rightarrow> ('s \<times> rm_result) option"
    and rmv :: "nat \<Rightarrow> bool \<Rightarrow> 's \<Rightarrow> ('s \<times> bytes list) option"
    and hits :: "bytes \<Rightarrow> 's \<Rightarrow> nat list"
  assumes empty_law: "inv empty" "look empty p = {}" "budget empty = 0"
    and add_law: "inv s \<Longrightarrow> budget s + 1 < 2 ^ 32 \<Longrightarrow> \<exists>s'. add p v s = Some (s', look s p = {}) \<and> inv s' \<and>
      look s' = (look s)(p := insert v (look s p)) \<and> budget s' \<le> budget s + 1"
    and rm_law: "inv s \<Longrightarrow> \<exists>s'. rm p v s = Some (s', rm_code v (look s p)) \<and> inv s' \<and>
      look s' = (look s)(p := look s p - {v}) \<and> budget s' \<le> budget s"
    and rmv_law: "inv s \<Longrightarrow> \<exists>s' calls. rmv v uniq s = Some (s', calls) \<and> inv s' \<and>
      look s' = (\<lambda>p. look s p - {v}) \<and> budget s' = budget s \<and> distinct calls \<and>
      set calls = {p. reported v uniq (look s p)}"
    and hits_law: "inv s \<Longrightarrow> set (hits d s) = (\<Union>p\<in>{p. prefix p d}. look s p)"
begin

lemma step_law:
  assumes "inv s" "budget s + 1 < 2 ^ 32"
  shows "\<exists>s' r. mt_step add rm rmv x s = Some (s', r) \<and> mt_spec_res x (look s) r \<and> inv s' \<and>
    look s' = mt_spec_step x (look s) \<and> budget s' \<le> budget s + 1"
proof (cases x)
  case (Mt_add p v)
  then show ?thesis using add_law [OF assms, of p v] by auto
next
  case (Mt_rm p v)
  then show ?thesis using rm_law [OF assms(1), of p v] by auto
next
  case (Mt_rm_value v uniq)
  obtain s' calls where "rmv v uniq s = Some (s', calls)" "inv s'" "look s' = (\<lambda>p. look s p - {v})"
    "budget s' = budget s" "distinct calls" "set calls = {p. reported v uniq (look s p)}"
    using rmv_law [OF assms(1)] by blast
  then show ?thesis using Mt_rm_value by auto
qed

lemma run_law:
  "inv s \<Longrightarrow> budget s + length xs < 2 ^ 32 \<Longrightarrow>
    \<exists>s' rs. mt_run (mt_step add rm rmv) xs s = Some (s', rs) \<and> mt_spec_results xs (look s) rs \<and> inv s' \<and>
      look s' = mt_spec_run xs (look s)"
proof (induction xs arbitrary: s)
  case Nil
  then show ?case by simp
next
  case (Cons x xs)
  have b: "budget s + 1 < 2 ^ 32" using Cons.prems(2) by simp
  obtain s1 r where s1: "mt_step add rm rmv x s = Some (s1, r)" "mt_spec_res x (look s) r" "inv s1"
    "look s1 = mt_spec_step x (look s)" "budget s1 \<le> budget s + 1"
    using step_law [OF Cons.prems(1) b] by blast
  then have "budget s1 + length xs < 2 ^ 32" using Cons.prems(2) by simp
  then obtain s2 rs where "mt_run (mt_step add rm rmv) xs s1 = Some (s2, rs)" "mt_spec_results xs (look s1) rs"
    "inv s2" "look s2 = mt_spec_run xs (look s1)"
    using Cons.IH [OF s1(3)] by blast
  then show ?case using s1 by auto
qed

lemma run_from_empty:
  assumes "length xs < 2 ^ 32"
  shows "\<exists>s rs. mt_run (mt_step add rm rmv) xs empty = Some (s, rs) \<and> mt_spec_results xs (\<lambda>_. {}) rs \<and> inv s \<and>
    look s = mt_spec_run xs (\<lambda>_. {}) \<and> (\<forall>d. set (hits d s) = (\<Union>p\<in>{p. prefix p d}. mt_spec_run xs (\<lambda>_. {}) p))"
proof -
  have z: "look empty = (\<lambda>_. {})" using empty_law(2) by blast
  have "budget empty + length xs < 2 ^ 32" using assms empty_law(3) by simp
  then obtain s rs where s: "mt_run (mt_step add rm rmv) xs empty = Some (s, rs)" "mt_spec_results xs (\<lambda>_. {}) rs"
    "inv s" "look s = mt_spec_run xs (\<lambda>_. {})"
    using run_law [OF empty_law(1), of xs] unfolding z by blast
  then show ?thesis using hits_law [OF s(3)] by simp
qed

end

interpretation mt: prefix_multimap mtrie_inv mtrie_lookup mtrie_budget new_mtrie mtrie_add mtrie_rm
  mtrie_rm_value mtrie_match
  using new_mtrie_ok mtrie_add_ok mtrie_rm_ok mtrie_rm_value_ok mtrie_match_ok by unfold_locales

text \<open>C11. The multi-trie refines a map from prefixes to sets of pipes: after any history of fewer
  than 2^32 calls of \<^verbatim>\<open>add\<close>, \<^verbatim>\<open>rm\<close> of an entry and \<^verbatim>\<open>rm\<close> of a pipe on an empty multi-trie no assertion
  has failed, every call gave the result the map prescribes (new prefix; not found, last value removed
  or values remain; the callback once for each prefix the pipe was on, or was alone on), and \<^verbatim>\<open>match\<close>
  signals exactly the pipes of the prefixes of the message.\<close>

theorem mtrie_refines_multimap:
  assumes "length ops < 2 ^ 32"
  shows "\<exists>m rs. mt_run (mt_step mtrie_add mtrie_rm mtrie_rm_value) ops new_mtrie = Some (m, rs) \<and>
    mt_spec_results ops (\<lambda>_. {}) rs \<and> mtrie_lookup m = mt_spec_run ops (\<lambda>_. {}) \<and>
    (\<forall>d. set (mtrie_match d m) = (\<Union>p\<in>{p. prefix p d}. mt_spec_run ops (\<lambda>_. {}) p))"
  using mt.run_from_empty [OF assms] by blast

theorem mtrie_refines_multimap_witness:
  "\<exists>m r1 r2 r3 r4. mt_run (mt_step mtrie_add mtrie_rm mtrie_rm_value)
      [Mt_add [1, 2] 5, Mt_add [1] 6, Mt_add [1, 2] 6, Mt_rm_value 6 True] new_mtrie = Some (m, [r1, r2, r3, r4]) \<and>
    r1 = Res_new True \<and> r3 = Res_new False \<and> set (mtrie_match [1, 2, 3] m) = {5}"
proof -
  let ?ops = "[Mt_add [1, 2] 5, Mt_add [1] 6, Mt_add [1, 2] 6, Mt_rm_value 6 True]"
  have l: "length ?ops < 2 ^ 32" by simp
  obtain m rs where m: "mt_run (mt_step mtrie_add mtrie_rm mtrie_rm_value) ?ops new_mtrie = Some (m, rs)"
    "mt_spec_results ?ops (\<lambda>_. {}) rs"
    "\<forall>d. set (mtrie_match d m) = (\<Union>p\<in>{p. prefix p d}. mt_spec_run ?ops (\<lambda>_. {}) p)"
    using mtrie_refines_multimap [OF l] by blast
  have pre: "{p. prefix p [1, 2, 3 :: byte]} = {[], [1], [1, 2], [1, 2, 3]}"
    by (auto simp: prefix_Cons)
  have "(\<Union>p\<in>{p. prefix p [1, 2, 3]}. mt_spec_run ?ops (\<lambda>_. {}) p) = {5}"
    unfolding pre by simp
  then have hit: "set (mtrie_match [1, 2, 3] m) = {5}" by (simp only: m(3))
  obtain r1 r2 r3 r4 where rs: "rs = [r1, r2, r3, r4]" "r1 = Res_new True" "r3 = Res_new False"
    using m(2) by auto
  show ?thesis
    by (intro exI conjI) (rule m(1) [unfolded rs(1)], rule rs(2), rule rs(3), rule hit)
qed


end
