(* ===== verification/Options.thy ===== *)
theory Options
  imports Wire "HOL-Library.Signed_Division"
begin

text \<open>
  The option block of a socket (\<^verbatim>\<open>src/src/core/options.cpp\<close>, \<^verbatim>\<open>options.hpp\<close>) and the option numbers
  (\<^verbatim>\<open>src/src/util/constants.hpp\<close>), some of which are used twice. The value of an option is an array of bytes, or no array
  for a null pointer (which comes with length 0); integers are stored little-endian, as on the supported platforms.
\<close>

section \<open>Option numbers and socket types\<close>

abbreviation (input) SL_SNDHWM :: int where "SL_SNDHWM \<equiv> 23"
abbreviation (input) SL_RCVHWM :: int where "SL_RCVHWM \<equiv> 24"
abbreviation (input) SL_AFFINITY :: int where "SL_AFFINITY \<equiv> 4"
abbreviation (input) SL_ROUTING_ID :: int where "SL_ROUTING_ID \<equiv> 5"
abbreviation (input) SL_SNDBUF :: int where "SL_SNDBUF \<equiv> 11"
abbreviation (input) SL_RCVBUF :: int where "SL_RCVBUF \<equiv> 12"
abbreviation (input) SL_TOS :: int where "SL_TOS \<equiv> 57"
abbreviation (input) SL_TYPE :: int where "SL_TYPE \<equiv> 16"
abbreviation (input) SL_LINGER :: int where "SL_LINGER \<equiv> 17"
abbreviation (input) SL_CONNECT_TIMEOUT :: int where "SL_CONNECT_TIMEOUT \<equiv> 79"
abbreviation (input) SL_TCP_MAXRT :: int where "SL_TCP_MAXRT \<equiv> 80"
abbreviation (input) SL_RECONNECT_STOP :: int where "SL_RECONNECT_STOP \<equiv> 81"
abbreviation (input) SL_RECONNECT_IVL :: int where "SL_RECONNECT_IVL \<equiv> 18"
abbreviation (input) SL_RECONNECT_IVL_MAX :: int where "SL_RECONNECT_IVL_MAX \<equiv> 21"
abbreviation (input) SL_BACKLOG :: int where "SL_BACKLOG \<equiv> 19"
abbreviation (input) SL_MAXMSGSIZE :: int where "SL_MAXMSGSIZE \<equiv> 22"
abbreviation (input) SL_RCVTIMEO :: int where "SL_RCVTIMEO \<equiv> 27"
abbreviation (input) SL_SNDTIMEO :: int where "SL_SNDTIMEO \<equiv> 28"
abbreviation (input) SL_IPV6 :: int where "SL_IPV6 \<equiv> 42"
abbreviation (input) SL_IMMEDIATE :: int where "SL_IMMEDIATE \<equiv> 39"
abbreviation (input) SL_TCP_KEEPALIVE :: int where "SL_TCP_KEEPALIVE \<equiv> 34"
abbreviation (input) SL_TCP_KEEPALIVE_CNT :: int where "SL_TCP_KEEPALIVE_CNT \<equiv> 35"
abbreviation (input) SL_TCP_KEEPALIVE_IDLE :: int where "SL_TCP_KEEPALIVE_IDLE \<equiv> 36"
abbreviation (input) SL_TCP_KEEPALIVE_INTVL :: int where "SL_TCP_KEEPALIVE_INTVL \<equiv> 37"
abbreviation (input) SL_HANDSHAKE_IVL :: int where "SL_HANDSHAKE_IVL \<equiv> 66"
abbreviation (input) SL_HEARTBEAT_IVL :: int where "SL_HEARTBEAT_IVL \<equiv> 75"
abbreviation (input) SL_HEARTBEAT_TTL :: int where "SL_HEARTBEAT_TTL \<equiv> 76"
abbreviation (input) SL_HEARTBEAT_TIMEOUT :: int where "SL_HEARTBEAT_TIMEOUT \<equiv> 77"
abbreviation (input) SL_USE_FD :: int where "SL_USE_FD \<equiv> 89"
abbreviation (input) SL_BINDTODEVICE :: int where "SL_BINDTODEVICE \<equiv> 92"
abbreviation (input) SL_LOOPBACK_FASTPATH :: int where "SL_LOOPBACK_FASTPATH \<equiv> 94"
abbreviation (input) SL_METADATA :: int where "SL_METADATA \<equiv> 95"
abbreviation (input) SL_IN_BATCH_SIZE :: int where "SL_IN_BATCH_SIZE \<equiv> 101"
abbreviation (input) SL_OUT_BATCH_SIZE :: int where "SL_OUT_BATCH_SIZE \<equiv> 102"
abbreviation (input) SL_BUSY_POLL :: int where "SL_BUSY_POLL \<equiv> 103"
abbreviation (input) SL_HELLO_MSG :: int where "SL_HELLO_MSG \<equiv> 110"
abbreviation (input) SL_DISCONNECT_MSG :: int where "SL_DISCONNECT_MSG \<equiv> 111"
abbreviation (input) SL_PRIORITY :: int where "SL_PRIORITY \<equiv> 112"
abbreviation (input) SL_HICCUP_MSG :: int where "SL_HICCUP_MSG \<equiv> 114"
abbreviation (input) SL_ROUTER_MANDATORY :: int where "SL_ROUTER_MANDATORY \<equiv> 33"
abbreviation (input) SL_ROUTER_RAW :: int where "SL_ROUTER_RAW \<equiv> 41"
abbreviation (input) SL_PROBE_ROUTER :: int where "SL_PROBE_ROUTER \<equiv> 51"
abbreviation (input) SL_ROUTER_HANDOVER :: int where "SL_ROUTER_HANDOVER \<equiv> 56"
abbreviation (input) SL_CONNECT_ROUTING_ID :: int where "SL_CONNECT_ROUTING_ID \<equiv> 61"
abbreviation (input) SL_ROUTER_NOTIFY :: int where "SL_ROUTER_NOTIFY \<equiv> 97"
abbreviation (input) SL_SUBSCRIBE :: int where "SL_SUBSCRIBE \<equiv> 6"
abbreviation (input) SL_UNSUBSCRIBE :: int where "SL_UNSUBSCRIBE \<equiv> 7"
abbreviation (input) SL_PSUBSCRIBE :: int where "SL_PSUBSCRIBE \<equiv> 81"
abbreviation (input) SL_PUNSUBSCRIBE :: int where "SL_PUNSUBSCRIBE \<equiv> 82"
abbreviation (input) SL_XPUB_VERBOSE :: int where "SL_XPUB_VERBOSE \<equiv> 40"
abbreviation (input) SL_XPUB_VERBOSER :: int where "SL_XPUB_VERBOSER \<equiv> 78"
abbreviation (input) SL_XPUB_MANUAL :: int where "SL_XPUB_MANUAL \<equiv> 71"
abbreviation (input) SL_XPUB_NODROP :: int where "SL_XPUB_NODROP \<equiv> 69"
abbreviation (input) SL_XPUB_MANUAL_LAST_VALUE :: int where "SL_XPUB_MANUAL_LAST_VALUE \<equiv> 70"
abbreviation (input) SL_XPUB_WELCOME_MSG :: int where "SL_XPUB_WELCOME_MSG \<equiv> 72"
abbreviation (input) SL_XSUB_VERBOSE_UNSUBSCRIBE :: int where "SL_XSUB_VERBOSE_UNSUBSCRIBE \<equiv> 73"
abbreviation (input) SL_ONLY_FIRST_SUBSCRIBE :: int where "SL_ONLY_FIRST_SUBSCRIBE \<equiv> 108"
abbreviation (input) SL_TOPICS_COUNT :: int where "SL_TOPICS_COUNT \<equiv> 80"
abbreviation (input) SL_INVERT_MATCHING :: int where "SL_INVERT_MATCHING \<equiv> 60"

abbreviation (input) SL_PAIR :: int where "SL_PAIR \<equiv> 0"
abbreviation (input) SL_PUB :: int where "SL_PUB \<equiv> 1"
abbreviation (input) SL_SUB :: int where "SL_SUB \<equiv> 2"
abbreviation (input) SL_DEALER :: int where "SL_DEALER \<equiv> 5"
abbreviation (input) SL_ROUTER :: int where "SL_ROUTER \<equiv> 6"
abbreviation (input) SL_XPUB :: int where "SL_XPUB \<equiv> 9"
abbreviation (input) SL_XSUB :: int where "SL_XSUB \<equiv> 10"

section \<open>Values\<close>

type_synonym optval = "bytes option"

definition opt_bytes :: "optval \<Rightarrow> bytes" where
  "opt_bytes v = (case v of None \<Rightarrow> [] | Some b \<Rightarrow> b)"

definition le_int :: "bytes \<Rightarrow> int" where
  "le_int b = sint (get_uint32 (rev b))"

definition int_le :: "int \<Rightarrow> bytes" where
  "int_le i = rev (put_uint32 (word_of_int i))"

definition do_setsockopt_int :: "optval \<Rightarrow> errno + int" where
  "do_setsockopt_int v = (if length (opt_bytes v) = 4 then Inr (le_int (opt_bytes v)) else Inl EINVAL)"

definition do_setsockopt_u64 :: "optval \<Rightarrow> errno + u64" where
  "do_setsockopt_u64 v = (if length (opt_bytes v) = 8 then Inr (get_uint64 (rev (opt_bytes v))) else Inl EINVAL)"

definition do_setsockopt_int_as_bool_strict :: "optval \<Rightarrow> errno + bool" where
  "do_setsockopt_int_as_bool_strict v =
     (case do_setsockopt_int v of
        Inl e \<Rightarrow> Inl e
      | Inr i \<Rightarrow> if i = 0 \<or> i = 1 then Inr (i \<noteq> 0) else Inl EINVAL)"

definition do_setsockopt_int_as_bool_relaxed :: "optval \<Rightarrow> errno + bool" where
  "do_setsockopt_int_as_bool_relaxed v = (case do_setsockopt_int v of Inl e \<Rightarrow> Inl e | Inr i \<Rightarrow> Inr (i \<noteq> 0))"

definition do_setsockopt_string_allow_empty_strict :: "nat \<Rightarrow> optval \<Rightarrow> errno + bytes" where
  "do_setsockopt_string_allow_empty_strict max_len v =
     (case v of
        None \<Rightarrow> Inr []
      | Some b \<Rightarrow> if length b > 0 \<and> length b \<le> max_len then Inr b else Inl EINVAL)"

text \<open>What a get leaves in a buffer of \<open>len\<close> bytes and the length it reports.\<close>

definition do_getsockopt :: "nat \<Rightarrow> bytes \<Rightarrow> errno + (bytes \<times> nat)" where
  "do_getsockopt len value =
     (if len < length value then Inl EINVAL
      else Inr (value @ replicate (len - length value) 0, length value))"

section \<open>The option block\<close>

record options =
  sndhwm :: int
  rcvhwm :: int
  affinity :: u64
  routing_id :: bytes
  sndbuf :: int
  rcvbuf :: int
  tos :: int
  priority :: int
  sock_type :: int
  linger :: int
  connect_timeout :: int
  tcp_maxrt :: int
  reconnect_stop :: int
  reconnect_ivl :: int
  reconnect_ivl_max :: int
  backlog :: int
  maxmsgsize :: int
  rcvtimeo :: int
  sndtimeo :: int
  ipv6 :: bool
  immediate :: int
  recv_routing_id :: bool
  raw_socket :: bool
  raw_notify :: bool
  tcp_keepalive :: int
  tcp_keepalive_cnt :: int
  tcp_keepalive_idle :: int
  tcp_keepalive_intvl :: int
  socket_id :: int
  handshake_ivl :: int
  connected :: bool
  heartbeat_ttl :: u16
  heartbeat_interval :: int
  heartbeat_timeout :: int
  use_fd :: int
  bound_device :: bytes
  loopback_fastpath :: bool
  in_batch_size :: int
  out_batch_size :: int
  opt_zero_copy :: bool
  router_notify :: int
  app_metadata :: "bytes \<rightharpoonup> bytes"
  monitor_event_version :: int
  hello_msg :: bytes
  can_send_hello_msg :: bool
  disconnect_msg :: bytes
  can_recv_disconnect_msg :: bool
  hiccup_msg :: bytes
  can_recv_hiccup_msg :: bool
  busy_poll :: int
  sub_filter :: bool
  invert_matching :: bool

definition options_new :: options where
  "options_new = \<lparr>sndhwm = 1000, rcvhwm = 1000, affinity = 0, routing_id = [], sndbuf = -1, rcvbuf = -1, tos = 0, priority = 0,
     sock_type = -1, linger = -1, connect_timeout = 0, tcp_maxrt = 0, reconnect_stop = 0, reconnect_ivl = 100, reconnect_ivl_max = 0,
     backlog = 100, maxmsgsize = -1, rcvtimeo = -1, sndtimeo = -1, ipv6 = False, immediate = 0, recv_routing_id = False,
     raw_socket = False, raw_notify = True, tcp_keepalive = -1, tcp_keepalive_cnt = -1, tcp_keepalive_idle = -1,
     tcp_keepalive_intvl = -1, socket_id = 0, handshake_ivl = 30000, connected = False, heartbeat_ttl = 0, heartbeat_interval = 0,
     heartbeat_timeout = -1, use_fd = -1, bound_device = [], loopback_fastpath = False, in_batch_size = 8192, out_batch_size = 8192,
     opt_zero_copy = True, router_notify = 0, app_metadata = Map.empty, monitor_event_version = 1, hello_msg = [],
     can_send_hello_msg = False, disconnect_msg = [], can_recv_disconnect_msg = False, hiccup_msg = [],
     can_recv_hiccup_msg = False, busy_poll = 0, sub_filter = False, invert_matching = False\<rparr>"

text \<open>A case of the switch that checks the value, stores it and returns, or breaks to the error at the end.\<close>

abbreviation (input) store_if :: "bool \<Rightarrow> options \<Rightarrow> errno + options" where
  "store_if ok opts \<equiv> (if ok then Inr opts else Inl EINVAL)"

definition BINDDEVSIZ :: nat where "BINDDEVSIZ = 16"

definition set_metadata_option :: "bytes \<Rightarrow> options \<Rightarrow> errno + options" where
  "set_metadata_option s opts =
     (let pos = length (takeWhile (\<lambda>c. c \<noteq> 58) s) in
      if length s > 0 \<and> length s \<noteq> 4 \<and> pos < length s \<and> pos \<noteq> 0 \<and> pos \<noteq> length s - 1
      then let key = take pos s in
        if take 2 key = [88, 45] \<and> length key \<le> 255
        then Inr (opts\<lparr>app_metadata := (case app_metadata opts key of
               None \<Rightarrow> (app_metadata opts)(key \<mapsto> drop (pos + 1) s) | Some _ \<Rightarrow> app_metadata opts)\<rparr>)
        else Inl EINVAL
      else Inl EINVAL)"

text \<open>\<^verbatim>\<open>setsockopt\<close>, in three parts that follow each other in the switch.\<close>

definition setsockopt_messages :: "int \<Rightarrow> optval \<Rightarrow> options \<Rightarrow> errno + options" where
  "setsockopt_messages opt v opts =
     (let is_int = (length (opt_bytes v) = 4); i = (if is_int then le_int (opt_bytes v) else 0) in
      if opt = SL_METADATA then set_metadata_option (opt_bytes v) opts
      else if opt = SL_IN_BATCH_SIZE then store_if (is_int \<and> i > 0) (opts\<lparr>in_batch_size := i\<rparr>)
      else if opt = SL_OUT_BATCH_SIZE then store_if (is_int \<and> i > 0) (opts\<lparr>out_batch_size := i\<rparr>)
      else if opt = SL_BUSY_POLL then store_if is_int (opts\<lparr>busy_poll := i\<rparr>)
      else if opt = SL_HELLO_MSG then Inr (opts\<lparr>hello_msg := opt_bytes v\<rparr>)
      else if opt = SL_DISCONNECT_MSG then Inr (opts\<lparr>disconnect_msg := opt_bytes v\<rparr>)
      else if opt = SL_PRIORITY then store_if (is_int \<and> i \<ge> 0) (opts\<lparr>priority := i\<rparr>)
      else if opt = SL_HICCUP_MSG then Inr (opts\<lparr>hiccup_msg := opt_bytes v\<rparr>)
      else if opt = SL_ROUTER_NOTIFY then store_if is_int (opts\<lparr>router_notify := i\<rparr>)
      else Inl EINVAL)"

definition setsockopt_transport :: "int \<Rightarrow> optval \<Rightarrow> options \<Rightarrow> errno + options" where
  "setsockopt_transport opt v opts =
     (let is_int = (length (opt_bytes v) = 4); i = (if is_int then le_int (opt_bytes v) else 0) in
      if opt = SL_IPV6 then map_sum id (\<lambda>b. opts\<lparr>ipv6 := b\<rparr>) (do_setsockopt_int_as_bool_strict v)
      else if opt = SL_TCP_KEEPALIVE then store_if (is_int \<and> (i = -1 \<or> i = 0 \<or> i = 1)) (opts\<lparr>tcp_keepalive := i\<rparr>)
      else if opt = SL_TCP_KEEPALIVE_CNT then store_if (is_int \<and> (i = -1 \<or> i \<ge> 0)) (opts\<lparr>tcp_keepalive_cnt := i\<rparr>)
      else if opt = SL_TCP_KEEPALIVE_IDLE then store_if (is_int \<and> (i = -1 \<or> i \<ge> 0)) (opts\<lparr>tcp_keepalive_idle := i\<rparr>)
      else if opt = SL_TCP_KEEPALIVE_INTVL then store_if (is_int \<and> (i = -1 \<or> i \<ge> 0)) (opts\<lparr>tcp_keepalive_intvl := i\<rparr>)
      else if opt = SL_IMMEDIATE then store_if (is_int \<and> (i = 0 \<or> i = 1)) (opts\<lparr>immediate := i\<rparr>)
      else if opt = SL_HANDSHAKE_IVL then store_if (is_int \<and> i \<ge> 0) (opts\<lparr>handshake_ivl := i\<rparr>)
      else if opt = SL_HEARTBEAT_IVL then store_if (is_int \<and> i \<ge> 0) (opts\<lparr>heartbeat_interval := i\<rparr>)
      else if opt = SL_HEARTBEAT_TTL then
        (let i = i sdiv 100 in store_if (is_int \<and> i \<ge> 0 \<and> i \<le> 65535) (opts\<lparr>heartbeat_ttl := word_of_int i\<rparr>))
      else if opt = SL_HEARTBEAT_TIMEOUT then store_if (is_int \<and> i \<ge> 0) (opts\<lparr>heartbeat_timeout := i\<rparr>)
      else if opt = SL_USE_FD then store_if (is_int \<and> i \<ge> -1) (opts\<lparr>use_fd := i\<rparr>)
      else if opt = SL_BINDTODEVICE then
        map_sum id (\<lambda>b. opts\<lparr>bound_device := b\<rparr>) (do_setsockopt_string_allow_empty_strict BINDDEVSIZ v)
      else if opt = SL_LOOPBACK_FASTPATH then
        map_sum id (\<lambda>b. opts\<lparr>loopback_fastpath := b\<rparr>) (do_setsockopt_int_as_bool_relaxed v)
      else setsockopt_messages opt v opts)"

definition setsockopt :: "int \<Rightarrow> optval \<Rightarrow> options \<Rightarrow> errno + options" where
  "setsockopt opt v opts =
     (let is_int = (length (opt_bytes v) = 4); i = (if is_int then le_int (opt_bytes v) else 0) in
      if opt = SL_SNDHWM then store_if (is_int \<and> i \<ge> 0) (opts\<lparr>sndhwm := i\<rparr>)
      else if opt = SL_RCVHWM then store_if (is_int \<and> i \<ge> 0) (opts\<lparr>rcvhwm := i\<rparr>)
      else if opt = SL_AFFINITY then map_sum id (\<lambda>u. opts\<lparr>affinity := u\<rparr>) (do_setsockopt_u64 v)
      else if opt = SL_ROUTING_ID then
        store_if (0 < length (opt_bytes v) \<and> length (opt_bytes v) \<le> 255) (opts\<lparr>routing_id := opt_bytes v\<rparr>)
      else if opt = SL_SNDBUF then store_if (is_int \<and> i \<ge> -1) (opts\<lparr>sndbuf := i\<rparr>)
      else if opt = SL_RCVBUF then store_if (is_int \<and> i \<ge> -1) (opts\<lparr>rcvbuf := i\<rparr>)
      else if opt = SL_TOS then store_if (is_int \<and> i \<ge> 0) (opts\<lparr>tos := i\<rparr>)
      else if opt = SL_LINGER then store_if (is_int \<and> i \<ge> -1) (opts\<lparr>linger := i\<rparr>)
      else if opt = SL_CONNECT_TIMEOUT then store_if (is_int \<and> i \<ge> 0) (opts\<lparr>connect_timeout := i\<rparr>)
      else if opt = SL_TCP_MAXRT then store_if (is_int \<and> i \<ge> 0) (opts\<lparr>tcp_maxrt := i\<rparr>)
      else if opt = SL_RECONNECT_STOP then store_if is_int (opts\<lparr>reconnect_stop := i\<rparr>)
      else if opt = SL_RECONNECT_IVL then store_if (is_int \<and> i \<ge> -1) (opts\<lparr>reconnect_ivl := i\<rparr>)
      else if opt = SL_RECONNECT_IVL_MAX then store_if (is_int \<and> i \<ge> 0) (opts\<lparr>reconnect_ivl_max := i\<rparr>)
      else if opt = SL_BACKLOG then store_if (is_int \<and> i \<ge> 0) (opts\<lparr>backlog := i\<rparr>)
      else if opt = SL_MAXMSGSIZE then map_sum id (\<lambda>u. opts\<lparr>maxmsgsize := sint u\<rparr>) (do_setsockopt_u64 v)
      else if opt = SL_RCVTIMEO then store_if (is_int \<and> i \<ge> -1) (opts\<lparr>rcvtimeo := i\<rparr>)
      else if opt = SL_SNDTIMEO then store_if (is_int \<and> i \<ge> -1) (opts\<lparr>sndtimeo := i\<rparr>)
      else setsockopt_transport opt v opts)"

section \<open>Reading options\<close>

abbreviation (input) ret_int :: "nat \<Rightarrow> int \<Rightarrow> errno + (bytes \<times> nat)" where
  "ret_int len i \<equiv> (if len = 4 then Inr (int_le i, 4) else Inl EINVAL)"

definition getsockopt_transport :: "int \<Rightarrow> nat \<Rightarrow> options \<Rightarrow> errno + (bytes \<times> nat)" where
  "getsockopt_transport opt len opts =
     (if opt = SL_IPV6 then ret_int len (of_bool (ipv6 opts))
      else if opt = SL_IMMEDIATE then ret_int len (immediate opts)
      else if opt = SL_TCP_KEEPALIVE then ret_int len (tcp_keepalive opts)
      else if opt = SL_TCP_KEEPALIVE_CNT then ret_int len (tcp_keepalive_cnt opts)
      else if opt = SL_TCP_KEEPALIVE_IDLE then ret_int len (tcp_keepalive_idle opts)
      else if opt = SL_TCP_KEEPALIVE_INTVL then ret_int len (tcp_keepalive_intvl opts)
      else if opt = SL_HANDSHAKE_IVL then ret_int len (handshake_ivl opts)
      else if opt = SL_HEARTBEAT_IVL then ret_int len (heartbeat_interval opts)
      else if opt = SL_HEARTBEAT_TTL then ret_int len (uint (heartbeat_ttl opts) * 100)
      else if opt = SL_HEARTBEAT_TIMEOUT then ret_int len (heartbeat_timeout opts)
      else if opt = SL_USE_FD then ret_int len (use_fd opts)
      else if opt = SL_BINDTODEVICE then do_getsockopt len (bound_device opts @ [0])
      else if opt = SL_LOOPBACK_FASTPATH then ret_int len (of_bool (loopback_fastpath opts))
      else if opt = SL_ROUTER_NOTIFY then ret_int len (router_notify opts)
      else if opt = SL_IN_BATCH_SIZE then ret_int len (in_batch_size opts)
      else if opt = SL_OUT_BATCH_SIZE then ret_int len (out_batch_size opts)
      else if opt = SL_PRIORITY then ret_int len (priority opts)
      else if opt = SL_BUSY_POLL then ret_int len (busy_poll opts)
      else Inl EINVAL)"

definition getsockopt :: "int \<Rightarrow> nat \<Rightarrow> options \<Rightarrow> errno + (bytes \<times> nat)" where
  "getsockopt opt len opts =
     (if opt = SL_SNDHWM then ret_int len (sndhwm opts)
      else if opt = SL_RCVHWM then ret_int len (rcvhwm opts)
      else if opt = SL_AFFINITY then if len = 8 then Inr (rev (put_uint64 (affinity opts)), 8) else Inl EINVAL
      else if opt = SL_ROUTING_ID then do_getsockopt len (routing_id opts)
      else if opt = SL_SNDBUF then ret_int len (sndbuf opts)
      else if opt = SL_RCVBUF then ret_int len (rcvbuf opts)
      else if opt = SL_TOS then ret_int len (tos opts)
      else if opt = SL_TYPE then ret_int len (sock_type opts)
      else if opt = SL_LINGER then ret_int len (linger opts)
      else if opt = SL_CONNECT_TIMEOUT then ret_int len (connect_timeout opts)
      else if opt = SL_TCP_MAXRT then ret_int len (tcp_maxrt opts)
      else if opt = SL_RECONNECT_STOP then ret_int len (reconnect_stop opts)
      else if opt = SL_RECONNECT_IVL then ret_int len (reconnect_ivl opts)
      else if opt = SL_RECONNECT_IVL_MAX then ret_int len (reconnect_ivl_max opts)
      else if opt = SL_BACKLOG then ret_int len (backlog opts)
      else if opt = SL_MAXMSGSIZE then if len = 8 then Inr (rev (put_uint64 (word_of_int (maxmsgsize opts))), 8) else Inl EINVAL
      else if opt = SL_RCVTIMEO then ret_int len (rcvtimeo opts)
      else if opt = SL_SNDTIMEO then ret_int len (sndtimeo opts)
      else getsockopt_transport opt len opts)"

section \<open>Every option within its range\<close>

definition c_int :: "int \<Rightarrow> bool" where
  "c_int i \<longleftrightarrow> - (2 ^ 31) \<le> i \<and> i < 2 ^ 31"





text \<open>Taking a chain of conditions apart one at a time.\<close>

lemma store_ifE:
  assumes "(if ok then Inr x else Inl e) = Inr y"
  obtains "ok" "y = x"
  using assms by (auto split: if_splits)

lemma if_chainE:
  assumes "(if c then a else b) = r"
  obtains "c" "a = r" | "b = r"
  using assms by (auto split: if_splits)

lemma map_sumE:
  assumes "map_sum id f x = Inr y"
  obtains z where "x = Inr z" "y = f z"
  using assms by (cases x) auto













section \<open>Reading back\<close>

lemma int_le_le_int: "length b = 4 \<Longrightarrow> int_le (le_int b) = b"
  by (simp add: int_le_def le_int_def put_get_uint32)

lemma length_int_le [simp]: "length (int_le i) = 4"
  by (simp add: int_le_def)

lemma le_int_int_le: "c_int i \<Longrightarrow> le_int (int_le i) = i"
  using get_put_uint32 [of "word_of_int i" "[]"] by (simp add: le_int_def int_le_def c_int_def signed_of_int signed_take_bit_int_eq_self)

text \<open>Setting one option leaves what every other one reads back.\<close>

lemmas get_defs = getsockopt_def getsockopt_transport_def

lemma getsockopt_other:
  "opt \<noteq> SL_SNDHWM \<Longrightarrow> getsockopt opt n (opts\<lparr>sndhwm := i\<rparr>) = getsockopt opt n opts"
  "opt \<noteq> SL_RCVHWM \<Longrightarrow> getsockopt opt n (opts\<lparr>rcvhwm := i\<rparr>) = getsockopt opt n opts"
  "opt \<noteq> SL_AFFINITY \<Longrightarrow> getsockopt opt n (opts\<lparr>affinity := a\<rparr>) = getsockopt opt n opts"
  "opt \<noteq> SL_ROUTING_ID \<Longrightarrow> getsockopt opt n (opts\<lparr>routing_id := s\<rparr>) = getsockopt opt n opts"
  "opt \<noteq> SL_SNDBUF \<Longrightarrow> getsockopt opt n (opts\<lparr>sndbuf := i\<rparr>) = getsockopt opt n opts"
  "opt \<noteq> SL_RCVBUF \<Longrightarrow> getsockopt opt n (opts\<lparr>rcvbuf := i\<rparr>) = getsockopt opt n opts"
  "opt \<noteq> SL_TOS \<Longrightarrow> getsockopt opt n (opts\<lparr>tos := i\<rparr>) = getsockopt opt n opts"
  "opt \<noteq> SL_LINGER \<Longrightarrow> getsockopt opt n (opts\<lparr>linger := i\<rparr>) = getsockopt opt n opts"
  "opt \<noteq> SL_CONNECT_TIMEOUT \<Longrightarrow> getsockopt opt n (opts\<lparr>connect_timeout := i\<rparr>) = getsockopt opt n opts"
  "opt \<noteq> SL_TCP_MAXRT \<Longrightarrow> getsockopt opt n (opts\<lparr>tcp_maxrt := i\<rparr>) = getsockopt opt n opts"
  "opt \<noteq> SL_RECONNECT_STOP \<Longrightarrow> getsockopt opt n (opts\<lparr>reconnect_stop := i\<rparr>) = getsockopt opt n opts"
  "opt \<noteq> SL_RECONNECT_IVL \<Longrightarrow> getsockopt opt n (opts\<lparr>reconnect_ivl := i\<rparr>) = getsockopt opt n opts"
  "opt \<noteq> SL_RECONNECT_IVL_MAX \<Longrightarrow> getsockopt opt n (opts\<lparr>reconnect_ivl_max := i\<rparr>) = getsockopt opt n opts"
  "opt \<noteq> SL_BACKLOG \<Longrightarrow> getsockopt opt n (opts\<lparr>backlog := i\<rparr>) = getsockopt opt n opts"
  "opt \<noteq> SL_MAXMSGSIZE \<Longrightarrow> getsockopt opt n (opts\<lparr>maxmsgsize := i\<rparr>) = getsockopt opt n opts"
  "opt \<noteq> SL_RCVTIMEO \<Longrightarrow> getsockopt opt n (opts\<lparr>rcvtimeo := i\<rparr>) = getsockopt opt n opts"
  "opt \<noteq> SL_SNDTIMEO \<Longrightarrow> getsockopt opt n (opts\<lparr>sndtimeo := i\<rparr>) = getsockopt opt n opts"
  "opt \<noteq> SL_IPV6 \<Longrightarrow> getsockopt opt n (opts\<lparr>ipv6 := b\<rparr>) = getsockopt opt n opts"
  "opt \<noteq> SL_IMMEDIATE \<Longrightarrow> getsockopt opt n (opts\<lparr>immediate := i\<rparr>) = getsockopt opt n opts"
  "opt \<noteq> SL_TCP_KEEPALIVE \<Longrightarrow> getsockopt opt n (opts\<lparr>tcp_keepalive := i\<rparr>) = getsockopt opt n opts"
  "opt \<noteq> SL_TCP_KEEPALIVE_CNT \<Longrightarrow> getsockopt opt n (opts\<lparr>tcp_keepalive_cnt := i\<rparr>) = getsockopt opt n opts"
  "opt \<noteq> SL_TCP_KEEPALIVE_IDLE \<Longrightarrow> getsockopt opt n (opts\<lparr>tcp_keepalive_idle := i\<rparr>) = getsockopt opt n opts"
  "opt \<noteq> SL_TCP_KEEPALIVE_INTVL \<Longrightarrow> getsockopt opt n (opts\<lparr>tcp_keepalive_intvl := i\<rparr>) = getsockopt opt n opts"
  "opt \<noteq> SL_HANDSHAKE_IVL \<Longrightarrow> getsockopt opt n (opts\<lparr>handshake_ivl := i\<rparr>) = getsockopt opt n opts"
  "opt \<noteq> SL_HEARTBEAT_IVL \<Longrightarrow> getsockopt opt n (opts\<lparr>heartbeat_interval := i\<rparr>) = getsockopt opt n opts"
  "opt \<noteq> SL_HEARTBEAT_TTL \<Longrightarrow> getsockopt opt n (opts\<lparr>heartbeat_ttl := t\<rparr>) = getsockopt opt n opts"
  "opt \<noteq> SL_HEARTBEAT_TIMEOUT \<Longrightarrow> getsockopt opt n (opts\<lparr>heartbeat_timeout := i\<rparr>) = getsockopt opt n opts"
  "opt \<noteq> SL_USE_FD \<Longrightarrow> getsockopt opt n (opts\<lparr>use_fd := i\<rparr>) = getsockopt opt n opts"
  "opt \<noteq> SL_BINDTODEVICE \<Longrightarrow> getsockopt opt n (opts\<lparr>bound_device := s\<rparr>) = getsockopt opt n opts"
  "opt \<noteq> SL_LOOPBACK_FASTPATH \<Longrightarrow> getsockopt opt n (opts\<lparr>loopback_fastpath := b\<rparr>) = getsockopt opt n opts"
  "opt \<noteq> SL_ROUTER_NOTIFY \<Longrightarrow> getsockopt opt n (opts\<lparr>router_notify := i\<rparr>) = getsockopt opt n opts"
  "opt \<noteq> SL_IN_BATCH_SIZE \<Longrightarrow> getsockopt opt n (opts\<lparr>in_batch_size := i\<rparr>) = getsockopt opt n opts"
  "opt \<noteq> SL_OUT_BATCH_SIZE \<Longrightarrow> getsockopt opt n (opts\<lparr>out_batch_size := i\<rparr>) = getsockopt opt n opts"
  "opt \<noteq> SL_PRIORITY \<Longrightarrow> getsockopt opt n (opts\<lparr>priority := i\<rparr>) = getsockopt opt n opts"
  "opt \<noteq> SL_BUSY_POLL \<Longrightarrow> getsockopt opt n (opts\<lparr>busy_poll := i\<rparr>) = getsockopt opt n opts"
  "getsockopt opt n (opts\<lparr>app_metadata := m\<rparr>) = getsockopt opt n opts"
  "getsockopt opt n (opts\<lparr>hello_msg := s\<rparr>) = getsockopt opt n opts"
  "getsockopt opt n (opts\<lparr>disconnect_msg := s\<rparr>) = getsockopt opt n opts"
  "getsockopt opt n (opts\<lparr>hiccup_msg := s\<rparr>) = getsockopt opt n opts"
  by (simp_all add: get_defs)

lemma getsockopt_same:
  "getsockopt SL_SNDHWM n (opts\<lparr>sndhwm := i\<rparr>) = ret_int n i"
  "getsockopt SL_RCVHWM n (opts\<lparr>rcvhwm := i\<rparr>) = ret_int n i"
  "getsockopt SL_AFFINITY n (opts\<lparr>affinity := a\<rparr>) = (if n = 8 then Inr (rev (put_uint64 a), 8) else Inl EINVAL)"
  "getsockopt SL_ROUTING_ID n (opts\<lparr>routing_id := s\<rparr>) = do_getsockopt n s"
  "getsockopt SL_SNDBUF n (opts\<lparr>sndbuf := i\<rparr>) = ret_int n i"
  "getsockopt SL_RCVBUF n (opts\<lparr>rcvbuf := i\<rparr>) = ret_int n i"
  "getsockopt SL_TOS n (opts\<lparr>tos := i\<rparr>) = ret_int n i"
  "getsockopt SL_LINGER n (opts\<lparr>linger := i\<rparr>) = ret_int n i"
  "getsockopt SL_CONNECT_TIMEOUT n (opts\<lparr>connect_timeout := i\<rparr>) = ret_int n i"
  "getsockopt SL_TCP_MAXRT n (opts\<lparr>tcp_maxrt := i\<rparr>) = ret_int n i"
  "getsockopt SL_RECONNECT_STOP n (opts\<lparr>reconnect_stop := i\<rparr>) = ret_int n i"
  "getsockopt SL_RECONNECT_IVL n (opts\<lparr>reconnect_ivl := i\<rparr>) = ret_int n i"
  "getsockopt SL_RECONNECT_IVL_MAX n (opts\<lparr>reconnect_ivl_max := i\<rparr>) = ret_int n i"
  "getsockopt SL_BACKLOG n (opts\<lparr>backlog := i\<rparr>) = ret_int n i"
  "getsockopt SL_MAXMSGSIZE n (opts\<lparr>maxmsgsize := i\<rparr>) = (if n = 8 then Inr (rev (put_uint64 (word_of_int i)), 8) else Inl EINVAL)"
  "getsockopt SL_RCVTIMEO n (opts\<lparr>rcvtimeo := i\<rparr>) = ret_int n i"
  "getsockopt SL_SNDTIMEO n (opts\<lparr>sndtimeo := i\<rparr>) = ret_int n i"
  "getsockopt SL_IPV6 n (opts\<lparr>ipv6 := b\<rparr>) = ret_int n (of_bool b)"
  "getsockopt SL_IMMEDIATE n (opts\<lparr>immediate := i\<rparr>) = ret_int n i"
  "getsockopt SL_TCP_KEEPALIVE n (opts\<lparr>tcp_keepalive := i\<rparr>) = ret_int n i"
  "getsockopt SL_TCP_KEEPALIVE_CNT n (opts\<lparr>tcp_keepalive_cnt := i\<rparr>) = ret_int n i"
  "getsockopt SL_TCP_KEEPALIVE_IDLE n (opts\<lparr>tcp_keepalive_idle := i\<rparr>) = ret_int n i"
  "getsockopt SL_TCP_KEEPALIVE_INTVL n (opts\<lparr>tcp_keepalive_intvl := i\<rparr>) = ret_int n i"
  "getsockopt SL_HANDSHAKE_IVL n (opts\<lparr>handshake_ivl := i\<rparr>) = ret_int n i"
  "getsockopt SL_HEARTBEAT_IVL n (opts\<lparr>heartbeat_interval := i\<rparr>) = ret_int n i"
  "getsockopt SL_HEARTBEAT_TTL n (opts\<lparr>heartbeat_ttl := t\<rparr>) = ret_int n (uint t * 100)"
  "getsockopt SL_HEARTBEAT_TIMEOUT n (opts\<lparr>heartbeat_timeout := i\<rparr>) = ret_int n i"
  "getsockopt SL_USE_FD n (opts\<lparr>use_fd := i\<rparr>) = ret_int n i"
  "getsockopt SL_BINDTODEVICE n (opts\<lparr>bound_device := s\<rparr>) = do_getsockopt n (s @ [0])"
  "getsockopt SL_LOOPBACK_FASTPATH n (opts\<lparr>loopback_fastpath := b\<rparr>) = ret_int n (of_bool b)"
  "getsockopt SL_ROUTER_NOTIFY n (opts\<lparr>router_notify := i\<rparr>) = ret_int n i"
  "getsockopt SL_IN_BATCH_SIZE n (opts\<lparr>in_batch_size := i\<rparr>) = ret_int n i"
  "getsockopt SL_OUT_BATCH_SIZE n (opts\<lparr>out_batch_size := i\<rparr>) = ret_int n i"
  "getsockopt SL_PRIORITY n (opts\<lparr>priority := i\<rparr>) = ret_int n i"
  "getsockopt SL_BUSY_POLL n (opts\<lparr>busy_poll := i\<rparr>) = ret_int n i"
  by (simp_all add: get_defs)

lemma metadata_upd: "set_metadata_option s opts = Inr opts' \<Longrightarrow> \<exists>m. opts' = opts\<lparr>app_metadata := m\<rparr>"
  unfolding set_metadata_option_def Let_def by (auto split: if_splits)

lemma setsockopt_messages_other:
  assumes "setsockopt_messages opt v opts = Inr opts'" "opt' \<noteq> opt"
  shows "getsockopt opt' n opts' = getsockopt opt' n opts"
  using assms unfolding setsockopt_messages_def Let_def
  by (elim store_ifE if_chainE) (auto simp: getsockopt_other dest!: metadata_upd)

lemma setsockopt_transport_other:
  assumes "setsockopt_transport opt v opts = Inr opts'" "opt' \<noteq> opt"
  shows "getsockopt opt' n opts' = getsockopt opt' n opts"
  using assms(1) unfolding setsockopt_transport_def Let_def
  by (elim store_ifE if_chainE map_sumE)
    (erule setsockopt_messages_other [OF _ assms(2)] | (simp only:, rule getsockopt_other, use assms(2) in simp))+

lemma setsockopt_other:
  assumes "setsockopt opt v opts = Inr opts'" "opt' \<noteq> opt"
  shows "getsockopt opt' n opts' = getsockopt opt' n opts"
  using assms(1) unfolding setsockopt_def Let_def
  by (elim store_ifE if_chainE map_sumE)
    (erule setsockopt_transport_other [OF _ assms(2)] | (simp only:, rule getsockopt_other, use assms(2) in simp))+

text \<open>What an option reads back after \<open>b\<close> was stored: \<open>b\<close> itself, but the time to live is in tenths of a second, a flag is 0 or 1,
  and a string is terminated.\<close>

definition read_back :: "int \<Rightarrow> bytes \<Rightarrow> bytes" where
  "read_back opt b =
     (if opt = SL_HEARTBEAT_TTL then int_le (le_int b sdiv 100 * 100)
      else if opt = SL_LOOPBACK_FASTPATH then int_le (of_bool (le_int b \<noteq> 0))
      else if opt = SL_BINDTODEVICE then b @ [0] else b)"

definition write_only :: "int \<Rightarrow> bool" where
  "write_only opt \<longleftrightarrow> opt \<in> {SL_METADATA, SL_HELLO_MSG, SL_DISCONNECT_MSG, SL_HICCUP_MSG}"

definition reads_back :: "int \<Rightarrow> bytes \<Rightarrow> options \<Rightarrow> bool" where
  "reads_back opt b opts \<longleftrightarrow>
     getsockopt opt (length (read_back opt b)) opts = Inr (read_back opt b, length (read_back opt b))"

lemmas read_defs = reads_back_def read_back_def write_only_def getsockopt_same do_getsockopt_def

lemma setsockopt_messages_reads:
  assumes "setsockopt_messages opt v opts = Inr opts'" "\<not> write_only opt"
  shows "reads_back opt (opt_bytes v) opts'"
  using assms unfolding setsockopt_messages_def Let_def
  by (elim store_ifE if_chainE) (auto simp: read_defs int_le_le_int)

lemma do_setsockopt_intE: "do_setsockopt_int v = Inr i \<Longrightarrow> length (opt_bytes v) = 4 \<and> i = le_int (opt_bytes v)"
  by (auto simp: do_setsockopt_int_def split: if_splits)

lemma bool_strictE:
  "do_setsockopt_int_as_bool_strict v = Inr b \<Longrightarrow> length (opt_bytes v) = 4 \<and> of_bool b = le_int (opt_bytes v)"
  by (auto simp: do_setsockopt_int_as_bool_strict_def split: sum.splits if_splits dest!: do_setsockopt_intE)

lemma bool_relaxedE:
  "do_setsockopt_int_as_bool_relaxed v = Inr b \<Longrightarrow> length (opt_bytes v) = 4 \<and> b = (le_int (opt_bytes v) \<noteq> 0)"
  by (auto simp: do_setsockopt_int_as_bool_relaxed_def split: sum.splits if_splits dest!: do_setsockopt_intE)

lemma stringE: "do_setsockopt_string_allow_empty_strict n v = Inr s \<Longrightarrow> s = opt_bytes v"
  by (auto simp: do_setsockopt_string_allow_empty_strict_def opt_bytes_def split: option.splits if_splits)

lemma u64E: "do_setsockopt_u64 v = Inr u \<Longrightarrow> rev (put_uint64 u) = opt_bytes v \<and> length (opt_bytes v) = 8"
  by (auto simp: do_setsockopt_u64_def put_get_uint64 split: if_splits)

lemma uint_u16: "0 \<le> i \<Longrightarrow> i \<le> 65535 \<Longrightarrow> uint (word_of_int i :: u16) = i"
  by (simp add: uint_word_of_int_eq take_bit_int_eq_self)

lemma setsockopt_transport_reads:
  assumes "setsockopt_transport opt v opts = Inr opts'" "\<not> write_only opt"
  shows "reads_back opt (opt_bytes v) opts'"
  using assms(1) unfolding setsockopt_transport_def Let_def
  by (elim store_ifE if_chainE map_sumE)
    (erule setsockopt_messages_reads [OF _ assms(2)] |
     ((drule bool_strictE | drule bool_relaxedE | drule stringE)?, (elim conjE)?, simp add: read_defs int_le_le_int uint_u16))+

lemma setsockopt_reads:
  assumes "setsockopt opt v opts = Inr opts'" "\<not> write_only opt"
  shows "reads_back opt (opt_bytes v) opts'"
  using assms(1) unfolding setsockopt_def Let_def
  by (elim store_ifE if_chainE map_sumE)
    (erule setsockopt_transport_reads [OF _ assms(2)] |
     ((drule u64E)?, (elim conjE)?, simp add: read_defs int_le_le_int))+

section \<open>Histories of calls\<close>




text \<open>C39. Options are independent and read back. A call of setsockopt that succeeds leaves what every other option number reads
  back in a buffer of any length, and unless the option cannot be read, getsockopt with a buffer of the right length
  returns the bytes stored (the time to live rounded to tenths of a second, a flag as 0 or 1, a device name terminated).\<close>

theorem options_set_get:
  assumes "setsockopt opt v opts = Inr opts'"
  shows "(\<forall>opt' n. opt' \<noteq> opt \<longrightarrow> getsockopt opt' n opts' = getsockopt opt' n opts) \<and>
    (\<not> write_only opt \<longrightarrow> getsockopt opt (length (read_back opt (opt_bytes v))) opts' =
       Inr (read_back opt (opt_bytes v), length (read_back opt (opt_bytes v))))"
  using setsockopt_other [OF assms] setsockopt_reads [OF assms] by (simp add: reads_back_def)

theorem options_set_get_witness:
  "\<exists>opts'. setsockopt SL_RCVTIMEO (Some [232, 3, 0, 0]) options_new = Inr opts' \<and> getsockopt SL_RCVTIMEO 4 opts' = Inr ([232, 3, 0, 0], 4) \<and>
    getsockopt SL_SNDTIMEO 4 opts' = getsockopt SL_SNDTIMEO 4 options_new"
proof -
  have "le_int [232, 3, 0, 0] = 1000" by code_simp
  then have set: "setsockopt SL_RCVTIMEO (Some [232, 3, 0, 0]) options_new = Inr (options_new\<lparr>rcvtimeo := 1000\<rparr>)"
    by (simp add: setsockopt_def opt_bytes_def)
  have "getsockopt SL_RCVTIMEO 4 (options_new\<lparr>rcvtimeo := 1000\<rparr>) = Inr ([232, 3, 0, 0], 4)"
    "getsockopt SL_SNDTIMEO 4 (options_new\<lparr>rcvtimeo := 1000\<rparr>) = getsockopt SL_SNDTIMEO 4 options_new"
    using options_set_get [OF set] by (simp_all add: write_only_def read_back_def opt_bytes_def eval_nat_numeral)
  then show ?thesis using set by blast
qed

end
