(* ===== verification/Xpub.thy ===== *)
theory Xpub
  imports Fq Mtrie Options
begin

text \<open>
  The publishing sockets (\<^verbatim>\<open>src/src/core/xpub.cpp\<close>, \<^verbatim>\<open>pub.cpp\<close>) over the multi-trie and the distributor. Pipes are numbered;
  a world maps each to its state, and the operations of a pipe are arguments as for the distributor. Message
  metadata is left out. \<^const>\<open>None\<close> is a failed assertion or an access outside a message.
\<close>

record xpub =
  xp_options :: options
  xp_subscriptions :: mtrie
  xp_manual_subscriptions :: mtrie
  xp_dist :: "nat dist"
  xp_verbose_subs :: bool
  xp_verbose_unsubs :: bool
  xp_more_send :: bool
  xp_more_recv :: bool
  xp_process_subscribe :: bool
  xp_only_first_subscribe :: bool
  xp_lossy :: bool
  xp_manual :: bool
  xp_send_last_pipe :: bool
  xp_last_pipe :: "nat option"
  xp_pending_pipes :: "nat option list"
  xp_welcome_msg :: msg
  xp_pending_data :: "bytes list"
  xp_pending_flags :: "byte list"

definition xpub_new :: xpub where
  "xpub_new = \<lparr>xp_options = options_new\<lparr>sock_type := SL_XPUB\<rparr>, xp_subscriptions = new_mtrie, xp_manual_subscriptions = new_mtrie,
     xp_dist = dist_new, xp_verbose_subs = False, xp_verbose_unsubs = False, xp_more_send = False, xp_more_recv = False,
     xp_process_subscribe = False, xp_only_first_subscribe = False, xp_lossy = True, xp_manual = False,
     xp_send_last_pipe = False, xp_last_pipe = None, xp_pending_pipes = [], xp_welcome_msg = msg_init, xp_pending_data = [],
     xp_pending_flags = []\<rparr>"

section \<open>Reading subscriptions\<close>

text \<open>The subscription (true) or cancellation (false) that a message asks for, in either of the two forms, with its topic.\<close>

definition sub_request :: "msg \<Rightarrow> (bool \<times> bytes) option option" where
  "sub_request m =
     (if is_subscribe m \<or> is_cancel m
      then do { k \<leftarrow> command_body_offset m;
                slk_assert (k \<le> length (m_data m)) (Some (Some (is_subscribe m, drop k (m_data m)))) }
      else Some (case m_data m of
             [] \<Rightarrow> None
           | b # topic \<Rightarrow> if b = 0 \<or> b = 1 then Some (b = 1, topic) else None))"

definition push_pending :: "bytes \<Rightarrow> byte \<Rightarrow> xpub \<Rightarrow> xpub" where
  "push_pending data flags x = x\<lparr>xp_pending_data := xp_pending_data x @ [data], xp_pending_flags := xp_pending_flags x @ [flags]\<rparr>"

text \<open>Applying a request of pipe \<open>p\<close>, with whether the user is notified.\<close>

definition apply_request :: "nat \<Rightarrow> bool \<times> bytes \<Rightarrow> xpub \<Rightarrow> (bool \<times> xpub) option" where
  "apply_request p rq x = (let (subscribe, topic) = rq in
     if xp_manual x
     then do {
       t \<leftarrow> (if \<not> subscribe then map_option fst (mtrie_rm topic p (xp_manual_subscriptions x))
            else map_option fst (mtrie_add topic p (xp_manual_subscriptions x)));
       Some (False, x\<lparr>xp_manual_subscriptions := t, xp_pending_pipes := xp_pending_pipes x @ [Some p]\<rparr>) }
     else if \<not> subscribe
     then do {
       (t, rm_result) \<leftarrow> mtrie_rm topic p (xp_subscriptions x);
       Some (rm_result \<noteq> Values_remain \<or> xp_verbose_unsubs x, x\<lparr>xp_subscriptions := t\<rparr>) }
     else do {
       (t, first_added) \<leftarrow> mtrie_add topic p (xp_subscriptions x);
       Some (first_added \<or> xp_verbose_subs x, x\<lparr>xp_subscriptions := t\<rparr>) })"

text \<open>One message read from pipe \<open>p\<close>.\<close>

definition xpub_message :: "nat \<Rightarrow> msg \<Rightarrow> xpub \<Rightarrow> xpub option" where
  "xpub_message p m x =
     slk_assert (has_payload (m_type m)) (
       let first_part = \<not> xp_more_recv x in do {
       rq \<leftarrow> (if first_part \<or> xp_process_subscribe x then sub_request m else Some None);
       let x = x\<lparr>xp_more_recv := is_more m,
                 xp_process_subscribe := (if first_part then \<not> xp_only_first_subscribe x \<or> rq \<noteq> None else xp_process_subscribe x)\<rparr>;
       case rq of
         Some (subscribe, topic) \<Rightarrow> do {
           (notify, x) \<leftarrow> apply_request p (subscribe, topic) x;
           Some (if xp_manual x \<or> (sock_type (xp_options x) = SL_XPUB \<and> notify)
                 then push_pending ((if subscribe then 1 else 0) # topic) 0 x else x) }
       | None \<Rightarrow>
           Some (if sock_type (xp_options x) \<noteq> SL_PUB then push_pending (m_data m) (m_flags m) x else x) })"

partial_function (option) xpub_read_activated ::
  "('s \<Rightarrow> (msg option \<times> 's) option) \<Rightarrow> nat \<Rightarrow> xpub \<times> (nat \<Rightarrow> 's) \<Rightarrow> (xpub \<times> (nat \<Rightarrow> 's)) option" where
  "xpub_read_activated rd p xw = do {
     (r, s) \<leftarrow> rd (snd xw p);
     let w = (snd xw)(p := s);
     case r of
       None \<Rightarrow> Some (fst xw, w)
     | Some m \<Rightarrow> do { x \<leftarrow> xpub_message p m (fst xw); xpub_read_activated rd p (x, w) } }"

definition xpub_attach_pipe ::
  "(msg \<Rightarrow> 's \<Rightarrow> (bool \<times> 's) option) \<Rightarrow> ('s \<Rightarrow> 's option) \<Rightarrow> ('s \<Rightarrow> (msg option \<times> 's) option) \<Rightarrow> nat \<Rightarrow> bool \<Rightarrow>
   xpub \<times> (nat \<Rightarrow> 's) \<Rightarrow> (xpub \<times> (nat \<Rightarrow> 's)) option" where
  "xpub_attach_pipe wr fl rd p subscribe_to_all xw = (let (x, w) = xw in do {
     d \<leftarrow> dist_attach p (xp_dist x);
     t \<leftarrow> (if subscribe_to_all then map_option fst (mtrie_add [] p (xp_subscriptions x)) else Some (xp_subscriptions x));
     let x = x\<lparr>xp_dist := d, xp_subscriptions := t\<rparr>;
     w \<leftarrow> (if m_data (xp_welcome_msg x) \<noteq> []
          then do { (ok, s) \<leftarrow> wr (xp_welcome_msg x) (w p); s \<leftarrow> slk_assert ok (fl s); Some (w(p := s)) }
          else Some w);
     xpub_read_activated rd p (x, w) })"

definition xpub_write_activated :: "nat \<Rightarrow> xpub \<Rightarrow> xpub option" where
  "xpub_write_activated p x = do { d \<leftarrow> dist_activated p (xp_dist x); Some (x\<lparr>xp_dist := d\<rparr>) }"

section \<open>Options of the socket\<close>

definition xpub_setsockopt :: "(nat \<Rightarrow> bool) \<Rightarrow> int \<Rightarrow> optval \<Rightarrow> xpub \<Rightarrow> (errno + xpub) option" where
  "xpub_setsockopt alloc opt v x =
     (if opt \<in> {SL_XPUB_VERBOSE, SL_XPUB_VERBOSER, SL_XPUB_MANUAL_LAST_VALUE, SL_XPUB_NODROP, SL_XPUB_MANUAL, SL_ONLY_FIRST_SUBSCRIBE}
      then if length (opt_bytes v) \<noteq> 4 \<or> le_int (opt_bytes v) < 0 then Some (Inl EINVAL)
        else let b = (le_int (opt_bytes v) \<noteq> 0) in
          Some (Inr (if opt = SL_XPUB_VERBOSE then x\<lparr>xp_verbose_subs := b, xp_verbose_unsubs := False\<rparr>
            else if opt = SL_XPUB_VERBOSER then x\<lparr>xp_verbose_subs := b, xp_verbose_unsubs := b\<rparr>
            else if opt = SL_XPUB_MANUAL_LAST_VALUE then x\<lparr>xp_manual := b, xp_send_last_pipe := b\<rparr>
            else if opt = SL_XPUB_NODROP then x\<lparr>xp_lossy := \<not> b\<rparr>
            else if opt = SL_XPUB_MANUAL then x\<lparr>xp_manual := b\<rparr>
            else x\<lparr>xp_only_first_subscribe := b\<rparr>))
      else if opt = SL_SUBSCRIBE \<and> xp_manual x
      then case xp_last_pipe x of
             None \<Rightarrow> Some (Inr x)
           | Some p \<Rightarrow> do { (t, _) \<leftarrow> mtrie_add (opt_bytes v) p (xp_subscriptions x); Some (Inr (x\<lparr>xp_subscriptions := t\<rparr>)) }
      else if opt = SL_UNSUBSCRIBE \<and> xp_manual x
      then case xp_last_pipe x of
             None \<Rightarrow> Some (Inr x)
           | Some p \<Rightarrow> do { (t, _) \<leftarrow> mtrie_rm (opt_bytes v) p (xp_subscriptions x); Some (Inr (x\<lparr>xp_subscriptions := t\<rparr>)) }
      else if opt = SL_XPUB_WELCOME_MSG
      then if length (opt_bytes v) > 0
        then case init_size alloc (opt_bytes v) of Inl _ \<Rightarrow> None | Inr m \<Rightarrow> Some (Inr (x\<lparr>xp_welcome_msg := m\<rparr>))
        else Some (Inr (x\<lparr>xp_welcome_msg := msg_init\<rparr>))
      else Some (Inl EINVAL))"

text \<open>\<^verbatim>\<open>xgetsockopt\<close> runs the pending commands of the socket, an argument here, before it counts the topics.\<close>

definition xpub_getsockopt :: "(xpub \<Rightarrow> xpub option) \<Rightarrow> int \<Rightarrow> nat \<Rightarrow> xpub \<Rightarrow> ((errno + (bytes \<times> nat)) \<times> xpub) option" where
  "xpub_getsockopt process_commands opt len x =
     (if opt = SL_TOPICS_COUNT
      then if len < 4 then Some (Inl EINVAL, x)
        else do { x \<leftarrow> process_commands x; Some (Inr (int_le (uint (mt_num_prefixes (xp_subscriptions x))), 4), x) }
      else if opt = SL_XPUB_NODROP
      then if len < 4 then Some (Inl EINVAL, x) else Some (Inr (int_le (if xp_lossy x then 0 else 1), 4), x)
      else Some (Inl EINVAL, x))"

section \<open>Terminating pipes\<close>

definition send_unsubscription :: "bytes \<Rightarrow> xpub \<Rightarrow> xpub" where
  "send_unsubscription topic x =
     (if sock_type (xp_options x) \<noteq> SL_PUB
      then let x = push_pending (0 # topic) 0 x in
        if xp_manual x then x\<lparr>xp_last_pipe := None, xp_pending_pipes := xp_pending_pipes x @ [None]\<rparr> else x
      else x)"

text \<open>The subscriptions of a pipe that goes away are dropped, in manual and in automatic mode.\<close>

definition drop_manual :: "nat \<Rightarrow> xpub \<Rightarrow> xpub option" where
  "drop_manual p x = do {
     (t, calls) \<leftarrow> mtrie_rm_value p False (xp_manual_subscriptions x);
     let x = fold send_unsubscription calls (x\<lparr>xp_manual_subscriptions := t\<rparr>);
     (t, _) \<leftarrow> mtrie_rm_value p False (xp_subscriptions x);
     let x = x\<lparr>xp_subscriptions := t\<rparr>;
     Some (if xp_last_pipe x = Some p then x\<lparr>xp_last_pipe := None\<rparr> else x) }"

definition drop_automatic :: "nat \<Rightarrow> xpub \<Rightarrow> xpub option" where
  "drop_automatic p x = do {
     (t, calls) \<leftarrow> mtrie_rm_value p (\<not> xp_verbose_unsubs x) (xp_subscriptions x);
     Some (fold send_unsubscription calls (x\<lparr>xp_subscriptions := t\<rparr>)) }"

definition xpub_pipe_terminated :: "nat \<Rightarrow> xpub \<Rightarrow> xpub option" where
  "xpub_pipe_terminated p x = do {
     x \<leftarrow> (if xp_manual x then drop_manual p x else drop_automatic p x);
     d \<leftarrow> dist_pipe_terminated p (xp_dist x);
     Some (x\<lparr>xp_dist := d\<rparr>) }"

section \<open>Sending and receiving\<close>

definition mark_as_matching :: "nat \<Rightarrow> xpub \<Rightarrow> xpub option" where
  "mark_as_matching p x = do { d \<leftarrow> dist_match p (xp_dist x); Some (x\<lparr>xp_dist := d\<rparr>) }"

definition mark_last_pipe_as_matching :: "nat \<Rightarrow> xpub \<Rightarrow> xpub option" where
  "mark_last_pipe_as_matching p x = (if xp_last_pipe x = Some p then mark_as_matching p x else Some x)"

fun mark_all :: "(nat \<Rightarrow> xpub \<Rightarrow> xpub option) \<Rightarrow> nat list \<Rightarrow> xpub \<Rightarrow> xpub option" where
  "mark_all f [] x = Some x"
| "mark_all f (p # ps) x = do { x \<leftarrow> f p x; mark_all f ps x }"

text \<open>The pipes a message goes to, found for its first part.\<close>

definition xpub_select :: "msg \<Rightarrow> xpub \<Rightarrow> xpub option" where
  "xpub_select m x = (let x = x\<lparr>xp_dist := dist_unmatch (xp_dist x)\<rparr> in do {
     x \<leftarrow> (if xp_manual x \<and> xp_last_pipe x \<noteq> None \<and> xp_send_last_pipe x
          then map_option (\<lambda>x. x\<lparr>xp_last_pipe := None\<rparr>)
            (mark_all mark_last_pipe_as_matching (mtrie_match (m_data m) (xp_subscriptions x)) x)
          else mark_all mark_as_matching (mtrie_match (m_data m) (xp_subscriptions x)) x);
     if invert_matching (xp_options x) then do { d \<leftarrow> dist_reverse_match (xp_dist x); Some (x\<lparr>xp_dist := d\<rparr>) }
     else Some x })"

definition xpub_send ::
  "(msg \<Rightarrow> 's \<Rightarrow> (bool \<times> 's) option) \<Rightarrow> ('s \<Rightarrow> 's option) \<Rightarrow> ('s \<Rightarrow> bool) \<Rightarrow> msg \<Rightarrow> xpub \<times> (nat \<Rightarrow> 's) \<Rightarrow>
   ((errno + unit) \<times> xpub \<times> (nat \<Rightarrow> 's)) option" where
  "xpub_send wr fl hwm m xw = (let (x, w) = xw in do {
     x \<leftarrow> (if \<not> xp_more_send x then xpub_select m x else Some x);
     if xp_lossy x \<or> dist_check_hwm hwm (xp_dist x, w)
     then do {
       (_, d, w) \<leftarrow> send_to_matching wr fl m (xp_dist x, w);
       let d = (if \<not> is_more m then dist_unmatch d else d);
       Some (Inr (), x\<lparr>xp_dist := d, xp_more_send := is_more m\<rparr>, w) }
     else Some (Inl EAGAIN, x, w) })"

definition xpub_recv :: "(nat \<Rightarrow> bool) \<Rightarrow> xpub \<Rightarrow> ((errno + msg) \<times> xpub) option" where
  "xpub_recv alloc x =
     (if xp_pending_data x = [] then Some (Inl EAGAIN, x)
      else
        let x = (if xp_manual x \<and> xp_pending_pipes x \<noteq> []
                 then let lp = hd (xp_pending_pipes x) in
                   x\<lparr>xp_pending_pipes := tl (xp_pending_pipes x),
                     xp_last_pipe := (case lp of Some p \<Rightarrow> if dist_has_pipe p (xp_dist x) then Some p else None | None \<Rightarrow> None)\<rparr>
                 else x)
        in case init_size alloc (hd (xp_pending_data x)) of
             Inl _ \<Rightarrow> None
           | Inr m \<Rightarrow> Some (Inr (set_flags (hd (xp_pending_flags x)) m),
               x\<lparr>xp_pending_data := tl (xp_pending_data x), xp_pending_flags := tl (xp_pending_flags x)\<rparr>))"

definition xpub_has_in :: "xpub \<Rightarrow> bool" where
  "xpub_has_in x \<longleftrightarrow> xp_pending_data x \<noteq> []"

section \<open>PUB\<close>

definition pub_new :: xpub where
  "pub_new = xpub_new\<lparr>xp_options := (xp_options xpub_new)\<lparr>sock_type := SL_PUB\<rparr>\<rparr>"

text \<open>\<open>nd\<close> is \<^verbatim>\<open>set_nodelay\<close> of the pipe.\<close>

definition pub_attach_pipe ::
  "(msg \<Rightarrow> 's \<Rightarrow> (bool \<times> 's) option) \<Rightarrow> ('s \<Rightarrow> 's option) \<Rightarrow> ('s \<Rightarrow> (msg option \<times> 's) option) \<Rightarrow> ('s \<Rightarrow> 's) \<Rightarrow> nat \<Rightarrow> bool \<Rightarrow>
   xpub \<times> (nat \<Rightarrow> 's) \<Rightarrow> (xpub \<times> (nat \<Rightarrow> 's)) option" where
  "pub_attach_pipe wr fl rd nd p subscribe_to_all xw =
     xpub_attach_pipe wr fl rd p subscribe_to_all (fst xw, (snd xw)(p := nd (snd xw p)))"

definition pub_recv :: "errno + msg" where
  "pub_recv = Inl ENOTSUP"

section \<open>The invariant\<close>

abbreviation xp_pipes :: "xpub \<Rightarrow> nat set" where "xp_pipes x \<equiv> all_pipes (xp_dist x)"
abbreviation xp_eligible :: "xpub \<Rightarrow> nat set" where "xp_eligible x \<equiv> eligible_pipes (xp_dist x)"
abbreviation xp_lookup :: "xpub \<Rightarrow> bytes \<Rightarrow> nat set" where "xp_lookup x \<equiv> mtrie_lookup (xp_subscriptions x)"

definition xpub_ok :: "xpub \<Rightarrow> bool" where
  "xpub_ok x \<longleftrightarrow> dist_ok (xp_dist x) \<and> mtrie_inv (xp_subscriptions x) \<and> mtrie_inv (xp_manual_subscriptions x) \<and>
     (\<forall>t. xp_lookup x t \<subseteq> xp_pipes x) \<and> d_more (xp_dist x) = xp_more_send x \<and> (\<forall>p. xp_last_pipe x = Some p \<longrightarrow> p \<in> xp_pipes x)"

lemma xpub_okD:
  assumes "xpub_ok x"
  shows "dist_ok (xp_dist x)" "mtrie_inv (xp_subscriptions x)" "mtrie_inv (xp_manual_subscriptions x)" "xp_lookup x t \<subseteq> xp_pipes x"
    "d_more (xp_dist x) = xp_more_send x" "xp_last_pipe x = Some p \<Longrightarrow> p \<in> xp_pipes x"
  using assms by (simp_all add: xpub_ok_def)

lemma xpub_ok_new: "xpub_ok xpub_new" "xpub_ok pub_new"
  by (simp_all add: xpub_ok_def xpub_new_def pub_new_def dist_ok_new new_mtrie_ok) (simp_all add: dist_new_def)

section \<open>Selecting the pipes\<close>

text \<open>Marking pipes changes the matching prefix only.\<close>

definition same_but_matching :: "'p dist \<Rightarrow> 'p dist \<Rightarrow> bool" where
  "same_but_matching d d' \<longleftrightarrow> dist_ok d' \<and> all_pipes d' = all_pipes d \<and> d_more d' = d_more d \<and>
     active_pipes d' = active_pipes d \<and> eligible_pipes d' = eligible_pipes d"

lemma same_but_matching_trans: "same_but_matching d d1 \<Longrightarrow> same_but_matching d1 d2 \<Longrightarrow> same_but_matching d d2"
  by (simp add: same_but_matching_def)

lemma mark_all_law:
  assumes "dist_ok (xp_dist x)" "\<not> d_more (xp_dist x)" "set ps \<subseteq> xp_pipes x"
  shows "\<exists>d'. mark_all mark_as_matching ps x = Some (x\<lparr>xp_dist := d'\<rparr>) \<and> same_but_matching (xp_dist x) d' \<and>
    matching_pipes d' = matching_pipes (xp_dist x) \<union> (set ps \<inter> xp_eligible x)"
  using assms
proof (induction ps arbitrary: x)
  case Nil
  then show ?case by (intro exI [of _ "xp_dist x"]) (simp add: same_but_matching_def)
next
  case (Cons p ps)
  obtain d1 where d1: "dist_match p (xp_dist x) = Some d1" "same_but_matching (xp_dist x) d1"
    "matching_pipes d1 = (if p \<in> xp_eligible x then insert p (matching_pipes (xp_dist x)) else matching_pipes (xp_dist x))"
    using dist_match_law [OF Cons.prems(1,2), of p] Cons.prems(3) unfolding same_but_matching_def by auto
  let ?x = "x\<lparr>xp_dist := d1\<rparr>"
  obtain d' where d': "mark_all mark_as_matching ps ?x = Some (?x\<lparr>xp_dist := d'\<rparr>)" "same_but_matching d1 d'"
    "matching_pipes d' = matching_pipes d1 \<union> (set ps \<inter> eligible_pipes d1)"
    using Cons.IH [of ?x] d1(2) Cons.prems(2,3) by (auto simp: same_but_matching_def)
  have "mark_all mark_as_matching (p # ps) x = Some (x\<lparr>xp_dist := d'\<rparr>)" using d1(1) d'(1) by (simp add: mark_as_matching_def)
  moreover have "eligible_pipes d1 = xp_eligible x" using d1(2) by (simp add: same_but_matching_def)
  moreover have "matching_pipes d' = matching_pipes (xp_dist x) \<union> (set (p # ps) \<inter> xp_eligible x)"
    using d1(3) d'(3) calculation(2) by auto
  ultimately show ?case using same_but_matching_trans [OF d1(2) d'(2)] by blast
qed

lemma mark_last_law:
  "xp_last_pipe x = lp \<Longrightarrow> mark_all mark_last_pipe_as_matching ps x = mark_all mark_as_matching (filter (\<lambda>p. lp = Some p) ps) x"
proof (induction ps arbitrary: x)
  case (Cons p ps)
  then show ?case
    by (auto simp: mark_last_pipe_as_matching_def mark_as_matching_def split: bind_splits)
qed simp

text \<open>The pipes that have a subscription to a prefix of the message, and the pipes a message goes to: the eligible ones among
  them (in manual mode with last value only the pipe of the last subscription read, if any), or the eligible ones not among
  them when matching is inverted.\<close>

definition subscribed :: "msg \<Rightarrow> xpub \<Rightarrow> nat set" where
  "subscribed m x = (\<Union>t \<in> {t. prefix t (m_data m)}. xp_lookup x t) \<inter>
     (if xp_manual x \<and> xp_last_pipe x \<noteq> None \<and> xp_send_last_pipe x then {p. xp_last_pipe x = Some p} else UNIV)"

definition receivers :: "msg \<Rightarrow> xpub \<Rightarrow> nat set" where
  "receivers m x = (if invert_matching (xp_options x) then xp_eligible x - subscribed m x else xp_eligible x \<inter> subscribed m x)"

lemma xpub_select_law:
  assumes "xpub_ok x" "\<not> xp_more_send x"
  shows "\<exists>d' lp. xpub_select m x = Some (x\<lparr>xp_dist := d', xp_last_pipe := lp\<rparr>) \<and> same_but_matching (xp_dist x) d' \<and>
    matching_pipes d' = receivers m x \<and> (lp = None \<or> lp = xp_last_pipe x)"
proof -
  note k = xpub_okD [OF assms(1)] and u = dist_unmatch_law [OF xpub_okD(1) [OF assms(1)]]
  let ?x = "x\<lparr>xp_dist := dist_unmatch (xp_dist x)\<rparr>" and ?ps = "mtrie_match (m_data m) (xp_subscriptions x)"
  let ?last = "xp_manual x \<and> xp_last_pipe x \<noteq> None \<and> xp_send_last_pipe x"
  let ?qs = "if ?last then filter (\<lambda>p. xp_last_pipe x = Some p) ?ps else ?ps"
  have ps: "set ?ps = (\<Union>t \<in> {t. prefix t (m_data m)}. xp_lookup x t)" using mtrie_match_ok [OF k(2)] .
  then have qs: "set ?qs = subscribed m x" by (auto simp: subscribed_def)
  have "set ?ps \<subseteq> xp_pipes x" using ps k(4) by auto
  then have sub: "set ?qs \<subseteq> xp_pipes ?x" using u by auto
  obtain d1 where d1: "mark_all mark_as_matching ?qs ?x = Some (?x\<lparr>xp_dist := d1\<rparr>)" "same_but_matching (xp_dist ?x) d1"
    "matching_pipes d1 = subscribed m x \<inter> xp_eligible x"
    using mark_all_law [of ?x ?qs] u sub qs k(5) assms(2) by auto
  have s1: "same_but_matching (xp_dist x) d1" using d1(2) u by (simp add: same_but_matching_def)
  let ?l = "if ?last then None else xp_last_pipe x"
  have body: "xpub_select m x = (let x = x\<lparr>xp_dist := d1, xp_last_pipe := ?l\<rparr> in
      if invert_matching (xp_options x) then do { d \<leftarrow> dist_reverse_match (xp_dist x); Some (x\<lparr>xp_dist := d\<rparr>) } else Some x)"
    using d1(1) mark_last_law [of ?x "xp_last_pipe x" ?ps] by (auto simp: xpub_select_def Let_def)
  show ?thesis
  proof (cases "invert_matching (xp_options x)")
    case True
    obtain d2 where d2: "dist_reverse_match d1 = Some d2" "same_but_matching d1 d2" "matching_pipes d2 = eligible_pipes d1 - matching_pipes d1"
      using dist_reverse_match_law [of d1] s1 k(5) assms(2) unfolding same_but_matching_def by auto
    have "matching_pipes d2 = receivers m x" using d2(3) d1(3) s1 True by (auto simp: receivers_def same_but_matching_def)
    then show ?thesis using d2 body True same_but_matching_trans [OF s1 d2(2)] by (intro exI [of _ d2] exI [of _ ?l]) (simp add: Let_def)
  next
    case False
    then show ?thesis using body d1(3) s1 by (intro exI [of _ d1] exI [of _ ?l]) (auto simp: Let_def receivers_def)
  qed
qed

section \<open>Sending\<close>

lemma check_hwm_iff: "dist_ok d \<Longrightarrow> dist_check_hwm hwm (d, w) \<longleftrightarrow> (\<forall>p \<in> matching_pipes d. hwm (w p))"
  using region_take [of "d_pipes d" "d_matching d"] dist_okD(1) [of d] by (simp add: dist_check_hwm_def matching_pipes_def list_all_iff)

text \<open>The pipes a part goes to: those of the first part for every further part.\<close>

definition part_receivers :: "msg \<Rightarrow> xpub \<Rightarrow> nat set" where
  "part_receivers m x = (if xp_more_send x then matching_pipes (xp_dist x) else receivers m x)"

lemma xpub_ready:
  assumes "xpub_ok x"
  shows "\<exists>d lp. (if \<not> xp_more_send x then xpub_select m x else Some x) = Some (x\<lparr>xp_dist := d, xp_last_pipe := lp\<rparr>) \<and>
    same_but_matching (xp_dist x) d \<and> matching_pipes d = part_receivers m x \<and> (lp = None \<or> lp = xp_last_pipe x)"
proof (cases "xp_more_send x")
  case True
  then show ?thesis using xpub_okD(1) [OF assms]
    by (intro exI [of _ "xp_dist x"] exI [of _ "xp_last_pipe x"]) (simp add: same_but_matching_def part_receivers_def)
next
  case False
  then show ?thesis using xpub_select_law [OF assms False] by (simp add: part_receivers_def)
qed

lemma xpub_ok_upd:
  assumes "xpub_ok x" "dist_ok d" "all_pipes d = xp_pipes x" "d_more d = b" "lp = None \<or> lp = xp_last_pipe x"
  shows "xpub_ok (x\<lparr>xp_dist := d, xp_last_pipe := lp, xp_more_send := b\<rparr>)"
  using assms by (auto simp: xpub_ok_def)

lemma xpub_send_law:
  assumes ok: "xpub_ok x" and dl: "\<And>p. p \<in> part_receivers m x \<Longrightarrow> deliver wr fl m (w p) \<noteq> None"
    and "xp_lossy x \<or> (\<forall>p \<in> part_receivers m x. hwm (w p))"
  shows "\<exists>d lp. xpub_send wr fl hwm m (x, w) = Some (Inr (), x\<lparr>xp_dist := d, xp_last_pipe := lp, xp_more_send := is_more m\<rparr>,
        \<lambda>p. if p \<in> part_receivers m x then delivered wr fl m (w p) else w p) \<and>
      xpub_ok (x\<lparr>xp_dist := d, xp_last_pipe := lp, xp_more_send := is_more m\<rparr>) \<and> all_pipes d = xp_pipes x \<and>
      eligible_pipes d = xp_eligible x - refused wr fl m w (part_receivers m x) \<and>
      matching_pipes d = (if is_more m then part_receivers m x - refused wr fl m w (part_receivers m x) else {})"
proof -
  obtain d lp where r: "(if \<not> xp_more_send x then xpub_select m x else Some x) = Some (x\<lparr>xp_dist := d, xp_last_pipe := lp\<rparr>)"
    "same_but_matching (xp_dist x) d" "matching_pipes d = part_receivers m x" "lp = None \<or> lp = xp_last_pipe x"
    using xpub_ready [OF ok] by blast
  have dok: "dist_ok d" "all_pipes d = xp_pipes x" "eligible_pipes d = xp_eligible x" using r(2) by (simp_all add: same_but_matching_def)
  obtain refs d1 where d1: "send_to_matching wr fl m (d, w) = Some (refs, d1, \<lambda>p. if p \<in> part_receivers m x then delivered wr fl m (w p) else w p)"
    "dist_ok d1" "all_pipes d1 = all_pipes d" "d_more d1 = is_more m"
    "matching_pipes d1 = part_receivers m x - refused wr fl m w (part_receivers m x)"
    "eligible_pipes d1 = eligible_pipes d - refused wr fl m w (part_receivers m x)"
    using send_to_matching_law [where w = w and wr = wr and fl = fl and m = m, OF dok(1)] dl r(3) by auto
  have go: "xp_lossy x \<or> dist_check_hwm hwm (d, w)" using assms(3) check_hwm_iff [OF dok(1)] r(3) by auto
  let ?d = "if \<not> is_more m then dist_unmatch d1 else d1"
  have u: "dist_ok ?d" "all_pipes ?d = xp_pipes x" "d_more ?d = is_more m"
    "eligible_pipes ?d = xp_eligible x - refused wr fl m w (part_receivers m x)"
    "matching_pipes ?d = (if is_more m then part_receivers m x - refused wr fl m w (part_receivers m x) else {})"
    using dist_unmatch_law [OF d1(2)] d1 dok by auto
  have "xpub_send wr fl hwm m (x, w) = Some (Inr (), x\<lparr>xp_dist := ?d, xp_last_pipe := lp, xp_more_send := is_more m\<rparr>,
      \<lambda>p. if p \<in> part_receivers m x then delivered wr fl m (w p) else w p)"
    unfolding xpub_send_def Let_def using r(1) go d1(1) by simp
  then show ?thesis using xpub_ok_upd [OF ok u(1,2,3) r(4)] u by blast
qed

lemma xpub_send_full:
  assumes ok: "xpub_ok x" and "\<not> xp_lossy x" "p \<in> part_receivers m x" "\<not> hwm (w p)"
  shows "\<exists>x'. xpub_send wr fl hwm m (x, w) = Some (Inl EAGAIN, x', w) \<and> xp_more_send x' = xp_more_send x"
proof -
  obtain d lp where r: "(if \<not> xp_more_send x then xpub_select m x else Some x) = Some (x\<lparr>xp_dist := d, xp_last_pipe := lp\<rparr>)"
    "same_but_matching (xp_dist x) d" "matching_pipes d = part_receivers m x" using xpub_ready [OF ok] by blast
  have "\<not> dist_check_hwm hwm (d, w)" using check_hwm_iff [of d] r(2,3) assms(3,4) by (auto simp: same_but_matching_def)
  then show ?thesis unfolding xpub_send_def Let_def using r(1) assms(2) by simp
qed

text \<open>A message of several parts, sent one after the other, and what a pipe that takes every part becomes.\<close>

fun xpub_send_parts ::
  "(msg \<Rightarrow> 's \<Rightarrow> (bool \<times> 's) option) \<Rightarrow> ('s \<Rightarrow> 's option) \<Rightarrow> ('s \<Rightarrow> bool) \<Rightarrow> msg list \<Rightarrow> xpub \<times> (nat \<Rightarrow> 's) \<Rightarrow> (xpub \<times> (nat \<Rightarrow> 's)) option" where
  "xpub_send_parts wr fl hwm [] xw = Some xw"
| "xpub_send_parts wr fl hwm (m # ms) xw =
     (case xpub_send wr fl hwm m xw of Some (Inr _, xw) \<Rightarrow> xpub_send_parts wr fl hwm ms xw | _ \<Rightarrow> None)"

fun takes :: "(msg \<Rightarrow> 's \<Rightarrow> (bool \<times> 's) option) \<Rightarrow> ('s \<Rightarrow> 's option) \<Rightarrow> msg list \<Rightarrow> 's \<Rightarrow> 's option" where
  "takes wr fl [] s = Some s"
| "takes wr fl (m # ms) s = (case deliver wr fl m s of Some (True, s) \<Rightarrow> takes wr fl ms s | _ \<Rightarrow> None)"

fun whole_message :: "msg list \<Rightarrow> bool" where
  "whole_message [] \<longleftrightarrow> False"
| "whole_message [m] \<longleftrightarrow> \<not> is_more m"
| "whole_message (m # ms) \<longleftrightarrow> is_more m \<and> whole_message ms"

lemma takes_Cons:
  assumes "takes wr fl (m # ms) s \<noteq> None"
  shows "deliver wr fl m s \<noteq> None \<and> accepts wr fl m s \<and> takes wr fl (m # ms) s = takes wr fl ms (delivered wr fl m s)"
  using assms by (auto simp: accepts_def delivered_def split: option.splits bool.splits prod.splits)

lemma xpub_send_parts_law:
  assumes "whole_message (m # ms)" "xpub_ok x" "xp_lossy x" "\<forall>p \<in> part_receivers m x. takes wr fl (m # ms) (w p) \<noteq> None"
  shows "\<exists>x'. xpub_send_parts wr fl hwm (m # ms) (x, w) =
      Some (x', \<lambda>p. if p \<in> part_receivers m x then the (takes wr fl (m # ms) (w p)) else w p) \<and> xpub_ok x' \<and>
    \<not> xp_more_send x' \<and> xp_pipes x' = xp_pipes x \<and> xp_eligible x' = xp_eligible x \<and> xp_subscriptions x' = xp_subscriptions x"
  using assms
proof (induction ms arbitrary: m x w)
  case (Nil m x w)
  let ?R = "part_receivers m x"
  have tk: "deliver wr fl m (w p) \<noteq> None" "accepts wr fl m (w p)" "takes wr fl [m] (w p) = Some (delivered wr fl m (w p))" if "p \<in> ?R" for p
    using takes_Cons [of wr fl m "[]" "w p"] Nil.prems(4) that by auto
  have ref: "refused wr fl m w ?R = {}" using tk(2) by (auto simp: refused_def)
  obtain d lp where d: "xpub_send wr fl hwm m (x, w) = Some (Inr (), x\<lparr>xp_dist := d, xp_last_pipe := lp, xp_more_send := is_more m\<rparr>,
        \<lambda>p. if p \<in> ?R then delivered wr fl m (w p) else w p)"
    "xpub_ok (x\<lparr>xp_dist := d, xp_last_pipe := lp, xp_more_send := is_more m\<rparr>)" "all_pipes d = xp_pipes x" "eligible_pipes d = xp_eligible x"
    using xpub_send_law [where w = w and wr = wr and fl = fl and m = m and hwm = hwm, OF Nil.prems(2)] tk(1) Nil.prems(3) ref by auto
  have "(\<lambda>p. if p \<in> ?R then delivered wr fl m (w p) else w p) = (\<lambda>p. if p \<in> ?R then the (takes wr fl [m] (w p)) else w p)"
    using tk(3) by (auto simp del: takes.simps)
  then show ?case using d Nil.prems(1) by simp
next
  case (Cons m2 ms m x w)
  let ?R = "part_receivers m x" and ?w = "\<lambda>p. if p \<in> part_receivers m x then delivered wr fl m (w p) else w p"
  have tk: "deliver wr fl m (w p) \<noteq> None" "accepts wr fl m (w p)" "takes wr fl (m # m2 # ms) (w p) = takes wr fl (m2 # ms) (?w p)" if "p \<in> ?R" for p
    using takes_Cons [of wr fl m "m2 # ms" "w p"] Cons.prems(4) that by auto
  have ref: "refused wr fl m w ?R = {}" using tk(2) by (auto simp: refused_def)
  have more: "is_more m" using Cons.prems(1) by simp
  obtain d lp where d: "xpub_send wr fl hwm m (x, w) = Some (Inr (), x\<lparr>xp_dist := d, xp_last_pipe := lp, xp_more_send := True\<rparr>, ?w)"
    "xpub_ok (x\<lparr>xp_dist := d, xp_last_pipe := lp, xp_more_send := True\<rparr>)" "all_pipes d = xp_pipes x" "eligible_pipes d = xp_eligible x"
    "matching_pipes d = ?R"
    using xpub_send_law [where w = w and wr = wr and fl = fl and m = m and hwm = hwm, OF Cons.prems(2)] tk(1) Cons.prems(3) ref more by auto
  let ?x = "x\<lparr>xp_dist := d, xp_last_pipe := lp, xp_more_send := True\<rparr>"
  have R: "part_receivers m2 ?x = ?R" using d(5) by (simp add: part_receivers_def)
  have "\<forall>p \<in> part_receivers m2 ?x. takes wr fl (m2 # ms) (?w p) \<noteq> None" unfolding R using tk(3) Cons.prems(4) by auto
  from Cons.IH [OF _ d(2) _ this] obtain x' where x': "xpub_send_parts wr fl hwm (m2 # ms) (?x, ?w) =
      Some (x', \<lambda>p. if p \<in> ?R then the (takes wr fl (m2 # ms) (?w p)) else ?w p)" "xpub_ok x'" "\<not> xp_more_send x'"
    "xp_pipes x' = xp_pipes x" "xp_eligible x' = xp_eligible x" "xp_subscriptions x' = xp_subscriptions x"
    using Cons.prems(1,3) d(3,4) unfolding R by auto
  have "(\<lambda>p. if p \<in> ?R then the (takes wr fl (m2 # ms) (?w p)) else ?w p) = (\<lambda>p. if p \<in> ?R then the (takes wr fl (m # m2 # ms) (w p)) else w p)"
    using tk(3) by (auto simp del: takes.simps)
  then show ?case using x' d(1) by simp
qed

section \<open>Following subscriptions\<close>

text \<open>The requests in a sequence of messages, given whether it starts inside a message and whether requests count there.\<close>

fun requests :: "bool \<Rightarrow> bool \<Rightarrow> bool \<Rightarrow> msg list \<Rightarrow> (bool \<times> bytes) list" where
  "requests only_first inside proc [] = []"
| "requests only_first inside proc (m # ms) =
     (let rq = (if \<not> inside \<or> proc then the (sub_request m) else None);
          proc = (if \<not> inside then \<not> only_first \<or> rq \<noteq> None else proc)
      in (case rq of None \<Rightarrow> [] | Some r \<Rightarrow> [r]) @ requests only_first (is_more m) proc ms)"

text \<open>What requests of a pipe do to the subscriptions.\<close>

fun apply_requests :: "nat \<Rightarrow> (bool \<times> bytes) list \<Rightarrow> (bytes \<Rightarrow> nat set) \<Rightarrow> bytes \<Rightarrow> nat set" where
  "apply_requests p [] f = f"
| "apply_requests p ((subscribe, t) # rqs) f = apply_requests p rqs (f(t := if subscribe then insert p (f t) else f t - {p}))"

lemma apply_request_law:
  assumes "xpub_ok x" "\<not> xp_manual x" "mtrie_budget (xp_subscriptions x) + 1 < 2 ^ 32" "p \<in> xp_pipes x"
  shows "\<exists>t. apply_request p (subscribe, topic) x = Some (
        if subscribe then xp_lookup x topic = {} \<or> xp_verbose_subs x else rm_code p (xp_lookup x topic) \<noteq> Values_remain \<or> xp_verbose_unsubs x,
        x\<lparr>xp_subscriptions := t\<rparr>) \<and>
      xpub_ok (x\<lparr>xp_subscriptions := t\<rparr>) \<and> mtrie_lookup t = apply_requests p [(subscribe, topic)] (xp_lookup x) \<and>
      mtrie_budget t \<le> mtrie_budget (xp_subscriptions x) + 1"
proof (cases subscribe)
  case True
  obtain t where t: "mtrie_add topic p (xp_subscriptions x) = Some (t, xp_lookup x topic = {})" "mtrie_inv t"
    "mtrie_lookup t = (xp_lookup x)(topic := insert p (xp_lookup x topic))" "mtrie_budget t \<le> mtrie_budget (xp_subscriptions x) + 1"
    using mtrie_add_ok [OF xpub_okD(2) [OF assms(1)] assms(3)] by blast
  have "xpub_ok (x\<lparr>xp_subscriptions := t\<rparr>)" using assms(1,4) t(2,3) by (auto simp: xpub_ok_def)
  then show ?thesis using t True assms(2) by (intro exI [of _ t]) (simp add: apply_request_def)
next
  case False
  obtain t where t: "mtrie_rm topic p (xp_subscriptions x) = Some (t, rm_code p (xp_lookup x topic))" "mtrie_inv t"
    "mtrie_lookup t = (xp_lookup x)(topic := xp_lookup x topic - {p})" "mtrie_budget t \<le> mtrie_budget (xp_subscriptions x)"
    using mtrie_rm_ok [OF xpub_okD(2) [OF assms(1)]] by blast
  have "xpub_ok (x\<lparr>xp_subscriptions := t\<rparr>)" using assms(1) t(2,3) by (auto simp: xpub_ok_def)
  then show ?thesis using t False assms(2) by (intro exI [of _ t]) (simp add: apply_request_def)
qed

text \<open>The parts of the socket that reading messages leaves alone.\<close>

definition same_but_subs :: "xpub \<Rightarrow> xpub \<Rightarrow> bool" where
  "same_but_subs x x' \<longleftrightarrow> xp_options x' = xp_options x \<and> xp_dist x' = xp_dist x \<and> xp_more_send x' = xp_more_send x \<and> xp_lossy x' = xp_lossy x \<and>
     xp_manual x' = xp_manual x \<and> xp_last_pipe x' = xp_last_pipe x \<and> xp_only_first_subscribe x' = xp_only_first_subscribe x"

lemma push_pending_keeps [simp]:
  "xpub_ok (push_pending b f x) = xpub_ok x" "same_but_subs y (push_pending b f x) = same_but_subs y x"
  "xp_subscriptions (push_pending b f x) = xp_subscriptions x" "xp_more_recv (push_pending b f x) = xp_more_recv x"
  "xp_process_subscribe (push_pending b f x) = xp_process_subscribe x" "xp_manual (push_pending b f x) = xp_manual x"
  by (simp_all add: push_pending_def xpub_ok_def same_but_subs_def)

lemma xpub_message_law:
  assumes ok: "xpub_ok x" "\<not> xp_manual x" "mtrie_budget (xp_subscriptions x) + 1 < 2 ^ 32" "p \<in> xp_pipes x"
    and m: "has_payload (m_type m)" "sub_request m \<noteq> None"
  shows "\<exists>x'. xpub_message p m x = Some x' \<and> xpub_ok x' \<and> same_but_subs x x' \<and> xp_more_recv x' = is_more m \<and>
    mtrie_budget (xp_subscriptions x') \<le> mtrie_budget (xp_subscriptions x) + 1 \<and>
    (let rq = (if \<not> xp_more_recv x \<or> xp_process_subscribe x then the (sub_request m) else None) in
     xp_process_subscribe x' = (if \<not> xp_more_recv x then \<not> xp_only_first_subscribe x \<or> rq \<noteq> None else xp_process_subscribe x) \<and>
     xp_lookup x' = apply_requests p (case rq of None \<Rightarrow> [] | Some r \<Rightarrow> [r]) (xp_lookup x))"
proof -
  obtain r where r: "sub_request m = Some r" using m(2) by blast
  define rq where "rq = (if \<not> xp_more_recv x \<or> xp_process_subscribe x then r else None)"
  define y where "y = x\<lparr>xp_more_recv := is_more m,
    xp_process_subscribe := (if \<not> xp_more_recv x then \<not> xp_only_first_subscribe x \<or> rq \<noteq> None else xp_process_subscribe x)\<rparr>"
  have y: "xpub_ok y" "same_but_subs x y" "xp_subscriptions y = xp_subscriptions x" "\<not> xp_manual y" "xp_pipes y = xp_pipes x"
    using ok(1,2) by (simp_all add: y_def xpub_ok_def same_but_subs_def)
  have rqe: "(if \<not> xp_more_recv x \<or> xp_process_subscribe x then sub_request m else Some None) = Some rq" using r by (simp add: rq_def)
  have body: "xpub_message p m x = (case rq of
         Some (subscribe, topic) \<Rightarrow> do {
           (notify, x) \<leftarrow> apply_request p (subscribe, topic) y;
           Some (if xp_manual x \<or> (sock_type (xp_options x) = SL_XPUB \<and> notify)
                 then push_pending ((if subscribe then 1 else 0) # topic) 0 x else x) }
       | None \<Rightarrow> Some (if sock_type (xp_options y) \<noteq> SL_PUB then push_pending (m_data m) (m_flags m) y else y))"
    unfolding xpub_message_def Let_def rqe if_P [OF m(1)] bind.bind_lunit y_def ..
  have flags: "xp_more_recv y = is_more m" "xp_process_subscribe y = (if \<not> xp_more_recv x then \<not> xp_only_first_subscribe x \<or> rq \<noteq> None else xp_process_subscribe x)"
    by (simp_all add: y_def)
  have "\<exists>x'. xpub_message p m x = Some x' \<and> xpub_ok x' \<and> same_but_subs x x' \<and> xp_more_recv x' = is_more m \<and>
    mtrie_budget (xp_subscriptions x') \<le> mtrie_budget (xp_subscriptions x) + 1 \<and> xp_process_subscribe x' = xp_process_subscribe y \<and>
    xp_lookup x' = apply_requests p (case rq of None \<Rightarrow> [] | Some r \<Rightarrow> [r]) (xp_lookup x)"
  proof (cases rq)
    case None
    then show ?thesis using body y flags by simp
  next
    case (Some sr)
    obtain subscribe topic where sr: "sr = (subscribe, topic)" by (cases sr)
    obtain n t where t: "apply_request p sr y = Some (n, y\<lparr>xp_subscriptions := t\<rparr>)" "xpub_ok (y\<lparr>xp_subscriptions := t\<rparr>)"
      "mtrie_lookup t = apply_requests p [sr] (xp_lookup y)" "mtrie_budget t \<le> mtrie_budget (xp_subscriptions y) + 1"
      using apply_request_law [OF y(1,4), of p subscribe topic] ok(3,4) y(3,5) sr by auto
    have "same_but_subs x (y\<lparr>xp_subscriptions := t\<rparr>)" using y(2) by (simp add: same_but_subs_def)
    then show ?thesis using body Some sr t flags y(3,4) by simp
  qed
  moreover have "(if \<not> xp_more_recv x \<or> xp_process_subscribe x then the (sub_request m) else None) = rq" by (simp add: rq_def r)
  ultimately show ?thesis unfolding Let_def flags(2) by (simp only:)
qed

text \<open>A pipe that holds the messages \<open>ms\<close> and then has nothing more.\<close>

fun drains :: "('s \<Rightarrow> (msg option \<times> 's) option) \<Rightarrow> msg list \<Rightarrow> 's \<Rightarrow> 's option" where
  "drains rd [] s = (case rd s of Some (None, s') \<Rightarrow> Some s' | _ \<Rightarrow> None)"
| "drains rd (m # ms) s = (case rd s of Some (Some m', s') \<Rightarrow> if m' = m then drains rd ms s' else None | _ \<Rightarrow> None)"

definition readable_msg :: "msg \<Rightarrow> bool" where
  "readable_msg m \<longleftrightarrow> has_payload (m_type m) \<and> sub_request m \<noteq> None"

lemma xpub_read_law:
  assumes "xpub_ok x" "\<not> xp_manual x" "p \<in> xp_pipes x" "mtrie_budget (xp_subscriptions x) + length ms < 2 ^ 32"
    "\<forall>m \<in> set ms. readable_msg m" "drains rd ms (w p) = Some s"
  shows "\<exists>x'. xpub_read_activated rd p (x, w) = Some (x', w(p := s)) \<and> xpub_ok x' \<and> same_but_subs x x' \<and>
    xp_lookup x' = apply_requests p (requests (xp_only_first_subscribe x) (xp_more_recv x) (xp_process_subscribe x) ms) (xp_lookup x)"
  using assms
proof (induction ms arbitrary: x w)
  case Nil
  then have "rd (w p) = Some (None, s)" by (auto split: option.splits)
  then have "xpub_read_activated rd p (x, w) = Some (x, w(p := s))" by (subst xpub_read_activated.simps) simp
  then show ?case using Nil.prems by (auto simp: same_but_subs_def)
next
  case (Cons m ms)
  obtain s1 where s1: "rd (w p) = Some (Some m, s1)" "drains rd ms s1 = Some s" using Cons.prems(6) by (auto split: option.splits if_splits)
  let ?rq = "if \<not> xp_more_recv x \<or> xp_process_subscribe x then the (sub_request m) else None"
  obtain x1 where x1: "xpub_message p m x = Some x1" "xpub_ok x1" "same_but_subs x x1" "xp_more_recv x1 = is_more m"
    "mtrie_budget (xp_subscriptions x1) \<le> mtrie_budget (xp_subscriptions x) + 1"
    "xp_process_subscribe x1 = (if \<not> xp_more_recv x then \<not> xp_only_first_subscribe x \<or> ?rq \<noteq> None else xp_process_subscribe x)"
    "xp_lookup x1 = apply_requests p (case ?rq of None \<Rightarrow> [] | Some r \<Rightarrow> [r]) (xp_lookup x)"
    using xpub_message_law [OF Cons.prems(1,2) _ Cons.prems(3), of m] Cons.prems(4,5) unfolding Let_def by (auto simp: readable_msg_def)
  have same: "\<not> xp_manual x1" "p \<in> xp_pipes x1" "xp_only_first_subscribe x1 = xp_only_first_subscribe x"
    using x1(3) Cons.prems(2,3) by (simp_all add: same_but_subs_def)
  have b: "mtrie_budget (xp_subscriptions x1) + length ms < 2 ^ 32" using x1(5) Cons.prems(4) by simp
  have rm: "\<forall>m \<in> set ms. readable_msg m" and dr: "drains rd ms ((w(p := s1)) p) = Some s" using Cons.prems(5) s1(2) by simp_all
  obtain x' where x': "xpub_read_activated rd p (x1, w(p := s1)) = Some (x', w(p := s))" "xpub_ok x'" "same_but_subs x1 x'"
    "xp_lookup x' = apply_requests p (requests (xp_only_first_subscribe x) (is_more m) (xp_process_subscribe x1) ms) (xp_lookup x1)"
    using Cons.IH [where w = "w(p := s1)", OF x1(2) same(1,2) b rm dr] unfolding x1(4) same(3) fun_upd_upd by blast
  have "xpub_read_activated rd p (x, w) = Some (x', w(p := s))"
    using s1(1) x1(1) x'(1) by (subst xpub_read_activated.simps) simp
  moreover have "same_but_subs x x'" using x1(3) x'(3) by (simp add: same_but_subs_def)
  moreover have "apply_requests p (xs @ ys) f = apply_requests p ys (apply_requests p xs f)" for xs ys f
    by (induction xs arbitrary: f) auto
  then have "xp_lookup x' = apply_requests p (requests (xp_only_first_subscribe x) (xp_more_recv x) (xp_process_subscribe x) (m # ms)) (xp_lookup x)"
    unfolding x'(4) x1(6,7) requests.simps Let_def by simp
  ultimately show ?case using x'(2) by blast
qed

lemma apply_requests_other: "q \<noteq> p \<Longrightarrow> q \<in> apply_requests p rqs f t \<longleftrightarrow> q \<in> f t"
  by (induction p rqs f rule: apply_requests.induct) auto

section \<open>Pipes that come and go\<close>

lemma send_unsubscription_keeps:
  "xp_subscriptions (send_unsubscription t x) = xp_subscriptions x" "xp_manual_subscriptions (send_unsubscription t x) = xp_manual_subscriptions x"
  "xp_dist (send_unsubscription t x) = xp_dist x" "xp_options (send_unsubscription t x) = xp_options x"
  "xp_manual (send_unsubscription t x) = xp_manual x" "xp_more_send (send_unsubscription t x) = xp_more_send x"
  "xp_last_pipe (send_unsubscription t x) = (if sock_type (xp_options x) \<noteq> SL_PUB \<and> xp_manual x then None else xp_last_pipe x)"
  "\<not> xp_manual x \<Longrightarrow> sock_type (xp_options x) \<noteq> SL_PUB \<Longrightarrow> xp_pending_data (send_unsubscription t x) = xp_pending_data x @ [0 # t]"
  by (simp_all add: send_unsubscription_def push_pending_def Let_def)

lemma send_unsubscription_ok: "xpub_ok x \<Longrightarrow> xpub_ok (send_unsubscription t x)"
  by (simp add: xpub_ok_def send_unsubscription_keeps)

lemma send_unsubscriptions_keep:
  "xpub_ok x \<Longrightarrow> xpub_ok (fold send_unsubscription ts x)"
  "xp_subscriptions (fold send_unsubscription ts x) = xp_subscriptions x" "xp_dist (fold send_unsubscription ts x) = xp_dist x"
  "\<not> xp_manual x \<Longrightarrow> xp_last_pipe (fold send_unsubscription ts x) = xp_last_pipe x"
  "\<not> xp_manual x \<Longrightarrow> sock_type (xp_options x) \<noteq> SL_PUB \<Longrightarrow>
   xp_pending_data (fold send_unsubscription ts x) = xp_pending_data x @ map ((#) 0) ts"
  by (induction ts arbitrary: x) (simp_all add: send_unsubscription_ok send_unsubscription_keeps)

lemma drop_manual_law:
  assumes "xpub_ok x"
  shows "\<exists>y. drop_manual p x = Some y \<and> xpub_ok y \<and> xp_dist y = xp_dist x \<and> xp_lookup y = (\<lambda>t. xp_lookup x t - {p}) \<and> xp_last_pipe y \<noteq> Some p"
proof -
  note k = xpub_okD [OF assms]
  obtain t calls where t: "mtrie_rm_value p False (xp_manual_subscriptions x) = Some (t, calls)" "mtrie_inv t"
    using mtrie_rm_value_ok [OF k(3)] by blast
  define y where "y = fold send_unsubscription calls (x\<lparr>xp_manual_subscriptions := t\<rparr>)"
  have "xpub_ok (x\<lparr>xp_manual_subscriptions := t\<rparr>)" using assms t(2) by (simp add: xpub_ok_def)
  then have y: "xpub_ok y" "xp_subscriptions y = xp_subscriptions x" "xp_dist y = xp_dist x"
    by (simp_all add: y_def send_unsubscriptions_keep)
  obtain t2 c2 where t2: "mtrie_rm_value p False (xp_subscriptions x) = Some (t2, c2)" "mtrie_inv t2" "mtrie_lookup t2 = (\<lambda>t. xp_lookup x t - {p})"
    using mtrie_rm_value_ok [OF k(2), of p False] by blast
  define z where "z = y\<lparr>xp_subscriptions := t2\<rparr>"
  have z: "xpub_ok z" "xp_lookup z = (\<lambda>t. xp_lookup x t - {p})" "xp_dist z = xp_dist x"
    using y t2(2,3) k(4) by (auto simp: z_def xpub_ok_def)
  have zl: "xp_last_pipe z = xp_last_pipe y" by (simp add: z_def)
  have "drop_manual p x = Some (if xp_last_pipe z = Some p then z\<lparr>xp_last_pipe := None\<rparr> else z)"
    using t(1) t2(1) y(2) by (simp add: drop_manual_def y_def [symmetric] z_def [symmetric] Let_def zl)
  moreover have "xpub_ok (z\<lparr>xp_last_pipe := None\<rparr>)" using z(1) by (simp add: xpub_ok_def)
  ultimately show ?thesis using z by simp
qed

lemma drop_automatic_law:
  assumes "xpub_ok x" "xp_last_pipe x \<noteq> Some p" "\<not> xp_manual x"
  shows "\<exists>y ts. drop_automatic p x = Some y \<and> xpub_ok y \<and> xp_dist y = xp_dist x \<and> xp_lookup y = (\<lambda>t. xp_lookup x t - {p}) \<and> xp_last_pipe y \<noteq> Some p \<and>
    distinct ts \<and> set ts = {t. reported p (\<not> xp_verbose_unsubs x) (xp_lookup x t)} \<and>
    (sock_type (xp_options x) \<noteq> SL_PUB \<longrightarrow> xp_pending_data y = xp_pending_data x @ map ((#) 0) ts)"
proof -
  note k = xpub_okD [OF assms(1)]
  obtain t calls where t: "mtrie_rm_value p (\<not> xp_verbose_unsubs x) (xp_subscriptions x) = Some (t, calls)" "mtrie_inv t"
    "mtrie_lookup t = (\<lambda>t. xp_lookup x t - {p})" "distinct calls" "set calls = {t. reported p (\<not> xp_verbose_unsubs x) (xp_lookup x t)}"
    using mtrie_rm_value_ok [OF k(2)] by blast
  let ?x = "x\<lparr>xp_subscriptions := t\<rparr>"
  define y where "y = fold send_unsubscription calls ?x"
  have "xpub_ok ?x" using assms(1) t(2,3) k(4) by (auto simp: xpub_ok_def)
  then have y: "xpub_ok y" "xp_subscriptions y = t" "xp_dist y = xp_dist x" "xp_last_pipe y \<noteq> Some p"
    using assms(2,3) by (simp_all add: y_def send_unsubscriptions_keep)
  have "sock_type (xp_options x) \<noteq> SL_PUB \<longrightarrow> xp_pending_data y = xp_pending_data x @ map ((#) 0) calls"
    using send_unsubscriptions_keep(5) [of ?x calls] assms(3) by (simp add: y_def)
  moreover have "drop_automatic p x = Some y" using t(1) by (simp add: drop_automatic_def y_def)
  ultimately show ?thesis using y t(3-5) by (intro exI [of _ y] exI [of _ calls]) simp
qed

text \<open>When a pipe goes away every trace of it does.\<close>

lemma xpub_pipe_terminated_law:
  assumes "xpub_ok x" "p \<in> xp_pipes x" "\<not> xp_manual x \<Longrightarrow> xp_last_pipe x \<noteq> Some p"
  shows "\<exists>x'. xpub_pipe_terminated p x = Some x' \<and> xpub_ok x' \<and> xp_pipes x' = xp_pipes x - {p} \<and> xp_eligible x' = xp_eligible x - {p} \<and>
    xp_lookup x' = (\<lambda>t. xp_lookup x t - {p})"
proof -
  obtain y where y: "(if xp_manual x then drop_manual p x else drop_automatic p x) = Some y" "xpub_ok y" "xp_dist y = xp_dist x"
    "xp_lookup y = (\<lambda>t. xp_lookup x t - {p})" "xp_last_pipe y \<noteq> Some p"
  proof (cases "xp_manual x")
    case True
    then show ?thesis using drop_manual_law [OF assms(1), of p] that by auto
  next
    case False
    then show ?thesis using drop_automatic_law [OF assms(1) assms(3) False] that by auto
  qed
  obtain d where d: "dist_pipe_terminated p (xp_dist y) = Some d" "dist_ok d" "all_pipes d = xp_pipes x - {p}" "d_more d = d_more (xp_dist x)"
    "eligible_pipes d = xp_eligible x - {p}" using dist_pipe_terminated_law [OF xpub_okD(1) [OF assms(1)] assms(2)] y(3) by auto
  have "xpub_pipe_terminated p x = Some (y\<lparr>xp_dist := d\<rparr>)" unfolding xpub_pipe_terminated_def y(1) using d(1) by simp
  moreover have "xp_lookup y t \<subseteq> all_pipes d" for t using xpub_okD(4) [OF assms(1)] y(4) d(3) by auto
  then have "xpub_ok (y\<lparr>xp_dist := d\<rparr>)" using y(2,3,5) d(2,3,4) by (auto simp: xpub_ok_def)
  ultimately show ?thesis using y(4) d(3,5) by simp
qed

end
