(* ===== verification/Publish.thy ===== *)
theory Publish
  imports Xpub Pipe
begin

text \<open>
  Publishing over real pipes: what a publisher reads from a peer decides what it writes to the peers, with reading,
  writing and flushing instantiated by the operations of a pipe end.
\<close>

section \<open>From subscriptions to deliveries\<close>

text \<open>The eligible pipes that, after the requests of \<open>p\<close> in \<open>ms\<close>, have a subscription to a prefix of the message.\<close>

definition wanted_by :: "nat \<Rightarrow> msg list \<Rightarrow> msg \<Rightarrow> xpub \<Rightarrow> nat set" where
  "wanted_by p ms m x = {q \<in> xp_eligible x. \<exists>t. prefix t (m_data m) \<and>
     q \<in> apply_requests p (requests (xp_only_first_subscribe x) (xp_more_recv x) (xp_process_subscribe x) ms) (xp_lookup x) t}"

text \<open>C40. A publisher delivers to its subscribers. When a pipe \<open>p\<close> has the messages \<open>ms\<close> waiting, reading them applies the
  subscriptions and cancellations among them, in both forms and inside messages of several parts as configured; a message
  of any number of parts sent next is written and flushed, all parts in order, to exactly the eligible pipes that then have a
  subscription to a prefix of its first part, and no other pipe is touched. The socket stays consistent.\<close>

theorem pub_delivers_to_subscribers:
  assumes "xpub_ok x" "\<not> xp_manual x" "\<not> xp_more_send x" "xp_lossy x" "\<not> invert_matching (xp_options x)"
    and "p \<in> xp_pipes x" "mtrie_budget (xp_subscriptions x) + length ms < 2 ^ 32"
    and "\<forall>m \<in> set ms. readable_msg m" "drains rd ms (w p) = Some s"
    and "whole_message (m # parts)" "\<forall>q \<in> wanted_by p ms m x. takes wr fl (m # parts) ((w(p := s)) q) \<noteq> None"
  shows "\<exists>x1 x2. xpub_read_activated rd p (x, w) = Some (x1, w(p := s)) \<and>
    xpub_send_parts wr fl room (m # parts) (x1, w(p := s)) =
      Some (x2, \<lambda>q. if q \<in> wanted_by p ms m x then the (takes wr fl (m # parts) ((w(p := s)) q)) else (w(p := s)) q) \<and>
    xpub_ok x2 \<and> xp_pipes x2 = xp_pipes x \<and> xp_eligible x2 = xp_eligible x"
proof -
  obtain x1 where x1: "xpub_read_activated rd p (x, w) = Some (x1, w(p := s))" "xpub_ok x1" "same_but_subs x x1"
    "xp_lookup x1 = apply_requests p (requests (xp_only_first_subscribe x) (xp_more_recv x) (xp_process_subscribe x) ms) (xp_lookup x)"
    using xpub_read_law [where w = w and rd = rd, OF assms(1,2,6-9)] by blast
  have k: "xp_lossy x1" "\<not> xp_more_send x1" "\<not> xp_manual x1" "\<not> invert_matching (xp_options x1)" "xp_dist x1 = xp_dist x"
    using x1(3) assms(2-5) by (simp_all add: same_but_subs_def)
  have R: "part_receivers m x1 = wanted_by p ms m x"
    using k x1(4) by (auto simp: part_receivers_def receivers_def subscribed_def wanted_by_def)
  have t: "\<forall>q \<in> part_receivers m x1. takes wr fl (m # parts) ((w(p := s)) q) \<noteq> None" unfolding R by (rule assms(11))
  note snd = xpub_send_parts_law [where w = "w(p := s)" and wr = wr and fl = fl and hwm = room, OF assms(10) x1(2) k(1) t, unfolded R k(5)]
  show ?thesis using snd x1(1) by (elim exE conjE) (intro exI conjI; assumption)
qed

section \<open>A pipe end as the publisher sees it\<close>

text \<open>An open end with the messages \<open>ms\<close> waiting and \<open>out\<close> on their way to the peer.\<close>

definition demo_end :: "msg list \<Rightarrow> msg list \<Rightarrow> pipe_ctx" where
  "demo_end ms out =
     \<lparr>store = [0 \<mapsto> Normal (up_new\<lparr>up_flushed := ms\<rparr>), 1 \<mapsto> Normal (up_new\<lparr>up_flushed := out\<rparr>)], fresh = 2, locked = False,
      self = (new_pipe 0 1 100 100 False)\<lparr>has_sink := True\<rparr>, deleted = False, sent = [], events = []\<rparr>"

definition demo_topic :: msg where
  "demo_topic = \<lparr>m_type = Type_vsm, m_flags = 0, m_data = [1, 65]\<rparr>"

definition demo_news :: msg where
  "demo_news = \<lparr>m_type = Type_vsm, m_flags = 0, m_data = [65, 66, 67]\<rparr>"

lemma demo_drains: "drains pipe_read [demo_topic] (demo_end [demo_topic] []) \<noteq> None"
  by code_simp

lemma demo_takes: "map_option (\<lambda>c. store c 1) (takes pipe_write flush [demo_news] (the (drains pipe_read [demo_topic] (demo_end [demo_topic] [])))) =
    Some (Some (Normal (up_new\<lparr>up_flushed := [demo_news]\<rparr>)))"
  by code_simp

definition demo_pub :: xpub where
  "demo_pub = pub_new\<lparr>xp_dist := the (dist_attach 7 dist_new)\<rparr>"

lemma demo_pub: "xpub_ok demo_pub" "xp_pipes demo_pub = {7}" "xp_eligible demo_pub = {7}" "xp_lookup demo_pub t = {}" "mtrie_budget (xp_subscriptions demo_pub) = 0"
proof -
  obtain d :: "nat dist" where d: "dist_attach 7 dist_new = Some d" "dist_ok d" "all_pipes d = {7}" "d_more d = False" "eligible_pipes d = {7}"
    using dist_attach_law [OF dist_ok_new, of "7 :: nat"] by (auto simp: dist_new_def pa_new_def eligible_pipes_def)
  then show "xpub_ok demo_pub" "xp_pipes demo_pub = {7}" "xp_eligible demo_pub = {7}" "xp_lookup demo_pub t = {}"
    "mtrie_budget (xp_subscriptions demo_pub) = 0"
    using xpub_ok_new(2) by (simp_all add: demo_pub_def xpub_ok_def pub_new_def xpub_new_def new_mtrie_ok)
qed

theorem pub_delivers_to_subscribers_witness:
  "\<exists>x1 x2 w. xpub_read_activated pipe_read 7 (demo_pub, \<lambda>_. demo_end [demo_topic] []) = Some (x1, w) \<and>
     map_option (\<lambda>(x, w). store (w 7) 1) (xpub_send_parts pipe_write flush (\<lambda>_. True) [demo_news] (x1, w)) =
       Some (Some (Normal (up_new\<lparr>up_flushed := [demo_news]\<rparr>)))"
proof -
  let ?c = "demo_end [demo_topic] []" and ?ms = "[demo_topic]"
  obtain s where s: "drains pipe_read ?ms ?c = Some s" using demo_drains by blast
  have rq: "sub_request demo_topic = Some (Some (True, [65]))" by code_simp
  have m: "\<forall>m \<in> set ?ms. readable_msg m" using rq by (simp add: readable_msg_def) (simp add: demo_topic_def has_payload_def)
  have "requests False False False ?ms = [(True, [65])]" using rq by simp
  then have R: "wanted_by 7 ?ms demo_news demo_pub = {7}"
    using demo_pub(3,4) by (auto simp: wanted_by_def demo_pub_def pub_new_def xpub_new_def demo_news_def intro!: exI [of _ "[65]"])
  have tk: "takes pipe_write flush [demo_news] s \<noteq> None" using demo_takes s by auto
  have f: "\<not> xp_manual demo_pub" "\<not> xp_more_send demo_pub" "xp_lossy demo_pub" "\<not> invert_matching (xp_options demo_pub)"
    by (simp_all add: demo_pub_def pub_new_def xpub_new_def options_new_def)
  have p: "7 \<in> xp_pipes demo_pub" "mtrie_budget (xp_subscriptions demo_pub) + length ?ms < 2 ^ 32" using demo_pub(2,5) by simp_all
  have d: "drains pipe_read ?ms ((\<lambda>_. ?c) (7 :: nat)) = Some s" using s .
  have wm: "whole_message [demo_news]" by code_simp
  let ?w = "(\<lambda>_. ?c)(7 := s)"
  have t: "\<forall>q \<in> wanted_by 7 ?ms demo_news demo_pub. takes pipe_write flush [demo_news] (?w q) \<noteq> None" unfolding R using tk by simp
  obtain x1 x2 where x: "xpub_read_activated pipe_read 7 (demo_pub, \<lambda>_. ?c) = Some (x1, ?w)"
    "xpub_send_parts pipe_write flush (\<lambda>_. True) [demo_news] (x1, ?w) =
      Some (x2, \<lambda>q. if q \<in> wanted_by 7 ?ms demo_news demo_pub then the (takes pipe_write flush [demo_news] (?w q)) else ?w q)"
    using pub_delivers_to_subscribers [where w = "\<lambda>_. ?c" and rd = pipe_read and wr = pipe_write and fl = flush and room = "\<lambda>_. True",
        OF demo_pub(1) f p m d wm t] by blast
  have "store (the (takes pipe_write flush [demo_news] s)) 1 = Some (Normal (up_new\<lparr>up_flushed := [demo_news]\<rparr>))"
    using demo_takes tk unfolding s option.sel by (metis map_option_eq_Some option.sel)
  then have "map_option (\<lambda>(x, w). store (w 7) 1) (xpub_send_parts pipe_write flush (\<lambda>_. True) [demo_news] (x1, ?w)) =
      Some (Some (Normal (up_new\<lparr>up_flushed := [demo_news]\<rparr>)))" unfolding x(2) R by (simp del: takes.simps)
  then show ?thesis using x(1) by blast
qed

end
