(* ===== verification/Spec2Isabelle.thy ===== *)
theory Spec2Isabelle
  imports Engine_IO Trie Pattern_Trie Spot_Node Pipe_Flow Publish
begin

text \<open>
  A verification development for ServerLink, a C++ messaging library derived from libzmq
  (\<^verbatim>\<open>src/src/\<close>). The theories translate the components of the library into executable functions with
  explicit state and prove what the components promise.

  \<^bold>\<open>The program.\<close> A user's socket exchanges messages with the sockets of its peers. A message leaves a socket
  through a distributor or a router into a pipe, a pair of lock-free queues shared with the thread of a session; the
  session's engine pulls the messages from the pipe, encodes them as ZMTP frames and writes them to a byte stream.
  The peer's engine decodes the stream, pushes the messages into its own pipe, and its socket takes them out by fair
  queueing. Publishers keep the subscriptions of their peers in a multi-trie and send a message to the pipes
  that have a matching prefix. SPOT (\<^verbatim>\<open>src/src/spot/\<close>) is a topic layer over such sockets.

  \<^bold>\<open>Conventions\<close> (\<^theory_text>\<open>Prelude\<close>). A function that returns -1 and sets \<^verbatim>\<open>errno\<close> is a function into \<open>errno + 'a\<close>. A
  failing \<^verbatim>\<open>slk_assert\<close> or \<^verbatim>\<open>errno_assert\<close>, a null dereference or an access outside a vector is \<open>None\<close>, so that a theorem that an
  operation returns \<open>Some\<close> includes that it neither aborts nor is undefined. Whether the allocator succeeds is an
  argument where the code checks it. Machine integers are words where they can wrap. Histories of operations are
  run by \<open>run_ops\<close>, and the locale \<open>op_simulation\<close> turns a simulation of single operations into one of histories.

  \<^bold>\<open>Parts.\<close>
  \<^item> \<^theory_text>\<open>Wire\<close>, \<^theory_text>\<open>Msg\<close>, \<^theory_text>\<open>Encoder\<close>, \<^theory_text>\<open>Decoder\<close>, \<^theory_text>\<open>Codec\<close>, \<^theory_text>\<open>Engine_IO\<close>: big-endian integers, message values, the encoding loop of
    \<^verbatim>\<open>encoder.hpp\<close> with the state machines of \<^verbatim>\<open>v2_encoder.cpp\<close>, \<^verbatim>\<open>v3_1_encoder.cpp\<close> and \<^verbatim>\<open>raw_encoder.cpp\<close>, the decoding loop
    of \<^verbatim>\<open>decoder.hpp\<close> with \<^verbatim>\<open>v2_decoder.cpp\<close>, and the receive and send loops of \<^verbatim>\<open>stream_engine_base.cpp\<close>. The locale
    \<open>frame_format\<close> states what a frame format promises the receive loop, and is interpreted for both formats. Shown: the
    encoder emits exactly the frame whatever buffers it is given and finishes it; what one engine sends the other
    delivers, for every way the bytes are cut into reads; zero-copy decoding is equivalent to copying.
  \<^item> \<^theory_text>\<open>Node_Table\<close>, \<^theory_text>\<open>Trie\<close>, \<^theory_text>\<open>Mtrie\<close>: the compact child tables and the tries over them (\<^verbatim>\<open>trie.cpp\<close>, \<^verbatim>\<open>mtrie_impl.hpp\<close>). Shown:
    they refine a multiset of prefixes and a map from prefixes to sets of pipes (locales \<open>prefix_multiset\<close>,
    \<open>prefix_multimap\<close>), results of the operations and matching included.
  \<^item> \<^theory_text>\<open>Glob\<close>, \<^theory_text>\<open>Pattern_Trie\<close>: the glob compiler and matcher and the reference-counted list of patterns
    (\<^verbatim>\<open>glob_pattern.cpp\<close>, \<^verbatim>\<open>pattern_trie.cpp\<close>). Shown: matching decides the language of the pattern.
  \<^item> \<^theory_text>\<open>Yqueue\<close>, \<^theory_text>\<open>Ypipe\<close>: the chunked queue on a heap of chunks and the lock-free pipe. Shown: every interleaving of
    the two threads' accesses to the shared pointer is linearised by a queue with a sleeping reader, first in first
    out, and a reader that went to sleep is woken.
  \<^item> \<^theory_text>\<open>Message_Pipe\<close>, \<^theory_text>\<open>Pipe\<close>, \<^theory_text>\<open>Pipe_Pair\<close>, \<^theory_text>\<open>Pipe_Protocol\<close>, \<^theory_text>\<open>Pipe_Flow\<close>: the ends of a pipe (\<^verbatim>\<open>pipe.cpp\<close>) over message pipes
    kept in a store, and the pair of ends with the commands in flight. Shown: the termination handshake and hiccups
    never abort or touch a deleted queue under any interleaving and can always finish; the high water mark
    bounds the messages in a pipe and neither end is left waiting.
  \<^item> \<^theory_text>\<open>Pipe_Array\<close>, \<^theory_text>\<open>Dist\<close>, \<^theory_text>\<open>Fq\<close>: the array of pipes with stored positions, the distributor and the fair queue
    (\<^verbatim>\<open>array.hpp\<close>, \<^verbatim>\<open>dist.cpp\<close>, \<^verbatim>\<open>fq.cpp\<close>). Shown: every operation's effect on the sets of matching, active and eligible
    pipes, exact delivery with balanced reference counts, and round robin.
  \<^item> \<^theory_text>\<open>Options\<close>: the option block of a socket with all cases of \<^verbatim>\<open>options_t::setsockopt\<close> and \<^verbatim>\<open>getsockopt\<close>. Shown: every field
    stays within its range whatever calls are made; options do not influence each other and read back what was stored.
  \<^item> \<^theory_text>\<open>Xpub\<close>, \<^theory_text>\<open>Publish\<close>: the publishing sockets (\<^verbatim>\<open>xpub.cpp\<close>, \<^verbatim>\<open>pub.cpp\<close>) over the multi-trie and the distributor, and their use with
    the operations of real pipe ends. Shown: the subscriptions follow the requests read from the pipes, a message of any number
    of parts reaches exactly the eligible pipes with a matching prefix, and a pipe that goes away leaves no trace.
  \<^item> \<^theory_text>\<open>Spot_Registry\<close>, \<^theory_text>\<open>Spot_Subscriptions\<close>, \<^theory_text>\<open>Spot_Pubsub\<close>, \<^theory_text>\<open>Spot_Node\<close>: the SPOT topic registry, subscription manager,
    publish/subscribe object and node connection, over a socket interface that is an argument. Shown: the two tables
    refine a map and relations, what is published is received, blocking calls return by their deadline, and several
    places where errors are lost.

  \<^bold>\<open>Bounds.\<close> Lengths of payloads and numbers of references are below \<open>2 ^ 64\<close> and \<open>2 ^ 32\<close> where a counter of that width
  holds them; the theorems state it. Loops that could run forever are \<^verbatim>\<open>partial_function (option)\<close>, and the theorems
  show that they return; loops over retries of a socket take fuel that the theorems show sufficient (one step for each
  iteration before the deadline).

  \<^bold>\<open>Assumptions.\<close> Threads interleave under sequential consistency: the lock-free pipe at each access to its shared
  pointer, the pipe ends at whole operations, which touch what they share only through the message pipes and commands
  shown linearisable before. Commands from one thread to another arrive in order. Water marks are integers, not
  32-bit ones. Operations that hold a lock throughout are one step.

  \<^bold>\<open>Not modelled.\<close> The handlers of XSUB, SUB, PAIR and ROUTER sockets; message metadata and the sharing of payloads
  between messages beyond the balance of references in the distributor; the handshake and commands of the ZMTP engine; the
  operating system's sockets, pollers, threads and clocks; name resolution and the listeners and connecters around it; contexts,
  sessions and the ownership tree, which pass commands between threads around the modelled components; the C interface,
  which checks arguments and casts.
\<close>

end
